(* ===== verification/Prelude.thy ===== *)
theory Prelude
  imports "HOL-Library.Word"
begin

text \<open>
  Shared vocabulary of the development: machine integers, the NT status codes that
  the modelled server code raises, the forward scan that several tables use to find
  a free slot, and the interface (a locale) of a table that hands out handles.
\<close>

unbundle bit_operations_syntax

section \<open>Machine integers and status codes\<close>

type_synonym u8 = "8 word"
type_synonym u16 = "16 word"
type_synonym u32 = "32 word"
type_synonym u64 = "64 word"
type_synonym wchar = "16 word"

text \<open>
  The status values that \<^verbatim>\<open>set_error\<close> receives in the modelled functions. A C
  function that calls \<^verbatim>\<open>set_error\<close> and returns 0 or NULL is a function into
  \<open>ntstatus + 'a\<close> with the status on the left.
\<close>

datatype ntstatus =
    STATUS_SUCCESS
  | STATUS_PENDING
  | STATUS_INVALID_HANDLE
  | STATUS_INVALID_PARAMETER
  | STATUS_NO_MEMORY
  | STATUS_INSUFFICIENT_RESOURCES
  | STATUS_ACCESS_DENIED
  | STATUS_OBJECT_TYPE_MISMATCH
  | STATUS_OBJECT_NAME_INVALID
  | STATUS_OBJECT_NAME_NOT_FOUND
  | STATUS_HANDLE_NOT_CLOSABLE
  | STATUS_PROCESS_IS_TERMINATING
  | STATUS_WAS_LOCKED
  | STATUS_BUFFER_OVERFLOW
  | STATUS_BUFFER_TOO_SMALL
  | STATUS_GENERIC_NOT_MAPPED
  | STATUS_BAD_IMPERSONATION_LEVEL
  | STATUS_NO_IMPERSONATION_TOKEN
  | STATUS_NOT_SAME_OBJECT
  | STATUS_INVALID_SECURITY_DESCR
  | STATUS_PRIVILEGE_NOT_HELD
  | STATUS_NOT_ALL_ASSIGNED
  | STATUS_INVALID_ACL
  | STATUS_NAME_TOO_LONG
  | STATUS_NO_MORE_ENTRIES
  | STATUS_CANNOT_DELETE
  | STATUS_KEY_DELETED
  | STATUS_FILE_LOCK_CONFLICT
  | STATUS_INVALID_DEVICE_REQUEST

type_synonym 'a result = "ntstatus + 'a"

text \<open>
  Some operations can also reach code that reads or writes outside its buffer or
  through a null pointer. Their model returns an outcome with that branch made
  explicit.
\<close>

datatype 'a outcome = Ok 'a | Err ntstatus | Fault

named_theorems wine_defs \<open>definitions of the model that proofs unfold\<close>
named_theorems wine_inv \<open>preservation of the component invariants\<close>

section \<open>Lists\<close>

lemma takeWhile_dropWhile_split:
  "xs = takeWhile P xs @ dropWhile P xs"
  by simp

lemma length_dropWhile_less:
  assumes "xs \<noteq> []" and "P (hd xs)"
  shows "length (dropWhile P xs) < length xs"
  using assms by (cases xs) (auto simp: le_imp_less_Suc length_dropWhile_le)

lemma takeWhile_neq_Nil:
  assumes "xs \<noteq> []" and "P (hd xs)"
  shows "takeWhile P xs \<noteq> []"
  using assms by (cases xs) auto

lemma map_filter_butlast_mono [simp]: "set (butlast xs) \<subseteq> set xs"
  by (auto dest: in_set_butlastD)

section \<open>The forward scan for a free slot\<close>

text \<open>
  \<^verbatim>\<open>for (i = lo; i < n; i++) if (P(i)) goto found;\<close> leaves in \<open>i\<close> the first
  index from \<open>lo\<close> on that satisfies \<open>P\<close>, or \<open>n\<close> (or \<open>lo\<close> when the loop body
  never runs).
\<close>

function scan :: "(nat \<Rightarrow> bool) \<Rightarrow> nat \<Rightarrow> nat \<Rightarrow> nat" where
  "scan P i n = (if i < n \<and> \<not> P i then scan P (Suc i) n else i)"
  by pat_completeness auto
termination
  by (relation "measure (\<lambda>(P, i, n). n - i)") auto

declare scan.simps [simp del]

lemma scan_ge: "i \<le> scan P i n"
proof (induction P i n rule: scan.induct)
  case (1 P i n)
  then show ?case by (subst scan.simps) auto
qed

lemma scan_le: "i \<le> n \<Longrightarrow> scan P i n \<le> n"
proof (induction P i n rule: scan.induct)
  case (1 P i n)
  then show ?case by (subst scan.simps) auto
qed

lemma scan_found: "scan P i n < n \<Longrightarrow> P (scan P i n)"
proof (induction P i n rule: scan.induct)
  case (1 P i n)
  show ?case
  proof (cases "i < n \<and> \<not> P i")
    case True
    with 1 show ?thesis by (simp add: scan.simps [of P i n])
  next
    case False
    with "1.prems" show ?thesis by (auto simp: scan.simps [of P i n])
  qed
qed

lemma scan_before: "i \<le> j \<Longrightarrow> j < scan P i n \<Longrightarrow> \<not> P j"
proof (induction P i n rule: scan.induct)
  case (1 P i n)
  show ?case
  proof (cases "i < n \<and> \<not> P i")
    case True
    with "1.prems" have "j = i \<or> Suc i \<le> j" by auto
    moreover from True "1.prems"(2) have "j < scan P (Suc i) n"
      by (simp add: scan.simps [of P i n])
    ultimately show ?thesis using "1.IH" True by auto
  next
    case False
    with "1.prems" show ?thesis by (auto simp: scan.simps [of P i n])
  qed
qed

lemmas scan_props = scan_ge scan_le scan_found scan_before

section \<open>Tables that hand out handles\<close>

text \<open>
  The contract that the process handle table (\<^verbatim>\<open>handle.c\<close>) and the table of user
  handles (\<^verbatim>\<open>user.c\<close>) give their clients: a new handle is not in use, it denotes
  the inserted value until it is removed, and no operation disturbs another handle.
\<close>

datatype ('h, 'v) table_cmd = TAlloc 'v | TFree 'h

inductive map_step :: "('h \<rightharpoonup> 'v) \<Rightarrow> ('h \<rightharpoonup> 'v) \<Rightarrow> bool" where
  map_insert: "m h = None \<Longrightarrow> map_step m (m(h \<mapsto> v))"
| map_remove: "map_step m (m(h := None))"

locale handle_allocator =
  fixes invar :: "'t \<Rightarrow> bool"
    and find :: "'t \<Rightarrow> 'h \<Rightarrow> 'v option"
    and alloc :: "'t \<Rightarrow> 'v \<Rightarrow> ('h \<times> 't) option"
    and free :: "'t \<Rightarrow> 'h \<Rightarrow> 't"
  assumes alloc_invar: "invar t \<Longrightarrow> alloc t v = Some (h, t') \<Longrightarrow> invar t'"
    and alloc_fresh: "invar t \<Longrightarrow> alloc t v = Some (h, t') \<Longrightarrow> find t h = None"
    and alloc_find: "invar t \<Longrightarrow> alloc t v = Some (h, t') \<Longrightarrow> find t' = (find t)(h \<mapsto> v)"
    and free_invar: "invar t \<Longrightarrow> find t h \<noteq> None \<Longrightarrow> invar (free t h)"
    and free_find: "invar t \<Longrightarrow> find t h \<noteq> None \<Longrightarrow> find (free t h) = (find t)(h := None)"
begin

fun alloc_list :: "'t \<Rightarrow> 'v list \<Rightarrow> ('h list \<times> 't) option" where
  "alloc_list t [] = Some ([], t)"
| "alloc_list t (v # vs) =
     (case alloc t v of
        None \<Rightarrow> None
      | Some (h, t') \<Rightarrow>
          (case alloc_list t' vs of
             None \<Rightarrow> None
           | Some (hs, t'') \<Rightarrow> Some (h # hs, t'')))"

text \<open>Handles that are handed out one after the other are pairwise different.\<close>

lemma alloc_list_props:
  assumes "invar t" and "alloc_list t vs = Some (hs, t')"
  shows "invar t' \<and> length hs = length vs \<and> distinct hs \<and>
    (\<forall>h \<in> set hs. find t h = None) \<and> find t' = (find t) ++ map_of (rev (zip hs vs))"
  using assms
proof (induction vs arbitrary: t hs)
  case Nil
  then show ?case by simp
next
  case (Cons v vs)
  from Cons.prems(2) obtain h t1 hs' where
      a: "alloc t v = Some (h, t1)" and r: "alloc_list t1 vs = Some (hs', t')"
      and hs: "hs = h # hs'"
    by (auto split: option.splits prod.splits)
  note inv1 = alloc_invar [OF Cons.prems(1) a]
  note fresh = alloc_fresh [OF Cons.prems(1) a]
  note find1 = alloc_find [OF Cons.prems(1) a]
  have IH: "invar t'" "length hs' = length vs" "distinct hs'"
      "\<forall>h \<in> set hs'. find t1 h = None" "find t' = (find t1) ++ map_of (rev (zip hs' vs))"
    using Cons.IH [OF inv1 r] by auto
  have "h \<notin> set hs'" using IH(4) find1 by auto
  moreover have "\<forall>h \<in> set hs'. find t h = None"
    using IH(4) find1 by (auto split: if_splits)
  moreover have "(find t)(h \<mapsto> v) ++ map_of (rev (zip hs' vs)) =
      find t ++ map_of (rev (zip hs' vs) @ [(h, v)])"
    by (simp add: map_add_assoc)
  ultimately show ?case using IH fresh find1 hs by auto
qed

text \<open>
  A sequence of commands; a failed allocation and the release of a handle that is not
  in use change nothing. Seen through the lookup, every run is a run of an abstract
  partial function that is extended at unused handles and restricted.
\<close>

fun run :: "'t \<Rightarrow> ('h, 'v) table_cmd list \<Rightarrow> 't" where
  "run t [] = t"
| "run t (TAlloc v # cs) = (case alloc t v of None \<Rightarrow> run t cs | Some (h, t') \<Rightarrow> run t' cs)"
| "run t (TFree h # cs) = (if find t h = None then run t cs else run (free t h) cs)"

lemma run_refines:
  assumes "invar t"
  shows "invar (run t cs) \<and> map_step\<^sup>*\<^sup>* (find t) (find (run t cs))"
  using assms
proof (induction t cs rule: run.induct)
  case (2 t v cs)
  show ?case
  proof (cases "alloc t v")
    case (Some ht)
    then obtain h t' where a: "alloc t v = Some (h, t')" by (cases ht) auto
    have "map_step (find t) (find t')"
      using alloc_fresh [OF 2(3) a] alloc_find [OF 2(3) a] by (simp add: map_insert)
    then show ?thesis
      using 2(2) [OF a refl alloc_invar [OF 2(3) a]] a by (auto intro: converse_rtranclp_into_rtranclp)
  qed (use 2 in simp)
next
  case (3 t h cs)
  show ?case
  proof (cases "find t h = None")
    case False
    then have "map_step (find t) (find (free t h))"
      using free_find [OF 3(3) False] by (simp add: map_remove)
    then show ?thesis
      using 3(2) [OF False free_invar [OF 3(3) False]] False by (auto intro: converse_rtranclp_into_rtranclp)
  qed (use 3 in simp)
qed simp

end

end
