(* ===== verification/Unicode.thy ===== *)
theory Unicode
  imports Prelude
begin

text \<open>
  The string helpers of \<^verbatim>\<open>server/unicode.c\<close>: case folding through the table of
  \<^verbatim>\<open>l_intl.nls\<close>, the case-insensitive comparison and hash that the atom tables and
  the registry rely on, and the escaped text form in which registry names and values
  are saved (\<^verbatim>\<open>dump_strW\<close>) and loaded (\<^verbatim>\<open>parse_strW\<close>).

  A \<^verbatim>\<open>struct unicode_str\<close> is a list of 16-bit units; its byte length is twice the
  length of the list. The case table is data the server reads from a file at start-up,
  so it is a parameter \<open>cm\<close> of the definitions.
\<close>

type_synonym casemap = "nat \<Rightarrow> u16"

definition to_lower :: "casemap \<Rightarrow> wchar \<Rightarrow> wchar" where
  "to_lower cm ch =
     ch + cm (unat (cm (unat (cm (unat (drop_bit 8 ch))) + unat (drop_bit 4 ch AND 15)))
              + unat (ch AND 15))"

text \<open>A name with its case folded, the key under which the name tables store it.\<close>

definition folded :: "casemap \<Rightarrow> wchar list \<Rightarrow> wchar list" where
  "folded cm str = map (to_lower cm) str"

text \<open>
  \<^verbatim>\<open>memicmp_strW\<close> compares \<open>n\<close> units and returns the first difference. Every caller
  passes a count within both strings.
\<close>

fun memicmp_strW :: "casemap \<Rightarrow> wchar list \<Rightarrow> wchar list \<Rightarrow> nat \<Rightarrow> int" where
  "memicmp_strW cm (a # s1) (b # s2) (Suc n) =
     (let d = uint (to_lower cm a) - uint (to_lower cm b)
      in if d \<noteq> 0 then d else memicmp_strW cm s1 s2 n)"
| "memicmp_strW cm s1 s2 n = 0"

definition hash_strW :: "casemap \<Rightarrow> wchar list \<Rightarrow> u32 \<Rightarrow> u32" where
  "hash_strW cm str hash_size =
     foldl (\<lambda>hash c. hash * 65599 + ucast (to_lower cm c)) 0 str mod hash_size"

definition ascii_to_unicode_str :: "u8 list \<Rightarrow> wchar list" where
  "ascii_to_unicode_str str = map ucast str"

section \<open>Parsing the escaped form\<close>

text \<open>
  A C string is a list of bytes; reading at or past its end gives the terminating
  zero byte.
\<close>

definition cur :: "u8 list \<Rightarrow> u8" where
  "cur p = (case p of [] \<Rightarrow> 0 | b # _ \<Rightarrow> b)"

definition isxdigit :: "u8 \<Rightarrow> bool" where
  "isxdigit b \<longleftrightarrow> 48 \<le> b \<and> b \<le> 57 \<or> 65 \<le> b \<and> b \<le> 70 \<or> 97 \<le> b \<and> b \<le> 102"

definition isodigit :: "u8 \<Rightarrow> bool" where
  "isodigit b \<longleftrightarrow> 48 \<le> b \<and> b \<le> 55"

definition to_hex :: "u8 \<Rightarrow> wchar" where
  "to_hex ch =
     (if 48 \<le> ch \<and> ch \<le> 57 then ucast (ch - 48)
      else ucast ((if 65 \<le> ch \<and> ch \<le> 90 then ch + 32 else ch) - 97 + 10))"

fun parse_digits :: "(u8 \<Rightarrow> bool) \<Rightarrow> (u8 \<Rightarrow> wchar) \<Rightarrow> wchar \<Rightarrow> nat \<Rightarrow> wchar \<Rightarrow> u8 list
    \<Rightarrow> u8 list \<times> wchar" where
  "parse_digits isd val base 0 v p = (p, v)"
| "parse_digits isd val base (Suc k) v p =
     (if isd (cur p) then parse_digits isd val base k (v * base + val (cur p)) (tl p)
      else (p, v))"

definition parse_hex :: "u8 list \<Rightarrow> u8 list \<times> wchar" where
  "parse_hex p =
     (if \<not> isxdigit (cur p) then (p, 120)
      else parse_digits isxdigit to_hex 16 3 (to_hex (cur p)) (tl p))"

definition parse_octal :: "u8 list \<Rightarrow> u8 list \<times> wchar" where
  "parse_octal p =
     parse_digits isodigit (\<lambda>b. ucast (b - 48)) 8 2 (ucast (cur p - 48)) (tl p)"

text \<open>
  The number of continuation bytes by first byte (\<^verbatim>\<open>utf8_length\<close>), the mask of the
  first byte (\<^verbatim>\<open>utf8_mask\<close>) and the least code point of each length
  (\<^verbatim>\<open>utf8_minval\<close>).
\<close>

definition utf8_length :: "u8 \<Rightarrow> nat" where
  "utf8_length ch =
     (if ch < 0xc2 then 0 else if ch < 0xe0 then 1 else if ch < 0xf0 then 2
      else if ch < 0xf5 then 3 else 0)"

definition utf8_mask :: "nat \<Rightarrow> u8" where
  "utf8_mask n = [0x7f, 0x1f, 0x0f, 0x07] ! n"

definition utf8_minval :: "nat \<Rightarrow> u32" where
  "utf8_minval n = [0x0, 0x80, 0x800, 0x10000] ! n"

fun utf8_cont :: "nat \<Rightarrow> u32 \<Rightarrow> u8 list \<Rightarrow> u32 option \<times> u8 list" where
  "utf8_cont 0 res p = (Some res, p)"
| "utf8_cont (Suc n) res p =
     (let ch = cur p XOR 0x80
      in if 0x40 \<le> ch then (None, p)
         else utf8_cont n (push_bit 6 res OR ucast ch) (tl p))"

definition utf8_units :: "nat \<Rightarrow> u32 \<Rightarrow> wchar list" where
  "utf8_units charlen res =
     (if res < utf8_minval charlen then []
      else if 0x10ffff < res then []
      else if res \<le> 0xffff then [ucast res]
      else (let r = res - 0x10000
            in [ucast (0xd800 OR drop_bit 10 r), ucast (0xdc00 OR (r AND 0x3ff))]))"

text \<open>
  One turn of the loop of \<^verbatim>\<open>parse_strW\<close>: the rest of the input and the units it
  stores, or \<open>None\<close> for the \<^verbatim>\<open>break\<close> after a final backslash.
\<close>

definition parse_plain :: "u8 list \<Rightarrow> u8 list \<times> wchar list" where
  "parse_plain p =
     (let ch = cur p; p1 = tl p
      in if ch < 0x80 then (p1, [ucast ch])
         else if utf8_length ch = 0 then (p1, [])
         else (case utf8_cont (utf8_length ch) (ucast (ch AND utf8_mask (utf8_length ch))) p1 of
                 (None, p2) \<Rightarrow> (p2, [])
               | (Some res, p2) \<Rightarrow> (p2, utf8_units (utf8_length ch) res)))"

definition parse_unit :: "u8 list \<Rightarrow> (u8 list \<times> wchar list) option" where
  "parse_unit p =
     (if cur p = 92 then
        (let p1 = tl p; c = cur p1
         in if c = 0 then None
            else if c = 97 then Some (tl p1, [7])
            else if c = 98 then Some (tl p1, [8])
            else if c = 101 then Some (tl p1, [27])
            else if c = 102 then Some (tl p1, [12])
            else if c = 110 then Some (tl p1, [10])
            else if c = 114 then Some (tl p1, [13])
            else if c = 116 then Some (tl p1, [9])
            else if c = 118 then Some (tl p1, [11])
            else if c = 120 then (case parse_hex (tl p1) of (p2, v) \<Rightarrow> Some (p2, [v]))
            else if isodigit c then (case parse_octal p1 of (p2, v) \<Rightarrow> Some (p2, [v]))
            else Some (parse_plain p1))
      else Some (parse_plain p))"

lemma cur_nonzero: "cur p \<noteq> 0 \<Longrightarrow> p \<noteq> []"
  by (auto simp: cur_def)

lemma length_tl_le: "length (tl xs) \<le> length xs"
  by simp

lemma parse_digits_length: "length (fst (parse_digits isd val base k v p)) \<le> length p"
  by (induction k arbitrary: v p) (auto intro: le_trans [OF _ length_tl_le])

lemma utf8_cont_length: "length (snd (utf8_cont n res p)) \<le> length p"
  by (induction n arbitrary: res p) (auto simp: Let_def intro: le_trans [OF _ length_tl_le])

lemma parse_plain_length:
  assumes "p \<noteq> []" shows "length (fst (parse_plain p)) < length p"
proof -
  have "length (snd (utf8_cont n res (tl p))) < length p" for n res
    using utf8_cont_length [of n res "tl p"] assms by (cases p) auto
  then have cont: "utf8_cont n res (tl p) = (r, p2) \<Longrightarrow> length p2 < length p" for n res r p2
    by (metis snd_conv)
  show ?thesis
    using assms by (auto simp: parse_plain_def Let_def split: prod.splits option.splits
        dest: cont)
qed

lemma parse_hex_length: "length (fst (parse_hex p)) \<le> length p"
  using parse_digits_length [of isxdigit to_hex 16 3 "to_hex (cur p)" "tl p"]
  by (auto simp: parse_hex_def)

lemma parse_octal_length:
  "length (fst (parse_octal p)) \<le> length (tl p)"
  unfolding parse_octal_def by (rule parse_digits_length)

lemma parse_unit_length:
  assumes "parse_unit p = Some (p', out)" and "cur p \<noteq> 0"
  shows "length p' < length p"
proof -
  from assms(2) have ne: "p \<noteq> []" by (rule cur_nonzero)
  then have tl: "length (tl p) < length p" by (cases p) auto
  have hex: "parse_hex (tl (tl p)) = (p2, v) \<Longrightarrow> length p2 < length p" for p2 v
    using parse_hex_length [of "tl (tl p)"] tl by auto
  have oct: "parse_octal (tl p) = (p2, v) \<Longrightarrow> length p2 < length p" for p2 v
    using parse_octal_length [of "tl p"] tl by auto
  have pl: "parse_plain p = (p2, v) \<Longrightarrow> length p2 < length p" for p2 v
    using parse_plain_length [OF ne] by auto
  have pl1: "cur (tl p) \<noteq> 0 \<Longrightarrow> parse_plain (tl p) = (p2, v) \<Longrightarrow> length p2 < length p" for p2 v
    using parse_plain_length [of "tl p"] tl by (auto dest!: cur_nonzero)
  show ?thesis
    using assms(1) tl
    by (auto simp: parse_unit_def Let_def split: if_splits prod.splits dest: hex oct pl pl1)
qed

text \<open>
  The loop, with the output written so far; \<open>cap\<close> is the number of units the buffer
  holds. Only the second half of a surrogate pair can be dropped for lack of room.
\<close>

function parse_loop :: "u8 \<Rightarrow> nat \<Rightarrow> u8 list \<Rightarrow> wchar list \<Rightarrow> u8 list \<times> wchar list" where
  "parse_loop endchar cap p dest =
     (if cur p \<noteq> 0 \<and> cur p \<noteq> endchar \<and> length dest < cap
      then (case parse_unit p of
              None \<Rightarrow> (tl p, dest)
            | Some (p', out) \<Rightarrow>
                parse_loop endchar cap p' (dest @ take (cap - length dest) out))
      else (p, dest))"
  by pat_completeness auto
termination
  by (relation "measure (\<lambda>(endchar, cap, p, dest). length p)") (auto dest: parse_unit_length)

declare parse_loop.simps [simp del]

text \<open>
  \<^verbatim>\<open>parse_strW\<close> returns -1 (\<open>None\<close>) when the buffer is too small or the delimiter is
  missing; otherwise the number of bytes read and the zero-terminated buffer.
\<close>

definition parse_strW :: "nat \<Rightarrow> u8 list \<Rightarrow> u8 \<Rightarrow> (nat \<times> wchar list) option" where
  "parse_strW cap src endchar =
     (case parse_loop endchar cap src [] of
        (p, dest) \<Rightarrow>
          if cap \<le> length dest then None
          else if cur p = 0 then None
          else Some (length src - length p + 1, dest @ [0]))"

section \<open>Writing the escaped form\<close>

definition hexdigit :: "nat \<Rightarrow> u8" where
  "hexdigit d = (if d < 10 then of_nat (48 + d) else of_nat (87 + d))"

fun digits :: "nat \<Rightarrow> nat \<Rightarrow> u8 list" where
  "digits base n =
     (if n < base \<or> base < 2 then [hexdigit n] else digits base (n div base) @ [hexdigit (n mod base)])"

declare digits.simps [simp del]

definition pad :: "nat \<Rightarrow> u8 list \<Rightarrow> u8 list" where
  "pad w ds = replicate (w - length ds) 48 @ ds"

text \<open>The letters of the string \<^verbatim>\<open>escapes\<close>; a dot stands for no C escape.\<close>

definition c_escape :: "wchar \<Rightarrow> u8" where
  "c_escape c =
     (if c = 7 then 97 else if c = 8 then 98 else if c = 9 then 116 else if c = 10 then 110
      else if c = 11 then 118 else if c = 12 then 102 else if c = 13 then 114
      else if c = 27 then 101 else 46)"

definition dump_char :: "u8 \<times> u8 \<Rightarrow> wchar \<Rightarrow> wchar list \<Rightarrow> u8 list" where
  "dump_char esc c rest =
     (if 127 < c then
        (if rest \<noteq> [] \<and> hd rest < 128 \<and> isxdigit (ucast (hd rest))
         then [92, 120] @ pad 4 (digits 16 (unat c))
         else [92, 120] @ digits 16 (unat c))
      else if c < 32 then
        (if c_escape c \<noteq> 46 then [92, c_escape c]
         else if rest \<noteq> [] \<and> 48 \<le> hd rest \<and> hd rest \<le> 55
         then [92] @ pad 3 (digits 8 (unat c))
         else [92] @ digits 8 (unat c))
      else (if c = 92 \<or> c = ucast (fst esc) \<or> c = ucast (snd esc) then [92] else []) @ [ucast c])"

text \<open>The bytes written to the file; \<^verbatim>\<open>dump_strW\<close> returns their number.\<close>

fun dump_strW :: "u8 \<times> u8 \<Rightarrow> wchar list \<Rightarrow> u8 list" where
  "dump_strW esc [] = []"
| "dump_strW esc (c # cs) = dump_char esc c cs @ dump_strW esc cs"

section \<open>Comparison and hash agree\<close>

lemma memicmp_strW_eq_0_iff:
  assumes "length s1 = length s2"
  shows "memicmp_strW cm s1 s2 (length s1) = 0 \<longleftrightarrow> map (to_lower cm) s1 = map (to_lower cm) s2"
  using assms by (induction s1 s2 rule: list_induct2) (auto simp: Let_def dest: word_uint_eq_iff [THEN iffD2])

lemma hash_strW_lower:
  "hash_strW cm s n = foldl (\<lambda>hash c. hash * 65599 + ucast c) 0 (map (to_lower cm) s) mod n"
  by (simp add: hash_strW_def foldl_map)

lemma hash_strW_bounded: "0 < n \<Longrightarrow> hash_strW cm s n < n"
  unfolding hash_strW_def by (rule word_mod_less_divisor)

section \<open>The escaped form is read back\<close>

lemma parse_digits_run:
  "\<lbrakk>\<forall>b\<in>set ds. isd b; length ds = k \<or> length ds < k \<and> \<not> isd (cur q)\<rbrakk> \<Longrightarrow>
   parse_digits isd val base k v (ds @ q) = (q, foldl (\<lambda>v b. v * base + val b) v ds)"
proof (induction ds arbitrary: k v)
  case Nil
  then show ?case by (cases k) auto
next
  case (Cons b ds)
  then show ?case by (cases k) (auto simp: cur_def)
qed

lemma parse_hex_run:
  assumes "ds \<noteq> []" and "\<forall>b\<in>set ds. isxdigit b"
    and "length ds = 4 \<or> length ds < 4 \<and> \<not> isxdigit (cur q)"
  shows "parse_hex (ds @ q) = (q, foldl (\<lambda>v b. v * 16 + to_hex b) 0 ds)"
proof -
  obtain d ds' where ds: "ds = d # ds'" using assms(1) by (cases ds) auto
  then have "parse_digits isxdigit to_hex 16 3 (to_hex d) (ds' @ q)
      = (q, foldl (\<lambda>v b. v * 16 + to_hex b) (to_hex d) ds')"
    using assms by (intro parse_digits_run) auto
  then show ?thesis
    using assms(2) ds by (simp add: parse_hex_def cur_def)
qed

lemma parse_octal_run:
  assumes "ds \<noteq> []" and "\<forall>b\<in>set ds. isodigit b"
    and "length ds = 3 \<or> length ds < 3 \<and> \<not> isodigit (cur q)"
  shows "parse_octal (ds @ q) = (q, foldl (\<lambda>v b. v * 8 + ucast (b - 48)) 0 ds)"
proof -
  obtain d ds' where ds: "ds = d # ds'" using assms(1) by (cases ds) auto
  then have "parse_digits isodigit (\<lambda>b. ucast (b - 48)) 8 2 (ucast (d - 48)) (ds' @ q)
      = (q, foldl (\<lambda>v b. v * 8 + ucast (b - 48)) (ucast (d - 48)) ds')"
    using assms by (intro parse_digits_run) auto
  then show ?thesis
    using ds by (simp add: parse_octal_def cur_def)
qed

lemma hexdigit_hex: "d < 16 \<Longrightarrow> isxdigit (hexdigit d) \<and> to_hex (hexdigit d) = of_nat d"
proof -
  have "\<forall>d\<in>set [0..<16]. isxdigit (hexdigit d) \<and> to_hex (hexdigit d) = of_nat d"
    by code_simp
  then show "d < 16 \<Longrightarrow> ?thesis" by simp
qed

lemma hexdigit_oct: "d < 8 \<Longrightarrow> isodigit (hexdigit d) \<and> ucast (hexdigit d - 48) = (of_nat d :: wchar)"
proof -
  have "\<forall>d\<in>set [0..<8]. isodigit (hexdigit d) \<and> ucast (hexdigit d - 48) = (of_nat d :: wchar)"
    by code_simp
  then show "d < 8 \<Longrightarrow> ?thesis" by simp
qed

lemma digits_set:
  assumes "2 \<le> base" and "\<And>d. d < base \<Longrightarrow> P (hexdigit d)"
  shows "\<forall>b\<in>set (digits base n). P b"
  using assms
proof (induction base n rule: digits.induct)
  case (1 base n)
  show ?case
  proof (cases "n < base")
    case True
    then show ?thesis using 1 by (simp add: digits.simps [of base n])
  next
    case False
    with 1 show ?thesis by (simp add: digits.simps [of base n])
  qed
qed

lemma digits_nonempty: "digits base n \<noteq> []"
  by (simp add: digits.simps [of base n])

lemma digits_length: "2 \<le> base \<Longrightarrow> n < base ^ Suc k \<Longrightarrow> length (digits base n) \<le> Suc k"
proof (induction k arbitrary: n)
  case 0
  then show ?case by (simp add: digits.simps [of base n])
next
  case (Suc k)
  have "n div base < base ^ Suc k"
    using Suc.prems by (simp add: less_mult_imp_div_less mult.commute)
  with Suc show ?case by (simp add: digits.simps [of base n])
qed

lemma digits_value:
  assumes "2 \<le> base" and "\<forall>d<base. val (hexdigit d) = (of_nat d :: wchar)"
  shows "foldl (\<lambda>v b. v * of_nat base + val b) 0 (digits base n) = of_nat n"
  using assms
proof (induction base n rule: digits.induct)
  case (1 base n)
  show ?case
  proof (cases "n < base")
    case True
    then show ?thesis using 1 by (simp add: digits.simps [of base n])
  next
    case False
    then have "foldl (\<lambda>v b. v * of_nat base + val b) 0 (digits base n)
        = of_nat (n div base) * of_nat base + of_nat (n mod base)"
      using 1 by (simp add: digits.simps [of base n])
    also have "\<dots> = (of_nat (n div base * base + n mod base) :: wchar)"
      by (simp only: of_nat_add of_nat_mult)
    finally show ?thesis by (simp only: div_mult_mod_eq)
  qed
qed

lemma pad_props:
  "w \<ge> length ds \<Longrightarrow> length (pad w ds) = w"
  "\<forall>b\<in>set ds. P b \<Longrightarrow> P 48 \<Longrightarrow> \<forall>b\<in>set (pad w ds). P b"
  "ds \<noteq> [] \<Longrightarrow> pad w ds \<noteq> []"
  by (auto simp: pad_def)

lemma pad_value:
  assumes "val 48 = (0 :: wchar)"
  shows "foldl (\<lambda>v b. v * base + val b) 0 (pad w ds) = foldl (\<lambda>v b. v * base + val b) 0 ds"
proof -
  have "foldl (\<lambda>v b. v * base + val b) 0 (replicate n 48) = 0" for n
    using assms by (induction n) auto
  then show ?thesis by (simp add: pad_def)
qed

text \<open>
  The delimiters for which the escaped form is unambiguous: printable, and neither a
  digit nor a letter that has a meaning after a backslash. The server uses the quote
  and the square brackets.
\<close>

definition delimiter :: "u8 \<Rightarrow> bool" where
  "delimiter e \<longleftrightarrow> 32 \<le> e \<and> e < 128 \<and> e \<noteq> 92 \<and> \<not> isxdigit e \<and> e \<notin> {110, 114, 116, 118, 120}"

lemma isodigit_isxdigit: "isodigit b \<Longrightarrow> isxdigit b"
  by (auto simp: isodigit_def isxdigit_def intro: order_trans)

lemma delimiter_not_escape:
  "delimiter e \<Longrightarrow>
   e \<notin> {0, 92, 97, 98, 101, 102, 110, 114, 116, 118, 120} \<and> \<not> isodigit e \<and> e < 128"
  by (auto simp: delimiter_def isxdigit_def dest: isodigit_isxdigit)

lemma ucast_ascii: "(c :: wchar) < 128 \<Longrightarrow> ucast (ucast c :: u8) = c"
  by (simp add: word_unat_eq_iff word_less_nat_alt unsigned_ucast_eq unsigned_take_bit_eq
      take_bit_nat_eq_self)

lemma ucast_wide: "ucast (ucast (e :: u8) :: wchar) = e"
  using unsigned_less [of e, where 'a = nat] by (simp add: word_unat_eq_iff unsigned_ucast_eq unsigned_take_bit_eq take_bit_nat_eq_self)

lemma ucast_ascii_less: "(c :: wchar) < 128 \<Longrightarrow> (ucast c :: u8) < 128"
  by (simp add: word_less_nat_alt unsigned_ucast_eq take_bit_nat_eq_self)

lemma parse_plain_ascii: "b < 128 \<Longrightarrow> parse_plain (b # q) = (q, [ucast b])"
  by (simp add: parse_plain_def cur_def)

lemma parse_unit_hex:
  assumes "length (digits 16 (unat c)) = n" and "w = n \<or> w = 4"
  and "w = 4 \<or> \<not> isxdigit (cur q)"
  shows "parse_unit ([92, 120] @ pad w (digits 16 (unat c)) @ q) = Some (q, [c])"
proof -
  let ?ds = "pad w (digits 16 (unat c))"
  have "unat c < 16 ^ Suc 3" using unsigned_less [of c] by simp
  then have le: "n \<le> 4" using digits_length [of 16 "unat c" 3] assms(1) by simp
  have len: "length ?ds = w" using assms(1,2) le by (intro pad_props) auto
  have "\<forall>b\<in>set ?ds. isxdigit b"
    using hexdigit_hex by (intro pad_props digits_set) (auto simp: isxdigit_def)
  moreover have "foldl (\<lambda>v b. v * 16 + to_hex b) 0 ?ds = c"
    using digits_value [of 16 to_hex "unat c"] hexdigit_hex
    by (subst pad_value) (auto simp: to_hex_def)
  ultimately have "parse_hex (?ds @ q) = (q, c)"
    using len assms le by (subst parse_hex_run) (auto simp: pad_props(3) digits_nonempty)
  then show ?thesis by (simp add: parse_unit_def cur_def Let_def)
qed

lemma parse_unit_oct:
  assumes "c < 32" and "length (digits 8 (unat c)) = n" and "w = n \<or> w = 3"
  and "w = 3 \<or> \<not> isodigit (cur q)"
  shows "parse_unit ([92] @ pad w (digits 8 (unat c)) @ q) = Some (q, [c])"
proof -
  let ?ds = "pad w (digits 8 (unat c))"
  have "unat c < 8 ^ Suc 2" using assms(1) by (simp add: word_less_nat_alt)
  then have le: "n \<le> 3" using digits_length [of 8 "unat c" 2] assms(2) by simp
  have len: "length ?ds = w" using assms(2,3) le by (intro pad_props) auto
  have od: "\<forall>b\<in>set ?ds. isodigit b"
    using hexdigit_oct by (intro pad_props digits_set) (auto simp: isodigit_def)
  moreover have "foldl (\<lambda>v b. v * 8 + ucast (b - 48)) 0 ?ds = c"
    using digits_value [of 8 "\<lambda>b. ucast (b - 48)" "unat c"] hexdigit_oct
    by (subst pad_value) auto
  ultimately have oct: "parse_octal (?ds @ q) = (q, c)"
    using len assms le by (subst parse_octal_run) (auto simp: pad_props(3) digits_nonempty)
  obtain d ds where ds: "?ds = d # ds"
    using pad_props(3) [OF digits_nonempty] by (cases ?ds) auto
  with od have "isodigit d" by simp
  then have "d \<notin> {0, 97, 98, 101, 102, 110, 114, 116, 118, 120}" by (auto simp: isodigit_def)
  with oct \<open>isodigit d\<close> show ?thesis by (simp add: parse_unit_def cur_def Let_def ds)
qed

lemma isodigit_ucast: "(d :: wchar) < 128 \<Longrightarrow> isodigit (ucast d) \<longleftrightarrow> 48 \<le> d \<and> d \<le> 55"
  by (simp add: isodigit_def word_le_nat_alt word_less_nat_alt unsigned_ucast_eq
      take_bit_nat_eq_self)

lemma dump_char_head:
  "cur (dump_char esc c cs @ q) = 92 \<or>
   32 \<le> c \<and> c < 128 \<and> c \<noteq> ucast (snd esc) \<and> cur (dump_char esc c cs @ q) = ucast c"
  by (auto simp: dump_char_def cur_def word_le_nat_alt word_less_nat_alt)

definition follows :: "wchar list \<Rightarrow> u8 list \<Rightarrow> bool" where
  "follows cs q \<longleftrightarrow>
     (case cs of [] \<Rightarrow> \<not> isxdigit (cur q) | d # _ \<Rightarrow> cur q = 92 \<or> d < 128 \<and> cur q = ucast d)"

lemma follows_hex:
  "follows cs q \<Longrightarrow> \<not> (cs \<noteq> [] \<and> hd cs < 128 \<and> isxdigit (ucast (hd cs))) \<Longrightarrow> \<not> isxdigit (cur q)"
  by (auto simp: follows_def isxdigit_def split: list.splits)

lemma follows_oct:
  "follows cs q \<Longrightarrow> \<not> (cs \<noteq> [] \<and> 48 \<le> hd cs \<and> hd cs \<le> 55) \<Longrightarrow> \<not> isodigit (cur q)"
  by (auto simp: follows_def isodigit_ucast dest: isodigit_isxdigit split: list.splits)
    (auto simp: isodigit_def)

lemma parse_unit_c_escape:
  "c < 32 \<Longrightarrow> c_escape c \<noteq> 46 \<Longrightarrow> parse_unit ([92, c_escape c] @ q) = Some (q, [c])"
  by (auto simp: c_escape_def parse_unit_def cur_def Let_def split: if_splits)

lemma parse_unit_plain:
  assumes "delimiter e0" and "delimiter e1" and "32 \<le> c" and "c \<le> 127"
  shows "parse_unit ((if c = 92 \<or> c = ucast e0 \<or> c = ucast e1 then [92] else []) @ [ucast c] @ q)
    = Some (q, [c])"
proof -
  have c: "c < 128" using assms(4) by (simp add: word_le_nat_alt word_less_nat_alt)
  have pp: "parse_plain (ucast c # q) = (q, [c])"
    using c by (simp add: parse_plain_ascii ucast_ascii ucast_ascii_less)
  show ?thesis
  proof (cases "c = 92")
    case True
    then show ?thesis using pp by (simp add: parse_unit_def cur_def Let_def isodigit_def)
  next
    case False
    then have n92: "(ucast c :: u8) \<noteq> 92" using ucast_ascii [OF c] by auto
    show ?thesis
    proof (cases "c = ucast e0 \<or> c = ucast e1")
      case True
      then have "delimiter (ucast c :: u8)" using assms by (auto simp: ucast_wide)
      then show ?thesis using pp True delimiter_not_escape [of "ucast c"]
        by (simp add: parse_unit_def cur_def Let_def)
    next
      case False
      then show ?thesis using pp n92 \<open>c \<noteq> 92\<close> by (simp add: parse_unit_def cur_def)
    qed
  qed
qed

lemma dump_char_parse:
  assumes "delimiter e0" and "delimiter e1" and "follows cs q"
  shows "parse_unit (dump_char (e0, e1) c cs @ q) = Some (q, [c])"
proof -
  consider "127 < c" | "c < 32" | "32 \<le> c" "c \<le> 127" by force
  then show ?thesis
  proof cases
    case 1
    have padded: "parse_unit ([92, 120] @ pad 4 (digits 16 (unat c)) @ q) = Some (q, [c])"
      by (rule parse_unit_hex [OF refl]) auto
    have short: "parse_unit ([92, 120] @ digits 16 (unat c) @ q) = Some (q, [c])"
      if "\<not> isxdigit (cur q)"
      using parse_unit_hex [OF refl, of "length (digits 16 (unat c))" c q] that
      by (simp add: pad_def)
    show ?thesis using 1 padded short follows_hex [OF assms(3)]
      by (simp add: dump_char_def)
  next
    case 2
    have padded: "parse_unit ([92] @ pad 3 (digits 8 (unat c)) @ q) = Some (q, [c])"
      by (rule parse_unit_oct [OF 2 refl]) auto
    have short: "parse_unit ([92] @ digits 8 (unat c) @ q) = Some (q, [c])"
      if "\<not> isodigit (cur q)"
      using parse_unit_oct [OF 2 refl, of "length (digits 8 (unat c))" q] that
      by (simp add: pad_def)
    have "\<not> 127 < c" using 2 by (simp add: word_less_nat_alt)
    then show ?thesis using 2 padded short follows_oct [OF assms(3)] parse_unit_c_escape [OF 2]
      by (simp add: dump_char_def)
  next
    case 3
    then have "\<not> 127 < c" and "\<not> c < 32" by (simp_all add: not_less)
    then show ?thesis using parse_unit_plain [OF assms(1,2) 3, of q] by (simp add: dump_char_def)
  qed
qed

lemma dump_strW_follows:
  assumes "delimiter e1"
  shows "follows cs (dump_strW (e0, e1) cs @ e1 # r)"
proof (cases cs)
  case Nil
  then show ?thesis using assms by (simp add: follows_def cur_def delimiter_def)
next
  case (Cons d ds)
  then show ?thesis using dump_char_head [of "(e0, e1)" d ds "dump_strW (e0, e1) ds @ e1 # r"]
    by (auto simp: follows_def)
qed

lemma parse_loop_dump:
  assumes "delimiter e0" and "delimiter e1" and "length dest + length s < cap"
  shows "parse_loop e1 cap (dump_strW (e0, e1) s @ e1 # r) dest = (e1 # r, dest @ s)"
  using assms(3)
proof (induction s arbitrary: dest)
  case Nil
  then show ?case by (simp add: parse_loop.simps cur_def)
next
  case (Cons c cs)
  let ?q = "dump_strW (e0, e1) cs @ e1 # r"
  have pu: "parse_unit (dump_char (e0, e1) c cs @ ?q) = Some (?q, [c])"
    by (intro dump_char_parse dump_strW_follows assms)
  have "cur (dump_char (e0, e1) c cs @ ?q) \<notin> {0, e1}"
    using dump_char_head [of "(e0, e1)" c cs ?q] delimiter_not_escape [OF assms(2)] ucast_ascii [of c]
    by auto
  with pu Cons show ?case by (subst parse_loop.simps) auto
qed

section \<open>Properties\<close>

text \<open>
  (C31) The escaped text form is lossless: reading with \<^verbatim>\<open>parse_strW\<close> what
  \<^verbatim>\<open>dump_strW\<close> wrote, followed by the closing delimiter, returns exactly the written
  units, zero-terminated, and consumes the text and the delimiter, whenever the buffer
  has room for the string and its terminator.
\<close>

theorem parse_dump_strW:
  assumes "delimiter e0" and "delimiter e1" and "length s < cap"
  shows "parse_strW cap (dump_strW (e0, e1) s @ e1 # r) e1
    = Some (length (dump_strW (e0, e1) s) + 1, s @ [0])"
proof -
  have "e1 \<noteq> 0" using delimiter_not_escape [OF assms(2)] by auto
  then show ?thesis
    using parse_loop_dump [of e0 e1 "[]" s cap r] assms
    by (simp add: parse_strW_def cur_def)
qed

theorem parse_dump_strW_witness:
  "delimiter 91 \<and> delimiter 93 \<and>
   parse_strW 5 (dump_strW (91, 93) [0x20ac, 65, 10, 93] @ 93 # [0]) 93
    = Some (length (dump_strW (91, 93) [0x20ac, 65, 10, 93]) + 1, [0x20ac, 65, 10, 93] @ [0])"
  using parse_dump_strW [of 91 93 "[0x20ac, 65, 10, 93]" 5 "[0]"]
  by (simp add: delimiter_def isxdigit_def)

text \<open>
  Two names that the case-insensitive comparison takes for equal fall into the same
  hash bucket, and that bucket is within the table: the lookup by hash and comparison
  in the atom and name tables cannot miss a stored name.
\<close>

theorem memicmp_hash_agree:
  assumes "length s1 = length s2" and "memicmp_strW cm s1 s2 (length s1) = 0" and "0 < n"
  shows "hash_strW cm s1 n = hash_strW cm s2 n \<and> hash_strW cm s1 n < n"
proof -
  have "map (to_lower cm) s1 = map (to_lower cm) s2"
    using memicmp_strW_eq_0_iff [OF assms(1)] assms(2) by blast
  then show ?thesis
    using hash_strW_bounded [OF assms(3), of cm s1] by (simp add: hash_strW_lower)
qed

theorem memicmp_hash_agree_witness:
  "memicmp_strW (\<lambda>i. if i = 0 then 256 else if i = 260 then 512 else if i = 513 then 32 else 0) [65] [97] 1 = 0 \<and>
   hash_strW (\<lambda>i. if i = 0 then 256 else if i = 260 then 512 else if i = 513 then 32 else 0) [65] 37
     = hash_strW (\<lambda>i. if i = 0 then 256 else if i = 260 then 512 else if i = 513 then 32 else 0) [97] 37"
  using memicmp_hash_agree [of "[65]" "[97]" "\<lambda>i. if i = 0 then 256 else if i = 260 then 512 else if i = 513 then 32 else 0" 37]
  by (simp add: to_lower_def)

end
