(* ===== verification/Descriptor_Bytes.thy ===== *)
theory Descriptor_Bytes
  imports Prelude "HOL-Library.Monad_Syntax"
begin

text \<open>
  The validation of security data received from clients (\<^verbatim>\<open>acl_is_valid\<close>,
  \<^verbatim>\<open>get_sid_count\<close> and \<^verbatim>\<open>sd_is_valid\<close> of \<^verbatim>\<open>server/token.c\<close>). The functions work on the
  bytes of the request, with the length fields inside the data still untrusted; a
  read beyond the memory that the request occupies is the value \<open>None\<close>. Sizes of type
  \<^verbatim>\<open>data_size_t\<close> are 32-bit words, so that their subtraction wraps as in the code.
\<close>

definition rd8 :: "u8 list \<Rightarrow> nat \<Rightarrow> u8 option" where
  "rd8 m p = (if p < length m then Some (m ! p) else None)"

definition rd16 :: "u8 list \<Rightarrow> nat \<Rightarrow> u16 option" where
  "rd16 m p = do { lo \<leftarrow> rd8 m p; hi \<leftarrow> rd8 m (p + 1); Some (ucast lo OR push_bit 8 (ucast hi)) }"

definition rd32 :: "u8 list \<Rightarrow> nat \<Rightarrow> u32 option" where
  "rd32 m p = do { lo \<leftarrow> rd16 m p; hi \<leftarrow> rd16 m (p + 2); Some (ucast lo OR push_bit 16 (ucast hi)) }"

definition sid_valid_size :: "u8 list \<Rightarrow> nat \<Rightarrow> u32 \<Rightarrow> bool option" where
  "sid_valid_size m p room =
     (if room < 8 then Some False
      else do { sub_count \<leftarrow> rd8 m (p + 1); Some (8 + 4 * unat sub_count \<le> unat room) })"

fun acl_walk :: "u8 list \<Rightarrow> nat \<Rightarrow> nat \<Rightarrow> u32 \<Rightarrow> bool option" where
  "acl_walk m 0 p room = Some True"
| "acl_walk m (Suc n) p room =
     (if room < 8 then Some False
      else do {
        asize \<leftarrow> rd16 m (p + 2);
        if room < ucast asize then Some False
        else do {
          atype \<leftarrow> rd8 m p;
          if atype \<notin> {0, 1, 2, 3, 0x11} then Some False
          else do {
            ok \<leftarrow> sid_valid_size m (p + 8) (ucast asize - 8);
            if \<not> ok then Some False
            else acl_walk m n (p + unat asize) (room - ucast asize) } } })"

definition acl_is_valid :: "u8 list \<Rightarrow> nat \<Rightarrow> u32 \<Rightarrow> bool option" where
  "acl_is_valid m p room =
     (if room < 8 then Some False
      else do {
        count \<leftarrow> rd16 m (p + 4);
        acl_walk m (unat count) (p + 8) (min room 65535 - 8) })"

function get_sid_count :: "u8 list \<Rightarrow> nat \<Rightarrow> nat \<Rightarrow> nat option" where
  "get_sid_count m p room =
     (if room < 8 then Some 0
      else case rd8 m (p + 1) of
        None \<Rightarrow> None
      | Some sub_count \<Rightarrow>
          (let len = 8 + 4 * unat sub_count
           in if room < len then Some 0
              else map_option Suc (get_sid_count m (p + len) (room - len))))"
  by pat_completeness auto
termination
  by (relation "measure (\<lambda>(m, p, room). room)") auto

declare get_sid_count.simps [simp del]

text \<open>One part of a descriptor: an identifier, or an access control list.\<close>

definition sid_part :: "u8 list \<Rightarrow> nat \<Rightarrow> nat \<Rightarrow> u32 \<Rightarrow> bool option" where
  "sid_part m room offset len =
     (if 8 + 4 * 255 \<le> unat len \<or> room < offset + unat len then Some False
      else if len = 0 then Some True
      else sid_valid_size m offset len)"

definition acl_part :: "u8 list \<Rightarrow> nat \<Rightarrow> nat \<Rightarrow> u32 \<Rightarrow> bool option" where
  "acl_part m room offset len =
     (if 65535 \<le> unat len \<or> room < offset + unat len then Some False
      else if len = 0 then Some True
      else acl_is_valid m offset len)"

definition sd_is_valid :: "u8 list \<Rightarrow> nat \<Rightarrow> bool option" where
  "sd_is_valid m room =
     (if room < 20 then Some False
      else do {
        owner_len \<leftarrow> rd32 m 4;
        group_len \<leftarrow> rd32 m 8;
        sacl_len \<leftarrow> rd32 m 12;
        dacl_len \<leftarrow> rd32 m 16;
        let o1 = 20 + unat owner_len;
        let o2 = o1 + unat group_len;
        let o3 = o2 + unat sacl_len;
        ok \<leftarrow> sid_part m room 20 owner_len;
        if \<not> ok then Some False
        else do {
          ok \<leftarrow> sid_part m room o1 group_len;
          if \<not> ok then Some False
          else do {
            ok \<leftarrow> acl_part m room o2 sacl_len;
            if \<not> ok then Some False
            else acl_part m room o3 dacl_len } } })"

section \<open>What the walk establishes\<close>

definition ace_len :: "u8 list \<Rightarrow> nat \<Rightarrow> nat" where
  "ace_len m p = (case rd16 m (p + 2) of Some s \<Rightarrow> unat s | None \<Rightarrow> 0)"

definition sid_end :: "u8 list \<Rightarrow> nat \<Rightarrow> nat" where
  "sid_end m p = (case rd8 m (p + 1) of Some c \<Rightarrow> p + 8 + 4 * unat c | None \<Rightarrow> p)"

text \<open>The offsets that the code visits with \<^verbatim>\<open>ace_first\<close> and \<^verbatim>\<open>ace_next\<close>.\<close>

fun ace_offsets :: "u8 list \<Rightarrow> nat \<Rightarrow> nat \<Rightarrow> nat list" where
  "ace_offsets m 0 p = []"
| "ace_offsets m (Suc n) p = p # ace_offsets m n (p + ace_len m p)"

lemma unat_ucast_16 [simp]: "unat (ucast (x :: u16) :: u32) = unat x"
  using unsigned_less [of x, where 'a = nat] by (simp add: unsigned_ucast_eq take_bit_nat_eq_self)

lemma sid_valid_sizeD:
  "sid_valid_size m p room = Some True \<Longrightarrow> sid_end m p \<le> p + unat room \<and> 8 \<le> unat room"
  by (auto simp: sid_valid_size_def sid_end_def word_less_nat_alt split: if_splits bind_splits)

lemma acl_walk_step:
  assumes "acl_walk m (Suc n) p room = Some True"
  obtains s where "rd16 m (p + 2) = Some s" "8 \<le> unat room" "unat s \<le> unat room"
    "sid_valid_size m (p + 8) (ucast s - 8) = Some True"
    "acl_walk m n (p + unat s) (room - ucast s) = Some True"
proof -
  obtain s where s: "rd16 m (p + 2) = Some s" "\<not> room < 8" "\<not> room < ucast s"
    "sid_valid_size m (p + 8) (ucast s - 8) = Some True"
    "acl_walk m n (p + unat s) (room - ucast s) = Some True"
    using assms by (auto split: if_splits bind_splits simp del: insert_iff)
  then show thesis using that by (simp add: word_less_nat_alt)
qed

lemma acl_walk_bounds:
  "acl_walk m n p room = Some True \<Longrightarrow> q \<in> set (ace_offsets m n p) \<Longrightarrow>
   p \<le> q \<and> q + 8 \<le> p + unat room \<and> q + ace_len m q \<le> p + unat room \<and>
   (8 \<le> ace_len m q \<longrightarrow> sid_end m (q + 8) \<le> q + ace_len m q)"
proof (induction n arbitrary: p room)
  case (Suc n)
  obtain s where s: "rd16 m (p + 2) = Some s" "8 \<le> unat room" "unat s \<le> unat room"
    "sid_valid_size m (p + 8) (ucast s - 8) = Some True"
    "acl_walk m n (p + unat s) (room - ucast s) = Some True"
    using acl_walk_step [OF Suc.prems(1)] .
  have len: "ace_len m p = unat s" using s(1) by (simp add: ace_len_def)
  have "ucast s \<le> room" using s(3) by (simp add: word_le_nat_alt)
  then have rest: "unat (room - ucast s) = unat room - unat s" by (simp add: unat_sub)
  have inner: "sid_end m (p + 8) \<le> p + unat s" if "8 \<le> unat s"
  proof -
    have "8 \<le> (ucast s :: u32)" using that by (simp add: word_le_nat_alt)
    then have "unat (ucast s - 8 :: u32) = unat s - 8" by (simp add: unat_sub)
    with sid_valid_sizeD [OF s(4)] that show ?thesis by simp
  qed
  show ?case
    using Suc.prems(2) Suc.IH [OF s(5)] s(2,3) inner by (auto simp: len rest)
qed simp

lemma acl_is_valid_bounds_aux:
  assumes "acl_is_valid m p room = Some True" and "rd16 m (p + 4) = Some count"
    and "q \<in> set (ace_offsets m (unat count) (p + 8))"
  shows "p + 8 \<le> q \<and> q + 8 \<le> p + unat room \<and> q + ace_len m q \<le> p + unat room \<and>
    (8 \<le> ace_len m q \<longrightarrow> sid_end m (q + 8) \<le> q + ace_len m q)"
proof -
  have big: "8 \<le> room" and walk: "acl_walk m (unat count) (p + 8) (min room 65535 - 8) = Some True"
    using assms(1,2) by (auto simp: acl_is_valid_def split: if_splits)
  have "8 \<le> min room 65535" using big by (simp add: word_le_nat_alt min_def)
  then have "unat (min room 65535 - 8) = unat (min room 65535) - 8" by (simp add: unat_sub)
  moreover have "unat (min room 65535) \<le> unat room" by (simp add: min_def word_le_nat_alt)
  moreover have "8 \<le> unat room" using big by (simp add: word_le_nat_alt)
  moreover have "8 \<le> unat (min room 65535)" using \<open>8 \<le> min room 65535\<close> by (simp add: word_le_nat_alt)
  ultimately have "p + 8 + unat (min room 65535 - 8) \<le> p + unat room" by linarith
  with acl_walk_bounds [OF walk assms(3)] show ?thesis by linarith
qed

lemma sid_partD:
  "sid_part m room p len = Some True \<Longrightarrow> p + unat len \<le> room \<and> (len \<noteq> 0 \<longrightarrow> sid_end m p \<le> p + unat len)"
  by (auto simp: sid_part_def dest: sid_valid_sizeD split: if_splits)

lemma acl_partD:
  "acl_part m room p len = Some True \<Longrightarrow>
   p + unat len \<le> room \<and> (len \<noteq> 0 \<longrightarrow> acl_is_valid m p len = Some True)"
  by (auto simp: acl_part_def split: if_splits)

section \<open>Properties\<close>

text \<open>
  (C17) In a list that \<^verbatim>\<open>acl_is_valid\<close> accepts, the header of every entry that the
  server visits lies inside the list, no entry reaches beyond its end, and the
  identifier of every entry whose size covers its own header lies inside that entry.
\<close>

theorem acl_is_valid_bounds:
  assumes "acl_is_valid m p room = Some True" and "rd16 m (p + 4) = Some count"
    and "q \<in> set (ace_offsets m (unat count) (p + 8))"
  shows "p + 8 \<le> q \<and> q + 8 \<le> p + unat room \<and> q + ace_len m q \<le> p + unat room \<and>
    (8 \<le> ace_len m q \<longrightarrow> sid_end m (q + 8) \<le> q + ace_len m q)"
  using assms by (rule acl_is_valid_bounds_aux)

definition sample_acl_bytes :: "u8 list" where
  "sample_acl_bytes = [2, 0, 28, 0, 1, 0, 0, 0,  0, 0, 20, 0, 1, 0, 0, 0,  1, 1, 0, 0, 0, 0, 0, 5,  18, 0, 0, 0]"

theorem acl_is_valid_bounds_witness:
  "acl_is_valid sample_acl_bytes 0 28 = Some True \<and> sid_end sample_acl_bytes 16 \<le> 28"
proof -
  have v: "acl_is_valid sample_acl_bytes 0 28 = Some True" by code_simp
  have c: "rd16 sample_acl_bytes (0 + 4) = Some 1" by code_simp
  have q: "8 \<in> set (ace_offsets sample_acl_bytes (unat (1 :: u16)) (0 + 8))" by simp
  have l: "ace_len sample_acl_bytes 8 = 20" by code_simp
  show ?thesis using acl_is_valid_bounds [OF v c q] v l by simp
qed

text \<open>
  (C18) In a descriptor that \<^verbatim>\<open>sd_is_valid\<close> accepts, the four parts lie one after the
  other inside the received data, the identifiers of owner and group lie inside their
  parts, and both access control lists satisfy \<^verbatim>\<open>acl_is_valid\<close> for the lengths stored in
  the descriptor.
\<close>

theorem sd_is_valid_bounds:
  assumes "sd_is_valid m room = Some True"
    and "rd32 m 4 = Some ol" and "rd32 m 8 = Some gl" and "rd32 m 12 = Some sl" and "rd32 m 16 = Some dl"
  shows "20 + unat ol + unat gl + unat sl + unat dl \<le> room \<and>
    (ol \<noteq> 0 \<longrightarrow> sid_end m 20 \<le> 20 + unat ol) \<and>
    (gl \<noteq> 0 \<longrightarrow> sid_end m (20 + unat ol) \<le> 20 + unat ol + unat gl) \<and>
    (sl \<noteq> 0 \<longrightarrow> acl_is_valid m (20 + unat ol + unat gl) sl = Some True) \<and>
    (dl \<noteq> 0 \<longrightarrow> acl_is_valid m (20 + unat ol + unat gl + unat sl) dl = Some True)"
proof -
  have parts: "sid_part m room 20 ol = Some True" "sid_part m room (20 + unat ol) gl = Some True"
    "acl_part m room (20 + unat ol + unat gl) sl = Some True"
    "acl_part m room (20 + unat ol + unat gl + unat sl) dl = Some True"
    using assms by (auto simp: sd_is_valid_def Let_def split: if_splits bind_splits)
  show ?thesis using sid_partD [OF parts(1)] sid_partD [OF parts(2)] acl_partD [OF parts(3)] acl_partD [OF parts(4)]
    by auto
qed

definition sample_sd_bytes :: "u8 list" where
  "sample_sd_bytes = [4, 0, 0, 0, 8, 0, 0, 0, 8, 0, 0, 0, 0, 0, 0, 0, 8, 0, 0, 0,
     1, 0, 0, 0, 0, 0, 0, 5, 1, 0, 0, 0, 0, 0, 0, 1, 2, 0, 8, 0, 0, 0, 0, 0]"

theorem sd_is_valid_bounds_witness:
  "sd_is_valid sample_sd_bytes 44 = Some True \<and> acl_is_valid sample_sd_bytes 36 8 = Some True"
proof -
  have r: "rd32 sample_sd_bytes 4 = Some 8" "rd32 sample_sd_bytes 8 = Some 8"
    "rd32 sample_sd_bytes 12 = Some 0" "rd32 sample_sd_bytes 16 = Some 8"
    by (simp_all add: rd32_def rd16_def rd8_def sample_sd_bytes_def)
  have b: "rd8 sample_sd_bytes 21 = Some 0" "rd8 sample_sd_bytes 29 = Some 0" "rd16 sample_sd_bytes 40 = Some 0"
    by (simp_all add: rd16_def rd8_def sample_sd_bytes_def)
  have v: "sd_is_valid sample_sd_bytes 44 = Some True"
    by (simp add: sd_is_valid_def r b sid_part_def acl_part_def sid_valid_size_def acl_is_valid_def Let_def)
  show ?thesis using sd_is_valid_bounds [OF v r] v by simp
qed




end
