(* ===== verification/Security.thy ===== *)
theory Security
  imports Prelude
begin

text \<open>
  Tokens, privileges, access control lists and the access check of
  \<^verbatim>\<open>server/token.c\<close>, with the helpers of \<^verbatim>\<open>server/security.h\<close> and the code of
  \<^verbatim>\<open>server/object.c\<close> that builds the security descriptor of an object.

  Security identifiers, access control entries and lists are records. A pointer that
  may be null, or a part whose length may be zero, is an option. The owner and the
  primary group of a token point into its list of groups and are modelled by the
  position of the group. The success of an allocation is an argument.
\<close>

section \<open>Data\<close>

record sid =
  sid_revision :: u8
  id_auth :: "u8 list"
  sub_auth :: "u32 list"

record ace =
  ace_type :: u8
  ace_flags :: u8
  ace_size :: u16
  ace_mask :: u32
  ace_sid :: sid

record acl =
  acl_revision :: u8
  acl_size :: u16
  acl_aces :: "ace list"

record security_descriptor =
  sd_control :: u32
  sd_owner :: "sid option"
  sd_group :: "sid option"
  sd_sacl :: "acl option"
  sd_dacl :: "acl option"

record luid =
  low_part :: u32
  high_part :: u32

record luid_attr =
  la_luid :: luid
  la_attrs :: u32

record privilege =
  pr_luid :: luid
  pr_enabled :: bool
  pr_def :: bool

record group =
  gr_attrs :: u32
  gr_sid :: sid

record sid_attrs =
  sa_sid :: sid
  sa_attrs :: u32

record token =
  token_id :: luid
  modified_id :: luid
  tk_privileges :: "privilege list"
  tk_groups :: "group list"
  tk_user :: sid
  tk_owner :: "nat option"
  tk_primary_group :: "nat option"
  tk_primary :: bool
  tk_session_id :: u32
  tk_default_dacl :: "acl option"
  tk_impersonation_level :: int
  tk_elevation :: int
  tk_sd :: "security_descriptor option"

record generic_map =
  gm_read :: u32
  gm_write :: u32
  gm_exec :: u32
  gm_all :: u32

section \<open>Constants\<close>

abbreviation "GENERIC_READ \<equiv> 0x80000000 :: u32"
abbreviation "GENERIC_WRITE \<equiv> 0x40000000 :: u32"
abbreviation "GENERIC_EXECUTE \<equiv> 0x20000000 :: u32"
abbreviation "GENERIC_ALL \<equiv> 0x10000000 :: u32"
abbreviation "GENERIC_MASK \<equiv> 0xf0000000 :: u32"
abbreviation "MAXIMUM_ALLOWED \<equiv> 0x02000000 :: u32"
abbreviation "ACCESS_SYSTEM_SECURITY \<equiv> 0x01000000 :: u32"
abbreviation "OWNER_RIGHTS \<equiv> 0x001f0000 :: u32"
abbreviation "SE_GROUP_ENABLED_BY_DEFAULT \<equiv> 2 :: u32"
abbreviation "SE_GROUP_ENABLED \<equiv> 4 :: u32"
abbreviation "SE_GROUP_USE_FOR_DENY_ONLY \<equiv> 0x10 :: u32"
abbreviation "SE_PRIVILEGE_ENABLED_BY_DEFAULT \<equiv> 1 :: u32"
abbreviation "SE_PRIVILEGE_ENABLED \<equiv> 2 :: u32"
abbreviation "SE_PRIVILEGE_REMOVED \<equiv> 4 :: u32"
abbreviation "SE_PRIVILEGE_USED_FOR_ACCESS \<equiv> 0x80000000 :: u32"
abbreviation "SE_DACL_PRESENT \<equiv> 0x0004 :: u32"
abbreviation "SE_SACL_PRESENT \<equiv> 0x0010 :: u32"
abbreviation "SE_SELF_RELATIVE \<equiv> 0x8000 :: u32"
abbreviation "ACCESS_ALLOWED_ACE_TYPE \<equiv> 0 :: u8"
abbreviation "ACCESS_DENIED_ACE_TYPE \<equiv> 1 :: u8"
abbreviation "SYSTEM_MANDATORY_LABEL_ACE_TYPE \<equiv> 0x11 :: u8"
abbreviation "INHERIT_ONLY_ACE \<equiv> 8 :: u8"
abbreviation "OWNER_SECURITY_INFORMATION \<equiv> 1 :: u32"
abbreviation "GROUP_SECURITY_INFORMATION \<equiv> 2 :: u32"
abbreviation "DACL_SECURITY_INFORMATION \<equiv> 4 :: u32"
abbreviation "SACL_SECURITY_INFORMATION \<equiv> 8 :: u32"
abbreviation "LABEL_SECURITY_INFORMATION \<equiv> 0x10 :: u32"
abbreviation "ACL_REVISION \<equiv> 2 :: u8"
abbreviation "MAX_ACL_LEN \<equiv> 65535 :: nat"
abbreviation "SecurityAnonymous \<equiv> 0 :: int"
abbreviation "SecurityDelegation \<equiv> 3 :: int"

definition SeSecurityPrivilege :: luid where
  "SeSecurityPrivilege = \<lparr>low_part = 8, high_part = 0\<rparr>"

definition local_system_sid :: sid where
  "local_system_sid = \<lparr>sid_revision = 1, id_auth = [0, 0, 0, 0, 0, 5], sub_auth = [0x12]\<rparr>"

section \<open>Identifiers and lists\<close>

definition sid_len :: "sid \<Rightarrow> nat" where
  "sid_len s = 8 + 4 * length (sub_auth s)"

definition equal_sid :: "sid \<Rightarrow> sid \<Rightarrow> bool" where
  "equal_sid s1 s2 \<longleftrightarrow>
     length (sub_auth s1) = length (sub_auth s2) \<and>
     sid_revision s1 = sid_revision s2 \<and> id_auth s1 = id_auth s2 \<and> sub_auth s1 = sub_auth s2"

definition set_ace :: "sid \<Rightarrow> u8 \<Rightarrow> u8 \<Rightarrow> u32 \<Rightarrow> ace" where
  "set_ace s ty flags m =
     \<lparr>ace_type = ty, ace_flags = flags, ace_size = of_nat (8 + sid_len s), ace_mask = m, ace_sid = s\<rparr>"

definition sd_get_dacl :: "security_descriptor \<Rightarrow> acl option \<times> bool" where
  "sd_get_dacl sd = (sd_dacl sd, sd_control sd AND SE_DACL_PRESENT \<noteq> 0)"

definition sd_get_sacl :: "security_descriptor \<Rightarrow> acl option \<times> bool" where
  "sd_get_sacl sd = (sd_sacl sd, sd_control sd AND SE_SACL_PRESENT \<noteq> 0)"

definition sd_get_owner :: "security_descriptor \<Rightarrow> sid option" where
  "sd_get_owner sd = sd_owner sd"

definition sd_get_group :: "security_descriptor \<Rightarrow> sid option" where
  "sd_get_group sd = sd_group sd"

definition aces_size :: "ace list \<Rightarrow> nat" where
  "aces_size aces = sum_list (map (\<lambda>a. unat (ace_size a)) aces)"

definition is_label :: "ace \<Rightarrow> bool" where
  "is_label a \<longleftrightarrow> ace_type a = SYSTEM_MANDATORY_LABEL_ACE_TYPE"

definition extract_security_labels :: "bool \<Rightarrow> acl \<Rightarrow> acl option" where
  "extract_security_labels mem_ok sacl =
     (let labels = filter is_label (acl_aces sacl); size = 8 + aces_size labels
      in if \<not> mem_ok then None
         else Some \<lparr>acl_revision = acl_revision sacl, acl_size = of_nat size, acl_aces = labels\<rparr>)"

definition replace_security_labels :: "bool \<Rightarrow> acl option \<Rightarrow> acl option \<Rightarrow> acl result" where
  "replace_security_labels mem_ok old_sacl new_sacl =
     (let rev0 = ACL_REVISION;
          rev1 = (case old_sacl of None \<Rightarrow> rev0 | Some a \<Rightarrow> max rev0 (acl_revision a));
          rev2 = (case new_sacl of None \<Rightarrow> rev1 | Some a \<Rightarrow> max rev1 (acl_revision a));
          kept = (case old_sacl of None \<Rightarrow> [] | Some a \<Rightarrow> filter (\<lambda>x. \<not> is_label x) (acl_aces a));
          added = (case new_sacl of None \<Rightarrow> [] | Some a \<Rightarrow> filter is_label (acl_aces a));
          size = 8 + aces_size kept + aces_size added
      in if size > MAX_ACL_LEN then Inl STATUS_INVALID_ACL
         else if \<not> mem_ok then Inl STATUS_NO_MEMORY
         else Inr \<lparr>acl_revision = rev2, acl_size = of_nat size, acl_aces = kept @ added\<rparr>)"

section \<open>Privileges and tokens\<close>

definition is_equal_luid :: "luid \<Rightarrow> luid \<Rightarrow> bool" where
  "is_equal_luid l1 l2 \<longleftrightarrow> low_part l1 = low_part l2 \<and> high_part l1 = high_part l2"

text \<open>The counter \<^verbatim>\<open>prev_luid_value\<close>; the new value is also the luid handed out.\<close>

definition allocate_luid :: "luid \<Rightarrow> luid" where
  "allocate_luid prev = prev\<lparr>low_part := low_part prev + 1\<rparr>"

definition luid_and_attr_from_privilege :: "privilege \<Rightarrow> luid_attr" where
  "luid_and_attr_from_privilege p =
     \<lparr>la_luid = pr_luid p,
      la_attrs = (if pr_enabled p then SE_PRIVILEGE_ENABLED else 0) OR
                 (if pr_def p then SE_PRIVILEGE_ENABLED_BY_DEFAULT else 0)\<rparr>"

definition privilege_add :: "privilege list \<Rightarrow> luid \<Rightarrow> bool \<Rightarrow> privilege list" where
  "privilege_add ps l en = ps @ [\<lparr>pr_luid = l, pr_enabled = en, pr_def = en\<rparr>]"

definition create_token :: "bool \<Rightarrow> bool \<Rightarrow> luid \<Rightarrow> bool \<Rightarrow> u32 \<Rightarrow> sid \<Rightarrow> sid_attrs list \<Rightarrow> luid_attr list
    \<Rightarrow> acl option \<Rightarrow> luid option \<Rightarrow> nat \<Rightarrow> int \<Rightarrow> int \<Rightarrow> token option \<times> luid" where
  "create_token obj_ok mem_ok prev primary session_id user groups privs default_dacl mod_id
     primary_group level elevation =
     (if \<not> obj_ok then (None, prev)
      else
        (let id1 = allocate_luid prev;
             id2 = (case mod_id of Some m \<Rightarrow> m | None \<Rightarrow> allocate_luid id1);
             prev' = (case mod_id of Some m \<Rightarrow> id1 | None \<Rightarrow> allocate_luid id1);
             pg = (if primary_group < length groups then Some primary_group else None)
         in if \<not> mem_ok then (None, prev')
            else (Some \<lparr>token_id = id1, modified_id = id2,
                        tk_privileges = foldl (\<lambda>ps p. privilege_add ps (la_luid p)
                            (la_attrs p AND SE_PRIVILEGE_ENABLED \<noteq> 0)) [] privs,
                        tk_groups = map (\<lambda>g. \<lparr>gr_attrs = sa_attrs g, gr_sid = sa_sid g\<rparr>) groups,
                        tk_user = user, tk_owner = pg, tk_primary_group = pg,
                        tk_primary = primary, tk_session_id = session_id,
                        tk_default_dacl = default_dacl,
                        tk_impersonation_level = (if primary then - 1 else level),
                        tk_elevation = elevation, tk_sd = None\<rparr>, prev')))"

definition token_get_owner :: "token \<Rightarrow> sid option" where
  "token_get_owner t = map_option (\<lambda>i. gr_sid (tk_groups t ! i)) (tk_owner t)"

definition token_get_primary_group :: "token \<Rightarrow> sid option" where
  "token_get_primary_group t = map_option (\<lambda>i. gr_sid (tk_groups t ! i)) (tk_primary_group t)"

definition token_get_default_dacl :: "token \<Rightarrow> acl option" where
  "token_get_default_dacl t = tk_default_dacl t"

definition create_default_dacl :: "bool \<Rightarrow> sid \<Rightarrow> acl option" where
  "create_default_dacl mem_ok user =
     (let size = 8 + 2 * 8 + sid_len local_system_sid + sid_len user
      in if \<not> mem_ok then None
         else Some \<lparr>acl_revision = ACL_REVISION, acl_size = of_nat size,
                    acl_aces = [set_ace local_system_sid ACCESS_ALLOWED_ACE_TYPE 0 GENERIC_ALL,
                                set_ace user ACCESS_ALLOWED_ACE_TYPE 0 GENERIC_ALL]\<rparr>)"

definition create_security_label_sd :: "bool \<Rightarrow> sid \<Rightarrow> security_descriptor option" where
  "create_security_label_sd mem_ok label_sid =
     (if \<not> mem_ok then None
      else Some \<lparr>sd_control = SE_SACL_PRESENT, sd_owner = None, sd_group = None,
                 sd_sacl = Some \<lparr>acl_revision = ACL_REVISION,
                                 acl_size = of_nat (8 + 8 + sid_len label_sid),
                                 acl_aces = [set_ace label_sid SYSTEM_MANDATORY_LABEL_ACE_TYPE 0 1]\<rparr>,
                 sd_dacl = None\<rparr>)"

section \<open>The descriptor of an object\<close>

text \<open>
  \<^verbatim>\<open>set_sd_from_token_internal\<close> combines the given descriptor, the old one of the
  object and the defaults of the token. The default list of the token is read
  through its pointer without a check: a token without one is a fault.
\<close>

definition new_owner :: "(security_descriptor \<Rightarrow> sid option) \<Rightarrow> (token \<Rightarrow> sid option) \<Rightarrow> bool
    \<Rightarrow> security_descriptor \<Rightarrow> security_descriptor option \<Rightarrow> token option \<Rightarrow> sid option outcome" where
  "new_owner get tok_get wanted sd old_sd tok =
     (if wanted \<and> get sd \<noteq> None then Ok (get sd)
      else case old_sd of
        Some old \<Rightarrow> if get old \<noteq> None then Ok (get old)
                    else (case tok of None \<Rightarrow> Ok None
                          | Some t \<Rightarrow> if tok_get t = None then Fault else Ok (tok_get t))
      | None \<Rightarrow> (case tok of None \<Rightarrow> Ok None
                 | Some t \<Rightarrow> if tok_get t = None then Fault else Ok (tok_get t)))"

definition new_sacl :: "bool \<Rightarrow> u32 \<Rightarrow> security_descriptor \<Rightarrow> security_descriptor option
    \<Rightarrow> (u32 \<times> acl option) outcome" where
  "new_sacl mem_ok set_info sd old_sd =
     (case sd_get_sacl sd of (sacl, present) \<Rightarrow>
       if set_info AND SACL_SECURITY_INFORMATION \<noteq> 0 \<and> present then Ok (SE_SACL_PRESENT, sacl)
       else if set_info AND LABEL_SECURITY_INFORMATION \<noteq> 0 \<and> present then
         (let old_sacl = (case old_sd of None \<Rightarrow> None
                          | Some old \<Rightarrow> if snd (sd_get_sacl old) then fst (sd_get_sacl old) else None)
          in case replace_security_labels mem_ok old_sacl sacl of
               Inl e \<Rightarrow> Err e
             | Inr a \<Rightarrow> Ok (SE_SACL_PRESENT, Some a))
       else case old_sd of
              Some old \<Rightarrow> if snd (sd_get_sacl old) then Ok (SE_SACL_PRESENT, fst (sd_get_sacl old))
                          else Ok (0, None)
            | None \<Rightarrow> Ok (0, None))"

definition token_dacl :: "token option \<Rightarrow> (u32 \<times> acl option) outcome" where
  "token_dacl tok =
     (case tok of None \<Rightarrow> Ok (0, None)
      | Some t \<Rightarrow> (case token_get_default_dacl t of None \<Rightarrow> Fault
                   | Some d \<Rightarrow> Ok (SE_DACL_PRESENT, Some d)))"

definition new_dacl :: "u32 \<Rightarrow> security_descriptor \<Rightarrow> security_descriptor option \<Rightarrow> token option
    \<Rightarrow> (u32 \<times> acl option) outcome" where
  "new_dacl set_info sd old_sd tok =
     (case sd_get_dacl sd of (dacl, present) \<Rightarrow>
       if set_info AND DACL_SECURITY_INFORMATION \<noteq> 0 \<and> present then Ok (SE_DACL_PRESENT, dacl)
       else case old_sd of
              Some old \<Rightarrow> if snd (sd_get_dacl old) then Ok (SE_DACL_PRESENT, fst (sd_get_dacl old))
                          else token_dacl tok
            | None \<Rightarrow> token_dacl tok)"

definition set_sd_from_token_internal :: "bool \<Rightarrow> security_descriptor \<Rightarrow> security_descriptor option
    \<Rightarrow> u32 \<Rightarrow> token option \<Rightarrow> security_descriptor outcome" where
  "set_sd_from_token_internal mem_ok sd old_sd set_info tok =
     (case new_owner sd_get_owner token_get_owner (set_info AND OWNER_SECURITY_INFORMATION \<noteq> 0)
             sd old_sd tok of
        Fault \<Rightarrow> Fault | Err e \<Rightarrow> Err e
      | Ok ow \<Rightarrow>
     (case new_owner sd_get_group token_get_primary_group
             (set_info AND GROUP_SECURITY_INFORMATION \<noteq> 0) sd old_sd tok of
        Fault \<Rightarrow> Fault | Err e \<Rightarrow> Err e
      | Ok gr \<Rightarrow>
     (case new_sacl mem_ok set_info sd old_sd of
        Fault \<Rightarrow> Fault | Err e \<Rightarrow> Err e
      | Ok (cs, sacl) \<Rightarrow>
     (case new_dacl set_info sd old_sd tok of
        Fault \<Rightarrow> Fault | Err e \<Rightarrow> Err e
      | Ok (cd, dacl) \<Rightarrow>
        if \<not> mem_ok then Err STATUS_NO_MEMORY
        else Ok \<lparr>sd_control = (sd_control sd AND NOT SE_SELF_RELATIVE) OR cs OR cd,
                 sd_owner = ow, sd_group = gr, sd_sacl = sacl, sd_dacl = dacl\<rparr>))))"

text \<open>
  \<^verbatim>\<open>set_sd_defaults_from_token\<close> works on the descriptor field of an object; an error
  leaves the field as it was.
\<close>

definition set_sd_defaults_from_token :: "bool \<Rightarrow> security_descriptor option \<Rightarrow> security_descriptor
    \<Rightarrow> u32 \<Rightarrow> token option \<Rightarrow> security_descriptor option outcome" where
  "set_sd_defaults_from_token mem_ok obj_sd sd set_info tok =
     (if set_info = 0 then Ok obj_sd
      else case set_sd_from_token_internal mem_ok sd obj_sd set_info tok of
             Ok new_sd \<Rightarrow> Ok (Some new_sd)
           | Err e \<Rightarrow> Err e
           | Fault \<Rightarrow> Fault)"

definition token_assign_label :: "bool \<Rightarrow> token \<Rightarrow> sid \<Rightarrow> token outcome" where
  "token_assign_label mem_ok tok label =
     (case create_security_label_sd mem_ok label of
        None \<Rightarrow> Err STATUS_NO_MEMORY
      | Some sd \<Rightarrow>
          (case set_sd_defaults_from_token mem_ok (tk_sd tok) sd LABEL_SECURITY_INFORMATION (Some tok) of
             Ok new_sd \<Rightarrow> Ok (tok\<lparr>tk_sd := new_sd\<rparr>)
           | Err e \<Rightarrow> Err e
           | Fault \<Rightarrow> Fault))"

section \<open>Duplicating and restricting tokens\<close>

definition filter_group :: "group \<Rightarrow> sid list \<Rightarrow> bool" where
  "filter_group g removed \<longleftrightarrow> (\<exists>s\<in>set removed. equal_sid (gr_sid g) s)"

definition filter_privilege :: "privilege \<Rightarrow> luid_attr list \<Rightarrow> bool" where
  "filter_privilege p removed \<longleftrightarrow> (\<exists>l\<in>set removed. is_equal_luid (pr_luid p) (la_luid l))"

definition restrict_group :: "sid list \<Rightarrow> group \<Rightarrow> group" where
  "restrict_group removed g =
     (if filter_group g removed
      then g\<lparr>gr_attrs := (gr_attrs g AND NOT (SE_GROUP_ENABLED OR SE_GROUP_ENABLED_BY_DEFAULT))
                         OR SE_GROUP_USE_FOR_DENY_ONLY\<rparr>
      else g)"

text \<open>
  The result pairs the new token, if any, with the counter of luids. A source token
  without a primary group violates an assertion of the code, and the last call uses
  \<open>proc_token\<close>, the token of the current process, for the defaults of the descriptor;
  its failure leaves the new token without one.
\<close>

definition token_duplicate :: "bool \<Rightarrow> bool \<Rightarrow> luid \<Rightarrow> token option \<Rightarrow> token \<Rightarrow> bool \<Rightarrow> int
    \<Rightarrow> security_descriptor option \<Rightarrow> luid_attr list \<Rightarrow> sid list \<Rightarrow> token outcome \<times> luid" where
  "token_duplicate obj_ok mem_ok prev proc_token src primary level sd remove_privs remove_groups =
     (let mod_id = (if primary \<or> level = tk_impersonation_level src
                    then Some (modified_id src) else None)
      in if \<not> primary \<and> (level < SecurityAnonymous \<or> level > SecurityDelegation \<or>
              \<not> tk_primary src \<and> level > tk_impersonation_level src)
         then (Err STATUS_BAD_IMPERSONATION_LEVEL, prev)
         else case create_token obj_ok mem_ok prev primary (tk_session_id src) (tk_user src) [] []
                     (tk_default_dacl src) mod_id 0 level (tk_elevation src) of
           (None, prev') \<Rightarrow> (Err STATUS_NO_MEMORY, prev')
         | (Some t, prev') \<Rightarrow>
             (case tk_primary_group src of
                None \<Rightarrow> (Fault, prev')
              | Some pg \<Rightarrow>
                  (let t1 = t\<lparr>tk_groups := map (restrict_group remove_groups) (tk_groups src),
                              tk_owner := Some pg, tk_primary_group := Some pg,
                              tk_privileges := foldl (\<lambda>ps p.
                                  if filter_privilege p remove_privs then ps
                                  else privilege_add ps (pr_luid p) (pr_enabled p)) []
                                (tk_privileges src)\<rparr>
                   in case sd of
                        None \<Rightarrow> (Ok t1, prev')
                      | Some d \<Rightarrow>
                          (case set_sd_defaults_from_token mem_ok (tk_sd t1) d 0xf proc_token of
                             Ok new_sd \<Rightarrow> (Ok (t1\<lparr>tk_sd := new_sd\<rparr>), prev')
                           | Err _ \<Rightarrow> (Ok t1, prev')
                           | Fault \<Rightarrow> (Fault, prev')))))"

section \<open>Using privileges\<close>

fun find_privilege :: "privilege list \<Rightarrow> luid \<Rightarrow> privilege option" where
  "find_privilege [] l = None"
| "find_privilege (p # ps) l = (if is_equal_luid l (pr_luid p) then Some p else find_privilege ps l)"

definition token_find_privilege :: "token \<Rightarrow> luid \<Rightarrow> bool \<Rightarrow> privilege option" where
  "token_find_privilege t l enabled_only =
     (case find_privilege (tk_privileges t) l of
        None \<Rightarrow> None
      | Some p \<Rightarrow> if enabled_only \<and> \<not> pr_enabled p then None else Some p)"

text \<open>Changing or removing the entry that \<^verbatim>\<open>token_find_privilege\<close> points to.\<close>

fun change_privilege :: "(privilege \<Rightarrow> privilege list) \<Rightarrow> luid \<Rightarrow> privilege list \<Rightarrow> privilege list" where
  "change_privilege f l [] = []"
| "change_privilege f l (p # ps) =
     (if is_equal_luid l (pr_luid p) then f p @ ps else p # change_privilege f l ps)"

fun adjust_loop :: "luid_attr list \<Rightarrow> token \<Rightarrow> nat \<Rightarrow> luid_attr list \<Rightarrow> ntstatus
    \<Rightarrow> token \<times> luid_attr list \<times> ntstatus" where
  "adjust_loop [] t room mods err = (t, mods, err)"
| "adjust_loop (req # reqs) t room mods err =
     (case token_find_privilege t (la_luid req) False of
        None \<Rightarrow> adjust_loop reqs t room mods STATUS_NOT_ALL_ASSIGNED
      | Some p \<Rightarrow>
          if la_attrs req AND SE_PRIVILEGE_REMOVED \<noteq> 0
          then adjust_loop reqs
                 (t\<lparr>tk_privileges := change_privilege (\<lambda>_. []) (la_luid req) (tk_privileges t)\<rparr>)
                 room mods err
          else adjust_loop reqs
                 (t\<lparr>tk_privileges := change_privilege
                      (\<lambda>p. [p\<lparr>pr_enabled := la_attrs req AND SE_PRIVILEGE_ENABLED \<noteq> 0\<rparr>])
                      (la_luid req) (tk_privileges t)\<rparr>)
                 (room - 1)
                 (if room \<noteq> 0 then mods @ [luid_and_attr_from_privilege p] else mods) err)"

text \<open>
  The token, the previous states saved for the caller (their number is the returned
  count), the error left behind and the counter of luids.
\<close>

definition token_adjust_privileges :: "luid \<Rightarrow> token \<Rightarrow> luid_attr list \<Rightarrow> nat
    \<Rightarrow> (token \<times> luid_attr list \<times> ntstatus) \<times> luid" where
  "token_adjust_privileges prev t privs mod_privs_count =
     (let new_id = allocate_luid prev
      in (adjust_loop privs (t\<lparr>modified_id := new_id\<rparr>) mod_privs_count [] STATUS_SUCCESS, new_id))"

definition token_disable_privileges :: "luid \<Rightarrow> token \<Rightarrow> token \<times> luid" where
  "token_disable_privileges prev t =
     (let new_id = allocate_luid prev
      in (t\<lparr>modified_id := new_id,
            tk_privileges := map (\<lambda>p. p\<lparr>pr_enabled := False\<rparr>) (tk_privileges t)\<rparr>, new_id))"

definition privilege_held :: "token \<Rightarrow> luid_attr \<Rightarrow> bool" where
  "privilege_held t req =
     (case token_find_privilege t (la_luid req) True of None \<Rightarrow> False | Some p \<Rightarrow> pr_enabled p)"

definition token_check_privileges :: "token \<Rightarrow> bool \<Rightarrow> luid_attr list \<Rightarrow> bool \<times> luid_attr list" where
  "token_check_privileges t all_required reqprivs =
     (let enabled_count = length (filter (privilege_held t) reqprivs);
          used = map (\<lambda>r. if privilege_held t r
                          then r\<lparr>la_attrs := la_attrs r OR SE_PRIVILEGE_USED_FOR_ACCESS\<rparr> else r) reqprivs
      in (if all_required then enabled_count = length reqprivs else 0 < enabled_count, used))"

definition token_sid_present :: "token \<Rightarrow> sid \<Rightarrow> bool \<Rightarrow> bool" where
  "token_sid_present t s deny \<longleftrightarrow>
     equal_sid (tk_user t) s \<or>
     (\<exists>g\<in>set (tk_groups t). gr_attrs g AND SE_GROUP_ENABLED \<noteq> 0 \<and>
        (deny \<or> gr_attrs g AND SE_GROUP_USE_FOR_DENY_ONLY = 0) \<and> equal_sid (gr_sid g) s)"

section \<open>The access check\<close>

definition map_access :: "u32 \<Rightarrow> generic_map \<Rightarrow> u32" where
  "map_access access0 m =
     (let a1 = (if access0 AND GENERIC_READ \<noteq> 0 then access0 OR gm_read m else access0);
          a2 = (if a1 AND GENERIC_WRITE \<noteq> 0 then a1 OR gm_write m else a1);
          a3 = (if a2 AND GENERIC_EXECUTE \<noteq> 0 then a2 OR gm_exec m else a2);
          a4 = (if a3 AND GENERIC_ALL \<noteq> 0 then a3 OR gm_all m else a3)
      in a4 AND NOT GENERIC_MASK)"

text \<open>
  The loop over the entries, with the rights granted and denied so far. The early
  exit at its end compares the wanted rights with \<^verbatim>\<open>*granted_access\<close>, which is
  still zero there.
\<close>

fun dacl_loop :: "token \<Rightarrow> generic_map \<Rightarrow> u32 \<Rightarrow> ace list \<Rightarrow> u32 \<Rightarrow> u32 \<Rightarrow> u32 \<times> u32" where
  "dacl_loop t m desired [] current denied = (current, denied)"
| "dacl_loop t m desired (a # aces) current denied =
     (if ace_flags a AND INHERIT_ONLY_ACE \<noteq> 0 then dacl_loop t m desired aces current denied
      else
        (let acc = map_access (ace_mask a) m; granted_access = 0 in
         if ace_type a = ACCESS_DENIED_ACE_TYPE \<and> token_sid_present t (ace_sid a) True then
           (if desired AND MAXIMUM_ALLOWED \<noteq> 0 then
              (if desired = granted_access then (current, denied OR acc)
               else dacl_loop t m desired aces current (denied OR acc))
            else if desired AND acc \<noteq> 0 then (current, denied OR (acc AND NOT current))
            else if desired = granted_access then (current, denied OR (acc AND NOT current))
            else dacl_loop t m desired aces current (denied OR (acc AND NOT current)))
         else if ace_type a = ACCESS_ALLOWED_ACE_TYPE \<and> token_sid_present t (ace_sid a) False then
           (let current' = (if desired AND MAXIMUM_ALLOWED \<noteq> 0 then current OR acc
                            else current OR (acc AND NOT denied))
            in if desired = granted_access then (current', denied)
               else dacl_loop t m desired aces current' denied)
         else if desired = granted_access then (current, denied)
         else dacl_loop t m desired aces current denied))"

text \<open>
  The result of \<^verbatim>\<open>token_access_check\<close>: the returned status, the granted rights, the
  access status (\<open>None\<close> when the call does not write it), the number of privileges
  used (\<open>None\<close> when the caller passed a null pointer) and the privilege written.
\<close>

record access_result =
  ar_ret :: ntstatus
  ar_granted :: u32
  ar_status :: "ntstatus option"
  ar_priv_count :: "nat option"
  ar_priv :: "luid_attr option"

definition dacl_check :: "token \<Rightarrow> generic_map \<Rightarrow> u32 \<Rightarrow> ace list \<Rightarrow> sid \<Rightarrow> u32 \<Rightarrow> u32" where
  "dacl_check t m desired aces owner current0 =
     (let current = (if token_sid_present t owner False then current0 OR OWNER_RIGHTS else current0)
      in if token_sid_present t owner False \<and> desired = current then current
         else case dacl_loop t m desired aces current 0 of
           (cur, den) \<Rightarrow>
             if desired AND MAXIMUM_ALLOWED \<noteq> 0 then cur AND NOT den
             else if cur AND desired = desired then cur AND desired else 0)"

definition token_access_check :: "token \<Rightarrow> security_descriptor \<Rightarrow> u32 \<Rightarrow> nat option \<Rightarrow> generic_map
    \<Rightarrow> access_result" where
  "token_access_check t sd desired priv_count m =
     (let none = map_option (\<lambda>_. 0) priv_count;
          fail = (\<lambda>e. \<lparr>ar_ret = e, ar_granted = 0, ar_status = None, ar_priv_count = none, ar_priv = None\<rparr>);
          finish = (\<lambda>g n p. \<lparr>ar_ret = STATUS_SUCCESS, ar_granted = g,
                     ar_status = Some (if g \<noteq> 0 then STATUS_SUCCESS else STATUS_ACCESS_DENIED),
                     ar_priv_count = n, ar_priv = p\<rparr>)
      in
      if desired AND GENERIC_MASK \<noteq> 0 then fail STATUS_GENERIC_NOT_MAPPED
      else case (sd_get_owner sd, sd_get_group sd) of
        (Some owner, Some _) \<Rightarrow>
          (case sd_get_dacl sd of
             (Some dacl, True) \<Rightarrow>
               if desired AND ACCESS_SYSTEM_SECURITY \<noteq> 0 then
                 (case token_check_privileges t True [\<lparr>la_luid = SeSecurityPrivilege, la_attrs = 0\<rparr>] of
                    (True, used) \<Rightarrow>
                      (if priv_count = Some 0
                       then \<lparr>ar_ret = STATUS_BUFFER_TOO_SMALL, ar_granted = 0, ar_status = None,
                             ar_priv_count = Some 1, ar_priv = None\<rparr>
                       else
                         (let n = map_option (\<lambda>_. 1) priv_count;
                              p = map_option (\<lambda>_. hd used) priv_count
                          in if desired = ACCESS_SYSTEM_SECURITY
                             then \<lparr>ar_ret = STATUS_SUCCESS, ar_granted = desired,
                                   ar_status = Some STATUS_SUCCESS, ar_priv_count = n, ar_priv = p\<rparr>
                             else finish (dacl_check t m desired (acl_aces dacl) owner
                                            ACCESS_SYSTEM_SECURITY) n p))
                  | (False, _) \<Rightarrow> \<lparr>ar_ret = STATUS_SUCCESS, ar_granted = 0,
                        ar_status = Some STATUS_PRIVILEGE_NOT_HELD, ar_priv_count = none, ar_priv = None\<rparr>)
               else finish (dacl_check t m desired (acl_aces dacl) owner 0) none None
           | _ \<Rightarrow> \<lparr>ar_ret = STATUS_SUCCESS,
                   ar_granted = (if desired AND MAXIMUM_ALLOWED \<noteq> 0 then gm_all m else desired),
                   ar_status = Some STATUS_SUCCESS, ar_priv_count = none, ar_priv = None\<rparr>)
      | _ \<Rightarrow> fail STATUS_INVALID_SECURITY_DESCR)"

text \<open>
  \<^verbatim>\<open>check_object_access\<close>: \<open>cur\<close> is the token of the current thread, or of its process
  when the thread has none; \<open>map_acc\<close> is the \<^verbatim>\<open>map_access\<close> operation of the object. It
  returns whether access is granted, and the rights.
\<close>

definition check_object_access :: "token option \<Rightarrow> token \<Rightarrow> (u32 \<Rightarrow> u32) \<Rightarrow> security_descriptor option
    \<Rightarrow> u32 \<Rightarrow> bool \<times> u32" where
  "check_object_access tok cur map_acc obj_sd access0 =
     (let t = (case tok of Some t \<Rightarrow> t | None \<Rightarrow> cur)
      in case obj_sd of
           None \<Rightarrow> (True, if access0 AND MAXIMUM_ALLOWED \<noteq> 0 then map_acc GENERIC_ALL else access0)
         | Some sd \<Rightarrow>
             (let m = \<lparr>gm_read = map_acc GENERIC_READ, gm_write = map_acc GENERIC_WRITE,
                       gm_exec = map_acc GENERIC_EXECUTE, gm_all = map_acc GENERIC_ALL\<rparr>;
                  r = token_access_check t sd access0 None m
              in (ar_ret r = STATUS_SUCCESS \<and> ar_status r = Some STATUS_SUCCESS, ar_granted r)))"

section \<open>What the access check promises\<close>

text \<open>
  The reference semantics of an access control list: the first entry that applies to
  the token and names a right decides it.
\<close>

definition ace_denies :: "token \<Rightarrow> ace \<Rightarrow> bool" where
  "ace_denies t a \<longleftrightarrow> ace_flags a AND INHERIT_ONLY_ACE = 0 \<and>
     ace_type a = ACCESS_DENIED_ACE_TYPE \<and> token_sid_present t (ace_sid a) True"

definition ace_allows :: "token \<Rightarrow> ace \<Rightarrow> bool" where
  "ace_allows t a \<longleftrightarrow> ace_flags a AND INHERIT_ONLY_ACE = 0 \<and>
     ace_type a = ACCESS_ALLOWED_ACE_TYPE \<and> token_sid_present t (ace_sid a) False"

fun first_match :: "token \<Rightarrow> generic_map \<Rightarrow> ace list \<Rightarrow> nat \<Rightarrow> bool option" where
  "first_match t m [] b = None"
| "first_match t m (a # aces) b =
     (if bit (map_access (ace_mask a) m) b \<and> ace_denies t a then Some False
      else if bit (map_access (ace_mask a) m) b \<and> ace_allows t a then Some True
      else first_match t m aces b)"

lemma bit_eq_0: "x AND y = 0 \<Longrightarrow> bit x b \<Longrightarrow> \<not> bit (y :: 'a :: len word) b"
  by (metis bit_0_eq bit_and_iff bot_apply bot_bool_def)

lemma bit_subset: "x AND y = y \<Longrightarrow> bit y b \<Longrightarrow> bit (x :: 'a :: len word) b"
  by (metis bit_and_iff)

lemmas bit_set_simps = bit_or_iff bit_and_iff bit_not_iff

lemma dacl_loop_sound:
  assumes "dacl_loop t m d aces cur den = (c, dn)" and "d AND MAXIMUM_ALLOWED = 0" and "bit c b"
  shows "bit cur b \<or> \<not> bit den b \<and> first_match t m aces b = Some True"
  using assms(1)
proof (induction aces arbitrary: cur den)
  case Nil
  then show ?case using assms(3) by simp
next
  case (Cons a aces)
  show ?case
  proof (cases "ace_denies t a")
    case True
    then show ?thesis
      using Cons.IH [of cur "den OR (map_access (ace_mask a) m AND NOT cur)"] Cons.prems assms(2,3)
      by (auto simp: ace_denies_def Let_def bit_set_simps dest: bit_imp_le_length split: if_splits)
  next
    case False
    then show ?thesis
      using Cons.IH [of "cur OR (map_access (ace_mask a) m AND NOT den)" den] Cons.IH [of cur den]
        Cons.prems assms(2,3)
      by (auto simp: ace_denies_def ace_allows_def Let_def bit_set_simps split: if_splits)
  qed
qed

lemma dacl_loop_complete:
  assumes "d AND MAXIMUM_ALLOWED = 0" and "d \<noteq> 0" and "bit d b"
    and "\<forall>a\<in>set aces. ace_denies t a \<longrightarrow> d AND map_access (ace_mask a) m = 0"
    and "bit cur b \<or> \<not> bit den b \<and> first_match t m aces b = Some True"
  shows "bit (fst (dacl_loop t m d aces cur den)) b"
  using assms(4,5)
proof (induction aces arbitrary: cur den)
  case Nil
  then show ?case by simp
next
  case (Cons a aces)
  have len: "b < 32" using assms(3) bit_imp_le_length by force
  have nd: "ace_denies t a \<Longrightarrow> \<not> bit (map_access (ace_mask a) m) b"
    using Cons.prems(1) assms(3) by (auto dest: bit_eq_0)
  show ?case
  proof (cases "ace_denies t a")
    case True
    then show ?thesis
      using Cons.IH [of cur "den OR (map_access (ace_mask a) m AND NOT cur)"] Cons.prems assms(1,2) nd len
      by (auto simp: ace_denies_def ace_allows_def Let_def bit_set_simps)
  next
    case False
    then show ?thesis
      using Cons.IH [of "cur OR (map_access (ace_mask a) m AND NOT den)" den] Cons.IH [of cur den]
        Cons.prems assms(1,2) len
      by (auto simp: ace_denies_def ace_allows_def Let_def bit_set_simps split: if_splits)
  qed
qed

lemma dacl_loop_maximum:
  assumes "d AND MAXIMUM_ALLOWED \<noteq> 0"
  shows "bit (fst (dacl_loop t m d aces cur den)) b \<longleftrightarrow>
      bit cur b \<or> (\<exists>a\<in>set aces. ace_allows t a \<and> bit (map_access (ace_mask a) m) b)"
    and "bit (snd (dacl_loop t m d aces cur den)) b \<longleftrightarrow>
      bit den b \<or> (\<exists>a\<in>set aces. ace_denies t a \<and> bit (map_access (ace_mask a) m) b)"
proof -
  have "d \<noteq> 0" using assms by auto
  with assms show "bit (fst (dacl_loop t m d aces cur den)) b \<longleftrightarrow>
      bit cur b \<or> (\<exists>a\<in>set aces. ace_allows t a \<and> bit (map_access (ace_mask a) m) b)"
    by (induction aces arbitrary: cur den)
      (auto simp: ace_denies_def ace_allows_def Let_def bit_set_simps)
  from \<open>d \<noteq> 0\<close> assms show "bit (snd (dacl_loop t m d aces cur den)) b \<longleftrightarrow>
      bit den b \<or> (\<exists>a\<in>set aces. ace_denies t a \<and> bit (map_access (ace_mask a) m) b)"
    by (induction aces arbitrary: cur den)
      (auto simp: ace_denies_def ace_allows_def Let_def bit_set_simps)
qed

text \<open>
  The rights a token has on an object before its list is read: those of the owner,
  and access to the audit list for a holder of the security privilege who asks for it.
\<close>

definition holds_security_privilege :: "token \<Rightarrow> bool" where
  "holds_security_privilege t \<longleftrightarrow> privilege_held t \<lparr>la_luid = SeSecurityPrivilege, la_attrs = 0\<rparr>"

definition right_allowed :: "token \<Rightarrow> generic_map \<Rightarrow> sid \<Rightarrow> ace list \<Rightarrow> nat \<Rightarrow> bool" where
  "right_allowed t m owner aces b \<longleftrightarrow>
     token_sid_present t owner False \<and> bit OWNER_RIGHTS b \<or>
     holds_security_privilege t \<and> bit ACCESS_SYSTEM_SECURITY b \<or>
     first_match t m aces b = Some True"

lemma token_check_security:
  "fst (token_check_privileges t True [\<lparr>la_luid = SeSecurityPrivilege, la_attrs = 0\<rparr>])
   = holds_security_privilege t"
  by (simp add: token_check_privileges_def holds_security_privilege_def Let_def)

lemma dacl_check_sound:
  assumes "dacl_check t m d aces owner c0 \<noteq> 0" and "d AND MAXIMUM_ALLOWED = 0"
  shows "dacl_check t m d aces owner c0 = d"
    and "bit d b \<Longrightarrow> bit c0 b \<or> token_sid_present t owner False \<and> bit OWNER_RIGHTS b \<or>
      first_match t m aces b = Some True"
proof -
  let ?c = "if token_sid_present t owner False then c0 OR OWNER_RIGHTS else c0"
  obtain cur den where l: "dacl_loop t m d aces ?c 0 = (cur, den)" by force
  show "dacl_check t m d aces owner c0 = d"
    using assms l by (auto simp: dacl_check_def Let_def and.commute split: if_splits)
  assume b: "bit d b"
  show "bit c0 b \<or> token_sid_present t owner False \<and> bit OWNER_RIGHTS b \<or>
      first_match t m aces b = Some True"
  proof (cases "token_sid_present t owner False \<and> d = ?c")
    case True
    then show ?thesis using b by (auto simp: bit_or_iff)
  next
    case False
    with assms l have "cur AND d = d" by (auto simp: dacl_check_def Let_def split: if_splits)
    with b have "bit cur b" using bit_subset by blast
    from dacl_loop_sound [OF l assms(2) this] show ?thesis
      by (auto simp: bit_or_iff split: if_splits)
  qed
qed

lemma word_subsetI:
  assumes "\<And>b. bit y b \<Longrightarrow> bit (x :: 'a :: len word) b" shows "x AND y = y"
  by (rule bit_eqI) (auto simp: bit_and_iff assms)

lemma dacl_check_complete:
  assumes "d AND MAXIMUM_ALLOWED = 0" and "d \<noteq> 0"
    and "\<forall>a\<in>set aces. ace_denies t a \<longrightarrow> d AND map_access (ace_mask a) m = 0"
    and "\<And>b. bit d b \<Longrightarrow> bit c0 b \<or> token_sid_present t owner False \<and> bit OWNER_RIGHTS b \<or>
      first_match t m aces b = Some True"
  shows "dacl_check t m d aces owner c0 = d"
proof -
  let ?c = "if token_sid_present t owner False then c0 OR OWNER_RIGHTS else c0"
  have "bit (fst (dacl_loop t m d aces ?c 0)) b" if "bit d b" for b
    using assms(4) [OF that]
    by (intro dacl_loop_complete [OF assms(1,2) that assms(3)]) (auto simp: bit_or_iff)
  then have "fst (dacl_loop t m d aces ?c 0) AND d = d" by (rule word_subsetI)
  then show ?thesis
    using assms(1) by (auto simp: dacl_check_def Let_def split: prod.splits)
qed

lemma access_check_via_dacl:
  assumes "desired AND GENERIC_MASK = 0" and "sd_get_owner sd = Some owner"
    and "sd_get_group sd = Some g" and "sd_get_dacl sd = (Some dacl, True)" and "pc \<noteq> Some 0"
  shows "let r = token_access_check t sd desired pc m in
     ar_ret r = STATUS_SUCCESS \<and>
     (if desired AND ACCESS_SYSTEM_SECURITY = 0 then
        ar_granted r = dacl_check t m desired (acl_aces dacl) owner 0 \<and>
        (ar_status r = Some STATUS_SUCCESS \<longleftrightarrow> ar_granted r \<noteq> 0)
      else if \<not> holds_security_privilege t then
        ar_granted r = 0 \<and> ar_status r = Some STATUS_PRIVILEGE_NOT_HELD
      else if desired = ACCESS_SYSTEM_SECURITY then
        ar_granted r = desired \<and> ar_status r = Some STATUS_SUCCESS
      else ar_granted r = dacl_check t m desired (acl_aces dacl) owner ACCESS_SYSTEM_SECURITY \<and>
        (ar_status r = Some STATUS_SUCCESS \<longleftrightarrow> ar_granted r \<noteq> 0))"
  using assms token_check_security [of t]
  by (auto simp: token_access_check_def Let_def split: prod.splits bool.splits)

lemma access_check_failures:
  "ar_ret (token_access_check t sd desired pc m) = STATUS_SUCCESS \<Longrightarrow>
   desired AND GENERIC_MASK = 0 \<and> sd_get_owner sd \<noteq> None \<and> sd_get_group sd \<noteq> None"
  by (auto simp: token_access_check_def Let_def split: if_splits option.splits)

lemma access_check_room:
  assumes "sd_get_dacl sd = (Some dacl, True)" and "desired AND ACCESS_SYSTEM_SECURITY \<noteq> 0"
    and "ar_ret (token_access_check t sd desired (Some 0) m) = STATUS_SUCCESS"
  shows "ar_status (token_access_check t sd desired (Some 0) m) \<noteq> Some STATUS_SUCCESS"
  using assms by (auto simp: token_access_check_def Let_def split: if_splits option.splits prod.splits bool.splits)

lemma access_check_room_irrelevant:
  assumes "desired AND ACCESS_SYSTEM_SECURITY = 0"
  shows "ar_granted (token_access_check t sd desired pc m) = ar_granted (token_access_check t sd desired None m)"
    "ar_ret (token_access_check t sd desired pc m) = ar_ret (token_access_check t sd desired None m)"
    "ar_status (token_access_check t sd desired pc m) = ar_status (token_access_check t sd desired None m)"
  using assms by (auto simp: token_access_check_def Let_def split: option.splits prod.splits bool.splits)

lemma access_check_sound_aux:
  assumes "ar_ret (token_access_check t sd desired pc m) = STATUS_SUCCESS"
    and "ar_status (token_access_check t sd desired pc m) = Some STATUS_SUCCESS"
    and "desired AND MAXIMUM_ALLOWED = 0" and "sd_get_dacl sd = (Some dacl, True)"
    and "sd_get_owner sd = Some owner" and "pc \<noteq> Some 0"
  shows "ar_granted (token_access_check t sd desired pc m) = desired \<and>
    (\<forall>b. bit desired b \<longrightarrow> right_allowed t m owner (acl_aces dacl) b)"
proof -
  from access_check_failures [OF assms(1)] obtain g
    where pre: "desired AND GENERIC_MASK = 0" "sd_get_group sd = Some g" by auto
  note via = access_check_via_dacl [OF pre(1) assms(5) pre(2) assms(4,6), of t m, unfolded Let_def]
  show ?thesis
  proof (cases "desired AND ACCESS_SYSTEM_SECURITY = 0")
    case True
    with via assms(2) have "dacl_check t m desired (acl_aces dacl) owner 0 \<noteq> 0" by auto
    note dc = dacl_check_sound [OF this assms(3)]
    from dc(2) have "bit desired b \<Longrightarrow> right_allowed t m owner (acl_aces dacl) b" for b
      by (auto simp: right_allowed_def)
    with via True dc(1) show ?thesis by simp
  next
    case False
    with via assms(2) have priv: "holds_security_privilege t" by (auto split: if_splits)
    show ?thesis
    proof (cases "desired = ACCESS_SYSTEM_SECURITY")
      case True
      then show ?thesis using via priv by (auto simp: right_allowed_def)
    next
      case ne: False
      with via assms(2) False priv
      have "dacl_check t m desired (acl_aces dacl) owner ACCESS_SYSTEM_SECURITY \<noteq> 0" by auto
      note dc = dacl_check_sound [OF this assms(3)]
      from dc(2) priv have "bit desired b \<Longrightarrow> right_allowed t m owner (acl_aces dacl) b" for b
        by (auto simp: right_allowed_def)
      with via False ne priv dc(1) show ?thesis by simp
    qed
  qed
qed

lemma access_check_complete_aux:
  assumes "desired AND GENERIC_MASK = 0" and "desired AND MAXIMUM_ALLOWED = 0" and "desired \<noteq> 0"
    and "sd_get_dacl sd = (Some dacl, True)" and "sd_get_owner sd = Some owner"
    and "sd_get_group sd = Some g" and "pc \<noteq> Some 0"
    and nodeny: "\<forall>a\<in>set (acl_aces dacl). ace_denies t a \<longrightarrow> desired AND map_access (ace_mask a) m = 0"
    and allowed: "\<And>b. bit desired b \<Longrightarrow> right_allowed t m owner (acl_aces dacl) b"
    and sec: "desired AND ACCESS_SYSTEM_SECURITY \<noteq> 0 \<Longrightarrow> holds_security_privilege t"
  shows "ar_granted (token_access_check t sd desired pc m) = desired"
proof -
  note via = access_check_via_dacl [OF assms(1,5,6,4,7), of t m, unfolded Let_def]
  show ?thesis
  proof (cases "desired AND ACCESS_SYSTEM_SECURITY = 0")
    case True
    then have "bit desired b \<Longrightarrow> \<not> bit ACCESS_SYSTEM_SECURITY b" for b by (auto dest: bit_eq_0)
    with allowed have "dacl_check t m desired (acl_aces dacl) owner 0 = desired"
      by (intro dacl_check_complete [OF assms(2,3) nodeny]) (auto simp: right_allowed_def)
    with via True show ?thesis by simp
  next
    case False
    with sec have priv: "holds_security_privilege t" by simp
    with allowed have "dacl_check t m desired (acl_aces dacl) owner ACCESS_SYSTEM_SECURITY = desired"
      by (intro dacl_check_complete [OF assms(2,3) nodeny]) (auto simp: right_allowed_def)
    with via False priv show ?thesis by (simp split: if_splits)
  qed
qed

section \<open>Restricted tokens\<close>

lemma find_privilege_None_iff: "find_privilege ps l = None \<longleftrightarrow> (\<forall>p\<in>set ps. \<not> is_equal_luid l (pr_luid p))"
  by (induction ps) auto

lemma is_equal_luid_iff [simp]: "is_equal_luid l1 l2 \<longleftrightarrow> l1 = l2"
  by (cases l1; cases l2) (simp add: is_equal_luid_def)

lemma equal_sid_iff [simp]: "equal_sid s1 s2 \<longleftrightarrow> s1 = s2"
  by (cases s1; cases s2) (auto simp: equal_sid_def)

lemma foldl_privileges:
  "foldl (\<lambda>ps p. if P p then ps else privilege_add ps (pr_luid p) (pr_enabled p)) acc ps
   = acc @ map (\<lambda>p. p\<lparr>pr_def := pr_enabled p\<rparr>) (filter (\<lambda>p. \<not> P p) ps)"
  by (induction ps arbitrary: acc) (auto simp: privilege_add_def)

lemma find_privilege_filtered:
  "find_privilege (map (\<lambda>p. p\<lparr>pr_def := pr_enabled p\<rparr>) (filter (\<lambda>p. \<not> filter_privilege p rm) ps)) l
     = (if \<exists>x\<in>set rm. l = la_luid x then None
        else map_option (\<lambda>p. p\<lparr>pr_def := pr_enabled p\<rparr>) (find_privilege ps l))"
  by (induction ps) (auto simp: filter_privilege_def)

lemma token_duplicate_Ok:
  assumes "token_duplicate obj_ok mem_ok prev ptok src primary level sd rp rg = (Ok t, prev')"
  shows "tk_groups t = map (restrict_group rg) (tk_groups src)" and "tk_user t = tk_user src"
    and "tk_privileges t = map (\<lambda>p. p\<lparr>pr_def := pr_enabled p\<rparr>)
           (filter (\<lambda>p. \<not> filter_privilege p rp) (tk_privileges src))"
    and "tk_primary_group t = tk_primary_group src" and "tk_primary_group src \<noteq> None"
    and "tk_primary t = primary" and "tk_default_dacl t = tk_default_dacl src"
  using assms
  by (auto simp: token_duplicate_def create_token_def Let_def foldl_privileges
      split: if_splits option.splits outcome.splits)

lemma restrict_group_sid [simp]: "gr_sid (restrict_group rg g) = gr_sid g"
  by (simp add: restrict_group_def)

lemma and_or_not_self: "((x AND NOT (y OR z)) OR w) AND y = w AND (y :: 'a :: len word)"
  by (rule bit_eqI) (auto simp: bit_and_iff bit_or_iff bit_not_iff)

lemma restrict_group_enabled:
  "gr_attrs (restrict_group rg g) AND SE_GROUP_ENABLED \<noteq> 0 \<longleftrightarrow>
   gr_attrs g AND SE_GROUP_ENABLED \<noteq> 0 \<and> \<not> filter_group g rg"
proof -
  have "((x AND NOT (SE_GROUP_ENABLED OR SE_GROUP_ENABLED_BY_DEFAULT)) OR SE_GROUP_USE_FOR_DENY_ONLY)
      AND SE_GROUP_ENABLED = 0" for x :: u32
    unfolding and_or_not_self by simp
  then show ?thesis by (simp add: restrict_group_def)
qed

section \<open>Adjusting privileges\<close>

definition priv_state :: "privilege list \<Rightarrow> luid \<Rightarrow> bool option" where
  "priv_state ps l = map_option pr_enabled (find_privilege ps l)"

abbreviation set_enabled :: "bool \<Rightarrow> privilege \<Rightarrow> privilege list" where
  "set_enabled e \<equiv> \<lambda>p. [p\<lparr>pr_enabled := e\<rparr>]"

lemma find_privilege_change_other:
  "l \<noteq> l' \<Longrightarrow> find_privilege (change_privilege (set_enabled e) l ps) l' = find_privilege ps l'"
  by (induction ps) auto

lemma priv_state_change:
  "priv_state (change_privilege (set_enabled e) l ps) l' =
   (if l = l' then map_option (\<lambda>_. e) (priv_state ps l) else priv_state ps l')"
  by (induction ps) (auto simp: priv_state_def)

lemma change_privilege_frame:
  "map (\<lambda>p. (pr_luid p, pr_def p)) (change_privilege (set_enabled e) l ps)
   = map (\<lambda>p. (pr_luid p, pr_def p)) ps"
  by (induction ps) auto

lemma find_privilege_member:
  "distinct (map pr_luid ps) \<Longrightarrow> p \<in> set ps \<Longrightarrow> find_privilege ps (pr_luid p) = Some p"
proof (induction ps)
  case (Cons a ps)
  have "pr_luid p \<noteq> pr_luid a" if "p \<in> set ps"
    using Cons.prems(1) imageI [OF that, of pr_luid] by auto
  then show ?case using Cons by auto
qed simp

lemma privileges_eqI:
  assumes "map (\<lambda>p. (pr_luid p, pr_def p)) ps = map (\<lambda>p. (pr_luid p, pr_def p)) qs"
    and "distinct (map pr_luid ps)" and "\<And>l. priv_state ps l = priv_state qs l"
  shows "ps = qs"
proof (rule nth_equalityI)
  show len: "length ps = length qs" using assms(1) by (rule map_eq_imp_length_eq)
  fix i assume i: "i < length ps"
  have same: "pr_luid (ps ! i) = pr_luid (qs ! i)" "pr_def (ps ! i) = pr_def (qs ! i)"
    using assms(1) i len by (metis (no_types, lifting) nth_map prod.inject)+
  have luids: "map pr_luid ps = map pr_luid qs"
    using arg_cong [OF assms(1), of "map fst"] by (simp add: comp_def)
  then have "distinct (map pr_luid qs)" using assms(2) by simp
  then have "priv_state qs (pr_luid (qs ! i)) = Some (pr_enabled (qs ! i))"
    using i len by (simp add: priv_state_def find_privilege_member)
  moreover have "priv_state ps (pr_luid (ps ! i)) = Some (pr_enabled (ps ! i))"
    using i assms(2) by (simp add: priv_state_def find_privilege_member)
  ultimately have "pr_enabled (ps ! i) = pr_enabled (qs ! i)"
    using assms(3) [of "pr_luid (ps ! i)"] same by simp
  with same show "ps ! i = qs ! i" by simp
qed

definition changes_only :: "luid_attr list \<Rightarrow> bool" where
  "changes_only reqs \<longleftrightarrow>
     distinct (map la_luid reqs) \<and> (\<forall>r\<in>set reqs. la_attrs r AND SE_PRIVILEGE_REMOVED = 0)"

lemma adjust_loop_frame:
  assumes "\<forall>r\<in>set reqs. la_attrs r AND SE_PRIVILEGE_REMOVED = 0"
  shows "map (\<lambda>p. (pr_luid p, pr_def p)) (tk_privileges (fst (adjust_loop reqs t room mods err)))
    = map (\<lambda>p. (pr_luid p, pr_def p)) (tk_privileges t)"
  using assms
  by (induction reqs t room mods err rule: adjust_loop.induct)
    (auto simp: change_privilege_frame split: option.splits)

lemma adjust_loop_state:
  assumes "changes_only reqs"
  shows "priv_state (tk_privileges (fst (adjust_loop reqs t room mods err))) l =
    (case find (\<lambda>r. la_luid r = l) reqs of
       None \<Rightarrow> priv_state (tk_privileges t) l
     | Some r \<Rightarrow> map_option (\<lambda>_. la_attrs r AND SE_PRIVILEGE_ENABLED \<noteq> 0) (priv_state (tk_privileges t) l))"
  using assms
proof (induction reqs arbitrary: t room mods err)
  case Nil
  then show ?case by simp
next
  case (Cons r reqs)
  have co: "changes_only reqs" using Cons.prems by (simp add: changes_only_def)
  have "la_luid x \<noteq> la_luid r" if "x \<in> set reqs" for x
    using Cons.prems imageI [OF that, of la_luid] by (auto simp: changes_only_def)
  then have "l = la_luid r \<Longrightarrow> find (\<lambda>r. la_luid r = l) reqs = None"
    by (auto simp: find_None_iff)
  note here = this
  have keep: "la_attrs r AND SE_PRIVILEGE_REMOVED = 0" using Cons.prems by (simp add: changes_only_def)
  show ?case
  proof (cases "find_privilege (tk_privileges t) (la_luid r)")
    case None
    then have "priv_state (tk_privileges t) (la_luid r) = None" by (simp add: priv_state_def)
    with None show ?thesis
      by (cases "la_luid r = l") (simp_all add: Cons.IH [OF co] here token_find_privilege_def)
  next
    case (Some p)
    then show ?thesis using keep
      by (cases "la_luid r = l")
        (simp_all add: Cons.IH [OF co] here token_find_privilege_def priv_state_change
          split: option.splits)
  qed
qed

lemma find_privilege_luid: "find_privilege ps l = Some p \<Longrightarrow> pr_luid p = l"
  by (induction ps) (auto split: if_splits)

lemma luid_and_attr_simps [simp]:
  "la_luid (luid_and_attr_from_privilege p) = pr_luid p"
  "la_attrs (luid_and_attr_from_privilege p) AND SE_PRIVILEGE_REMOVED = 0"
  by (auto simp: luid_and_attr_from_privilege_def)

definition saved_states :: "privilege list \<Rightarrow> luid_attr list \<Rightarrow> luid_attr list" where
  "saved_states ps reqs = map luid_and_attr_from_privilege
     (List.map_filter (\<lambda>r. find_privilege ps (la_luid r)) reqs)"

lemma saved_states_simps [simp]:
  "saved_states ps [] = []"
  "saved_states ps (r # reqs) =
    (case find_privilege ps (la_luid r) of
       None \<Rightarrow> saved_states ps reqs
     | Some p \<Rightarrow> luid_and_attr_from_privilege p # saved_states ps reqs)"
  by (simp_all add: saved_states_def map_filter_simps split: option.splits)

lemma saved_states_change:
  "\<forall>x\<in>set reqs. la_luid x \<noteq> l \<Longrightarrow>
   saved_states (change_privilege (set_enabled e) l ps) reqs = saved_states ps reqs"
  by (induction reqs) (auto simp: find_privilege_change_other split: option.splits)

lemma saved_states_luids:
  "map la_luid (saved_states ps reqs) = filter (\<lambda>l. find_privilege ps l \<noteq> None) (map la_luid reqs)"
  by (induction reqs) (auto split: option.splits dest: find_privilege_luid)

lemma mods_changes_only:
  assumes "changes_only reqs" shows "changes_only (saved_states ps reqs)"
proof -
  have "\<forall>r\<in>set (saved_states ps reqs). la_attrs r AND SE_PRIVILEGE_REMOVED = 0"
    by (simp add: saved_states_def)
  then show ?thesis using assms
    unfolding changes_only_def saved_states_luids by (simp only: distinct_filter simp_thms)
qed

lemma find_mods:
  "find (\<lambda>r. la_luid r = l) (saved_states ps reqs) =
   (if find (\<lambda>r. la_luid r = l) reqs = None then None
    else map_option luid_and_attr_from_privilege (find_privilege ps l))"
  by (induction reqs) (auto split: option.splits dest: find_privilege_luid)

lemma adjust_loop_mods:
  assumes "changes_only reqs" and "length reqs \<le> room"
  shows "fst (snd (adjust_loop reqs t room mods err)) =
    mods @ saved_states (tk_privileges t) reqs"
  using assms
proof (induction reqs arbitrary: t room mods err)
  case Nil
  then show ?case by simp
next
  case (Cons r reqs)
  have co: "changes_only reqs" and le: "length reqs \<le> room - 1" "length reqs \<le> room" "room \<noteq> 0"
    using Cons.prems by (auto simp: changes_only_def)
  have other: "la_luid x \<noteq> la_luid r" if "x \<in> set reqs" for x
    using Cons.prems(1) imageI [OF that, of la_luid] by (auto simp: changes_only_def)
  have "saved_states (change_privilege (set_enabled e) (la_luid r) ps) reqs = saved_states ps reqs" for e ps
    using other by (intro saved_states_change) auto
  then show ?case
    using Cons.prems le Cons.IH [OF co le(1)] Cons.IH [OF co le(2)]
    by (auto simp: token_find_privilege_def changes_only_def split: option.splits)
qed

lemma luid_and_attr_enabled:
  "la_attrs (luid_and_attr_from_privilege p) AND SE_PRIVILEGE_ENABLED \<noteq> 0 \<longleftrightarrow> pr_enabled p"
  by (auto simp: luid_and_attr_from_privilege_def)

lemma adjust_loop_privileges:
  "tk_privileges x = tk_privileges y \<Longrightarrow>
   tk_privileges (fst (adjust_loop rs x n ms e)) = tk_privileges (fst (adjust_loop rs y n ms e))"
proof (induction rs arbitrary: x y n ms e)
  case (Cons r rs)
  show ?case
    using Cons.prems by (auto simp: token_find_privilege_def split: option.splits intro!: Cons.IH)
qed simp

lemma adjust_loop_restore:
  assumes "changes_only reqs" and "length reqs \<le> room" and "distinct (map pr_luid (tk_privileges t))"
    and first: "adjust_loop reqs t room [] err = (t1, mods, err1)"
  shows "tk_privileges (fst (adjust_loop mods t1 room' mods' err')) = tk_privileges t"
proof -
  let ?ps = "tk_privileges t"
  have t1: "t1 = fst (adjust_loop reqs t room [] err)" using first by simp
  have mods: "mods = saved_states ?ps reqs"
    using adjust_loop_mods [OF assms(1,2), of t "[]" err] first by simp
  with mods_changes_only [OF assms(1)] have co: "changes_only mods" by simp
  let ?t2 = "fst (adjust_loop mods t1 room' mods' err')"
  have frame: "map (\<lambda>p. (pr_luid p, pr_def p)) (tk_privileges ?t2) = map (\<lambda>p. (pr_luid p, pr_def p)) ?ps"
    using adjust_loop_frame [of mods t1 room' mods' err'] adjust_loop_frame [of reqs t room "[]" err]
      co assms(1) t1 by (simp add: changes_only_def)
  have "map pr_luid (tk_privileges ?t2) = map pr_luid ?ps"
    using arg_cong [OF frame, of "map fst"] by (simp add: comp_def)
  then have dist: "distinct (map pr_luid (tk_privileges ?t2))" using assms(3) by simp
  have "priv_state (tk_privileges ?t2) l = priv_state ?ps l" for l
    unfolding adjust_loop_state [OF co] t1 adjust_loop_state [OF assms(1)]
    by (auto simp: mods find_mods luid_and_attr_enabled priv_state_def split: option.splits)
  with frame dist show ?thesis by (rule privileges_eqI)
qed

section \<open>Properties\<close>

text \<open>A token, its group and a descriptor for the concrete instances below.\<close>

definition sample_sid :: "u32 \<Rightarrow> sid" where
  "sample_sid n = \<lparr>sid_revision = 1, id_auth = [0, 0, 0, 0, 0, 5], sub_auth = [n]\<rparr>"

definition sample_token :: token where
  "sample_token = \<lparr>token_id = \<lparr>low_part = 1001, high_part = 0\<rparr>, modified_id = \<lparr>low_part = 1002, high_part = 0\<rparr>,
     tk_privileges = [\<lparr>pr_luid = SeSecurityPrivilege, pr_enabled = False, pr_def = False\<rparr>,
                      \<lparr>pr_luid = \<lparr>low_part = 23, high_part = 0\<rparr>, pr_enabled = True, pr_def = True\<rparr>],
     tk_groups = [\<lparr>gr_attrs = 7, gr_sid = sample_sid 32\<rparr>], tk_user = sample_sid 1000,
     tk_owner = Some 0, tk_primary_group = Some 0, tk_primary = True, tk_session_id = 1,
     tk_default_dacl = None, tk_impersonation_level = - 1, tk_elevation = 0, tk_sd = None\<rparr>"

definition sample_map :: generic_map where
  "sample_map = \<lparr>gm_read = 1, gm_write = 2, gm_exec = 4, gm_all = 7\<rparr>"

definition sample_acl :: "ace list \<Rightarrow> acl" where
  "sample_acl aces = \<lparr>acl_revision = 2, acl_size = of_nat (8 + aces_size aces), acl_aces = aces\<rparr>"

definition sample_sd :: "ace list \<Rightarrow> security_descriptor" where
  "sample_sd aces = \<lparr>sd_control = SE_DACL_PRESENT, sd_owner = Some (sample_sid 500),
     sd_group = Some (sample_sid 501), sd_sacl = None, sd_dacl = Some (sample_acl aces)\<rparr>"

lemmas sample_defs = sample_sid_def sample_token_def sample_map_def sample_acl_def sample_sd_def
  set_ace_def sid_len_def sd_get_owner_def sd_get_group_def sd_get_dacl_def

text \<open>
  (C13) Soundness of the access check. When \<^verbatim>\<open>token_access_check\<close> on an object with a
  discretionary list reports success for ordinary rights (no maximum-allowed request),
  the granted rights are exactly the wanted ones and each of them is justified: it is a
  right of the owner and the token is the owner, or it is access to the audit list and
  the token holds the enabled security privilege, or the first applicable entry of the
  list that names the right is an allowing one.
\<close>

theorem token_access_check_sound:
  assumes "ar_ret (token_access_check t sd desired pc m) = STATUS_SUCCESS"
    and "ar_status (token_access_check t sd desired pc m) = Some STATUS_SUCCESS"
    and "desired AND MAXIMUM_ALLOWED = 0" and "sd_get_dacl sd = (Some dacl, True)"
    and "sd_get_owner sd = Some owner"
  shows "ar_granted (token_access_check t sd desired pc m) = desired \<and>
    (\<forall>b. bit desired b \<longrightarrow> right_allowed t m owner (acl_aces dacl) b)"
proof (cases "pc = Some 0")
  case False
  then show ?thesis using assms by (intro access_check_sound_aux) auto
next
  case True
  with assms access_check_room [OF assms(4)] have "desired AND ACCESS_SYSTEM_SECURITY = 0" by auto
  then show ?thesis
    using assms access_check_sound_aux [of t sd desired None m dacl owner]
      access_check_room_irrelevant [of desired t sd pc m] by simp
qed

theorem token_access_check_sound_witness:
  "let a = set_ace (sample_sid 32) ACCESS_ALLOWED_ACE_TYPE 0 GENERIC_READ
   in ar_granted (token_access_check sample_token (sample_sd [a]) 1 None sample_map) = 1 \<and>
      right_allowed sample_token sample_map (sample_sid 500) [a] 0"
proof -
  let ?a = "set_ace (sample_sid 32) ACCESS_ALLOWED_ACE_TYPE 0 GENERIC_READ"
  let ?r = "token_access_check sample_token (sample_sd [?a]) 1 None sample_map"
  have run: "ar_ret ?r = STATUS_SUCCESS" "ar_status ?r = Some STATUS_SUCCESS"
    by (simp_all add: token_access_check_def dacl_check_def map_access_def token_sid_present_def
        sample_defs Let_def)
  have sd: "sd_get_dacl (sample_sd [?a]) = (Some (sample_acl [?a]), True)"
    "sd_get_owner (sample_sd [?a]) = Some (sample_sid 500)" "acl_aces (sample_acl [?a]) = [?a]"
    by (simp_all add: sample_defs)
  show ?thesis
    using token_access_check_sound [OF run _ sd(1,2)] sd(3) by (auto simp: bit_1_iff)
qed

text \<open>
  (C14) Completeness of the access check. If no applicable denying entry names a wanted
  right, then every request for ordinary rights that the owner rule, the security
  privilege and the first-match reading of the list justify is granted in full.
\<close>

theorem token_access_check_complete:
  assumes "desired AND GENERIC_MASK = 0" and "desired AND MAXIMUM_ALLOWED = 0" and "desired \<noteq> 0"
    and "sd_get_dacl sd = (Some dacl, True)" and "sd_get_owner sd = Some owner"
    and "sd_get_group sd = Some g" and "pc \<noteq> Some 0"
    and "\<forall>a\<in>set (acl_aces dacl). ace_denies t a \<longrightarrow> desired AND map_access (ace_mask a) m = 0"
    and "\<forall>b. bit desired b \<longrightarrow> right_allowed t m owner (acl_aces dacl) b"
    and "desired AND ACCESS_SYSTEM_SECURITY \<noteq> 0 \<longrightarrow> holds_security_privilege t"
  shows "ar_granted (token_access_check t sd desired pc m) = desired \<and>
    ar_status (token_access_check t sd desired pc m) = Some STATUS_SUCCESS"
proof -
  have g: "ar_granted (token_access_check t sd desired pc m) = desired"
    using assms by (intro access_check_complete_aux) auto
  moreover have "ar_status (token_access_check t sd desired pc m) = Some STATUS_SUCCESS"
    using access_check_via_dacl [OF assms(1,5,6,4,7), of t m, unfolded Let_def] g assms(3,10)
    by (auto split: if_splits)
  ultimately show ?thesis by simp
qed

theorem token_access_check_complete_witness:
  "let a = set_ace (sample_sid 32) ACCESS_ALLOWED_ACE_TYPE 0 3
   in ar_granted (token_access_check sample_token (sample_sd [a]) 1 None sample_map) = 1"
proof -
  have one: "bit (1 :: u32) b \<longleftrightarrow> b = 0" for b by (simp add: bit_1_iff)
  show ?thesis
    using token_access_check_complete [of 1
        "sample_sd [set_ace (sample_sid 32) ACCESS_ALLOWED_ACE_TYPE 0 3]"
        "sample_acl [set_ace (sample_sid 32) ACCESS_ALLOWED_ACE_TYPE 0 3]" "sample_sid 500" "sample_sid 501"
        None sample_token sample_map]
    by (simp add: sample_defs one right_allowed_def ace_denies_def ace_allows_def map_access_def
        token_sid_present_def Let_def)
qed

text \<open>
  (C15) A maximum-allowed request without audit access is answered exactly: the granted
  rights are those of the owner rule and of all applicable allowing entries, minus those
  of all applicable denying entries, wherever they stand in the list; success is reported
  exactly when some right remains.
\<close>

theorem token_access_check_maximum:
  assumes "desired AND MAXIMUM_ALLOWED \<noteq> 0" and "desired AND GENERIC_MASK = 0"
    and "desired AND ACCESS_SYSTEM_SECURITY = 0"
    and "sd_get_owner sd = Some owner" and "sd_get_group sd = Some g"
    and "sd_get_dacl sd = (Some dacl, True)"
  shows "(bit (ar_granted (token_access_check t sd desired pc m)) b \<longleftrightarrow>
      (token_sid_present t owner False \<and> bit OWNER_RIGHTS b \<or>
       (\<exists>a\<in>set (acl_aces dacl). ace_allows t a \<and> bit (map_access (ace_mask a) m) b)) \<and>
      \<not> (\<exists>a\<in>set (acl_aces dacl). ace_denies t a \<and> bit (map_access (ace_mask a) m) b)) \<and>
    (ar_status (token_access_check t sd desired pc m) = Some STATUS_SUCCESS \<longleftrightarrow>
     ar_granted (token_access_check t sd desired pc m) \<noteq> 0)"
proof -
  let ?r = "token_access_check t sd desired"
  let ?c = "if token_sid_present t owner False then OWNER_RIGHTS else 0"
  have ne: "desired \<noteq> OWNER_RIGHTS" using assms(1) by auto
  have via: "ar_granted (?r None m) = dacl_check t m desired (acl_aces dacl) owner 0"
    and st: "ar_status (?r None m) = Some STATUS_SUCCESS \<longleftrightarrow> ar_granted (?r None m) \<noteq> 0"
    using access_check_via_dacl [OF assms(2,4,5,6), of None t m, unfolded Let_def] assms(3) by auto
  have granted: "ar_granted (?r None m) = fst (dacl_loop t m desired (acl_aces dacl) ?c 0)
      AND NOT (snd (dacl_loop t m desired (acl_aces dacl) ?c 0))"
    unfolding via using assms(1) ne by (auto simp: dacl_check_def Let_def split: prod.splits)
  have len: "bit (fst (dacl_loop t m desired (acl_aces dacl) ?c 0)) b \<Longrightarrow> b < 32"
    using bit_imp_le_length by force
  have "bit (ar_granted (?r None m)) b \<longleftrightarrow>
      bit (fst (dacl_loop t m desired (acl_aces dacl) ?c 0)) b \<and>
      \<not> bit (snd (dacl_loop t m desired (acl_aces dacl) ?c 0)) b"
    unfolding granted using len by (auto simp: bit_and_iff bit_not_iff)
  then show ?thesis
    unfolding dacl_loop_maximum [OF assms(1)]
    using st access_check_room_irrelevant [OF assms(3), of t sd pc m] by auto
qed

theorem token_access_check_maximum_witness:
  "let a = set_ace (sample_sid 32) ACCESS_ALLOWED_ACE_TYPE 0 3;
       d = set_ace (sample_sid 1000) ACCESS_DENIED_ACE_TYPE 0 1
   in bit (ar_granted (token_access_check sample_token (sample_sd [a, d]) MAXIMUM_ALLOWED None sample_map)) 1
      \<and> \<not> bit (ar_granted (token_access_check sample_token (sample_sd [a, d]) MAXIMUM_ALLOWED None sample_map)) 0"
proof -
  let ?a = "set_ace (sample_sid 32) ACCESS_ALLOWED_ACE_TYPE 0 3"
  let ?d = "set_ace (sample_sid 1000) ACCESS_DENIED_ACE_TYPE 0 1"
  let ?r = "token_access_check sample_token (sample_sd [?a, ?d]) MAXIMUM_ALLOWED None sample_map"
  have sd: "sd_get_owner (sample_sd [?a, ?d]) = Some (sample_sid 500)"
    "sd_get_group (sample_sd [?a, ?d]) = Some (sample_sid 501)"
    "sd_get_dacl (sample_sd [?a, ?d]) = (Some (sample_acl [?a, ?d]), True)"
    "acl_aces (sample_acl [?a, ?d]) = [?a, ?d]"
    by (simp_all add: sample_defs)
  have allows: "ace_allows sample_token ?a" "\<not> ace_allows sample_token ?d"
    "\<not> ace_denies sample_token ?a" "ace_denies sample_token ?d"
    by (simp_all add: ace_allows_def ace_denies_def token_sid_present_def sample_defs)
  have masks: "map_access (ace_mask ?a) sample_map = 3" "map_access (ace_mask ?d) sample_map = 1"
    by (simp_all add: map_access_def set_ace_def)
  have bits: "bit (3 :: u32) 1" "\<not> bit (1 :: u32) 1" "bit (1 :: u32) 0"
    by (simp_all add: bit_numeral_rec(2) bit_1_iff)
  have "bit (ar_granted ?r) 1" "\<not> bit (ar_granted ?r) 0"
    using token_access_check_maximum [of MAXIMUM_ALLOWED, OF _ _ _ sd(1-3), of sample_token None sample_map 1]
      token_access_check_maximum [of MAXIMUM_ALLOWED, OF _ _ _ sd(1-3), of sample_token None sample_map 0]
      allows masks bits
    unfolding sd(4) by simp_all
  then show ?thesis by (simp add: Let_def)
qed



text \<open>
  (C33) A group that a restricted token keeps for deny only no longer takes part in
  denying: its enabled flag is cleared together with the deny-only flag being set, and
  \<^verbatim>\<open>token_sid_present\<close> skips groups that are not enabled even when it looks for
  denying entries. A denying entry for such a group therefore never applies.
\<close>

theorem deny_only_group_not_denied:
  assumes "token_duplicate obj_ok mem_ok prev ptok src primary level sd rp rg = (Ok t, prev')"
    and "ace_sid a \<in> set rg" and "ace_sid a \<noteq> tk_user src"
  shows "\<not> ace_denies t a"
  using assms(2,3)
  by (auto simp: ace_denies_def token_sid_present_def token_duplicate_Ok [OF assms(1)]
      restrict_group_enabled filter_group_def)

theorem deny_only_group_not_denied_witness:
  "let r = token_duplicate True True \<lparr>low_part = 1002, high_part = 0\<rparr> None sample_token True 0 None [] [sample_sid 32];
       a = set_ace (sample_sid 32) ACCESS_DENIED_ACE_TYPE 0 1
   in ace_denies sample_token a \<and> (\<exists>t. fst r = Ok t \<and> \<not> ace_denies t a)"
proof -
  let ?a = "set_ace (sample_sid 32) ACCESS_DENIED_ACE_TYPE 0 1"
  obtain t prev' where d: "token_duplicate True True \<lparr>low_part = 1002, high_part = 0\<rparr> None sample_token
      True 0 None [] [sample_sid 32] = (Ok t, prev')"
    by (simp add: token_duplicate_def create_token_def sample_defs Let_def)
  have "\<not> ace_denies t ?a"
    using deny_only_group_not_denied [OF d, of ?a] by (simp add: sample_defs)
  moreover have "ace_denies sample_token ?a"
    by (simp add: ace_denies_def token_sid_present_def sample_defs)
  ultimately show ?thesis using d by (simp add: Let_def)
qed

text \<open>
  Adjusting privileges can be undone: when no privilege is removed, the requested
  privileges are distinct and the caller asked for all previous states, applying
  \<^verbatim>\<open>token_adjust_privileges\<close> again with the returned previous states gives back
  exactly the privileges the token had.
\<close>

theorem token_adjust_privileges_undo:
  assumes "changes_only reqs" and "length reqs \<le> room" and "distinct (map pr_luid (tk_privileges t))"
    and "token_adjust_privileges prev t reqs room = ((t1, mods, err), prev1)"
    and "token_adjust_privileges prev1 t1 mods room' = ((t2, mods2, err2), prev2)"
  shows "tk_privileges t2 = tk_privileges t"
proof -
  let ?t = "t\<lparr>modified_id := allocate_luid prev\<rparr>" and ?t1 = "t1\<lparr>modified_id := allocate_luid prev1\<rparr>"
  have same: "tk_privileges (fst (adjust_loop rs (x\<lparr>modified_id := i\<rparr>) n ms e)) =
      tk_privileges (fst (adjust_loop rs x n ms e))" for rs x i n ms e
    by (rule adjust_loop_privileges) simp
  have "adjust_loop reqs ?t room [] STATUS_SUCCESS = (t1, mods, err)"
    using assms(4) by (auto simp: token_adjust_privileges_def Let_def)
  from adjust_loop_restore [OF assms(1,2) _ this, of room' "[]" STATUS_SUCCESS] assms(3)
  have "tk_privileges (fst (adjust_loop mods t1 room' [] STATUS_SUCCESS)) = tk_privileges t" by simp
  moreover have "t2 = fst (adjust_loop mods ?t1 room' [] STATUS_SUCCESS)"
    using assms(5) by (auto simp: token_adjust_privileges_def Let_def)
  ultimately show ?thesis by (simp add: same)
qed

theorem token_adjust_privileges_undo_witness:
  "let reqs = [\<lparr>la_luid = SeSecurityPrivilege, la_attrs = SE_PRIVILEGE_ENABLED\<rparr>];
       ((t1, mods, err), prev1) = token_adjust_privileges \<lparr>low_part = 7, high_part = 0\<rparr> sample_token reqs 1;
       ((t2, mods2, err2), prev2) = token_adjust_privileges prev1 t1 mods 1
   in privilege_held t1 (hd reqs) \<and> tk_privileges t2 = tk_privileges sample_token"
proof -
  let ?reqs = "[\<lparr>la_luid = SeSecurityPrivilege, la_attrs = SE_PRIVILEGE_ENABLED\<rparr>]"
  obtain t1 mods err prev1 where one: "token_adjust_privileges \<lparr>low_part = 7, high_part = 0\<rparr> sample_token ?reqs 1
      = ((t1, mods, err), prev1)" by (metis prod.collapse)
  obtain t2 mods2 err2 prev2 where two: "token_adjust_privileges prev1 t1 mods 1 = ((t2, mods2, err2), prev2)"
    by (metis prod.collapse)
  have "changes_only ?reqs" "distinct (map pr_luid (tk_privileges sample_token))"
    by (simp_all add: changes_only_def sample_defs SeSecurityPrivilege_def)
  then have "tk_privileges t2 = tk_privileges sample_token"
    using token_adjust_privileges_undo [OF _ _ _ one two] by simp
  moreover have "privilege_held t1 (hd ?reqs)"
    using one by (auto simp: token_adjust_privileges_def token_find_privilege_def privilege_held_def
        sample_defs Let_def)
  ultimately show ?thesis using one two by (simp add: Let_def)
qed



text \<open>
  Every descriptor that \<^verbatim>\<open>set_sd_from_token_internal\<close> builds under a token is
  complete: it has an owner and a group and is marked as having a discretionary list, so
  a later access check never fails for lack of them; and a list, owner or group that the
  caller supplies and selects is stored unchanged.
\<close>

theorem set_sd_complete:
  assumes "set_sd_from_token_internal mem_ok sd old info (Some tok) = Ok new"
  shows "sd_get_owner new \<noteq> None \<and> sd_get_group new \<noteq> None \<and> snd (sd_get_dacl new) \<and>
    (info AND OWNER_SECURITY_INFORMATION \<noteq> 0 \<and> sd_owner sd \<noteq> None \<longrightarrow> sd_owner new = sd_owner sd) \<and>
    (info AND GROUP_SECURITY_INFORMATION \<noteq> 0 \<and> sd_group sd \<noteq> None \<longrightarrow> sd_group new = sd_group sd) \<and>
    (info AND DACL_SECURITY_INFORMATION \<noteq> 0 \<and> snd (sd_get_dacl sd) \<longrightarrow> sd_dacl new = sd_dacl sd)"
proof -
  have ow: "new_owner get tget w sd old (Some tok) = Ok r \<Longrightarrow> r \<noteq> None \<and> (w \<and> get sd \<noteq> None \<longrightarrow> r = get sd)"
    for get tget w r
    by (auto simp: new_owner_def split: option.splits if_splits dest!: sym [of "Some _"])
  have da: "new_dacl info sd old (Some tok) = Ok (c, d) \<Longrightarrow> c = SE_DACL_PRESENT \<and>
      (info AND DACL_SECURITY_INFORMATION \<noteq> 0 \<and> snd (sd_get_dacl sd) \<longrightarrow> d = sd_dacl sd)" for c d
    by (auto simp: new_dacl_def token_dacl_def sd_get_dacl_def split: option.splits if_splits)
  have bits: "(x OR y OR SE_DACL_PRESENT) AND SE_DACL_PRESENT \<noteq> 0" for x y :: u32
  proof -
    have "(x OR y OR SE_DACL_PRESENT) AND SE_DACL_PRESENT = SE_DACL_PRESENT"
      by (rule bit_eqI) (auto simp: bit_and_iff bit_or_iff)
    then show ?thesis by simp
  qed
  obtain ow gr cs sacl cd dacl where
    o: "new_owner sd_get_owner token_get_owner (info AND OWNER_SECURITY_INFORMATION \<noteq> 0) sd old (Some tok) = Ok ow"
    and g: "new_owner sd_get_group token_get_primary_group (info AND GROUP_SECURITY_INFORMATION \<noteq> 0) sd old (Some tok) = Ok gr"
    and d: "new_dacl info sd old (Some tok) = Ok (cd, dacl)"
    and n: "new = \<lparr>sd_control = (sd_control sd AND NOT SE_SELF_RELATIVE) OR cs OR cd,
                 sd_owner = ow, sd_group = gr, sd_sacl = sacl, sd_dacl = dacl\<rparr>"
    using assms by (auto simp: set_sd_from_token_internal_def split: outcome.splits if_splits prod.splits)
  show ?thesis
    using ow [OF o] ow [OF g] da [OF d] bits
    unfolding n sd_get_owner_def sd_get_group_def sd_get_dacl_def by simp
qed

theorem set_sd_complete_witness:
  "\<exists>new. set_sd_from_token_internal True (sample_sd []) None DACL_SECURITY_INFORMATION (Some sample_token) = Ok new \<and>
     sd_get_owner new \<noteq> None \<and> sd_dacl new = Some (sample_acl [])"
proof -
  obtain new where n: "set_sd_from_token_internal True (sample_sd []) None DACL_SECURITY_INFORMATION
      (Some sample_token) = Ok new"
    by (simp add: set_sd_from_token_internal_def new_owner_def new_sacl_def new_dacl_def token_get_owner_def
        token_get_primary_group_def sd_get_sacl_def sample_defs)
  show ?thesis using set_sd_complete [OF n] n by (simp add: sample_defs)
qed

text \<open>
  A token whose default list was removed (\<^verbatim>\<open>set_token_default_dacl\<close> with no data)
  makes the next descriptor built from it without a discretionary list read through a
  null pointer.
\<close>

theorem set_sd_null_default_dacl:
  assumes "tk_default_dacl tok = None" and "token_get_owner tok \<noteq> None"
    and "token_get_primary_group tok \<noteq> None" and "info AND DACL_SECURITY_INFORMATION = 0"
    and "info AND LABEL_SECURITY_INFORMATION = 0"
  shows "set_sd_from_token_internal True sd None info (Some tok) = Fault"
  using assms
  by (auto simp: set_sd_from_token_internal_def new_owner_def new_sacl_def new_dacl_def token_dacl_def
      token_get_default_dacl_def split: prod.splits outcome.splits)

theorem set_sd_null_default_dacl_witness:
  "set_sd_from_token_internal True (sample_sd []) None OWNER_SECURITY_INFORMATION (Some sample_token) = Fault"
  using set_sd_null_default_dacl [of sample_token OWNER_SECURITY_INFORMATION "sample_sd []"]
  by (simp add: sample_defs token_get_owner_def token_get_primary_group_def)

end
