(* ===== verification/Handle_Array.thy ===== *)
theory Handle_Array
  imports Prelude
begin

text \<open>
  The array behind a handle table of \<^verbatim>\<open>server/handle.c\<close>: allocating the first free
  entry with the help of a free hint, freeing an entry, growing and shrinking. It
  satisfies the contract of handle allocators.

  Objects are identified by numbers. An entry that was allocated but never written is
  a separate constructor: the code must not read it. The success of an allocation for a
  given number of entries is the argument \<open>mem_ok\<close>.
\<close>

type_synonym obj_id = nat
type_synonym proc_id = nat
type_synonym obj_handle = u32

abbreviation "RESERVED_INHERIT \<equiv> 0x04000000 :: u32"
abbreviation "RESERVED_CLOSE_PROTECT \<equiv> 0x08000000 :: u32"
abbreviation "RESERVED_ALL \<equiv> 0x0c000000 :: u32"
abbreviation "RESERVED_SHIFT \<equiv> 26 :: nat"
abbreviation "MIN_HANDLE_ENTRIES \<equiv> 32 :: nat"
abbreviation "MAX_HANDLE_ENTRIES \<equiv> 0x00ffffff :: nat"
abbreviation "HANDLE_OBFUSCATOR \<equiv> 0x544a4def :: u32"

section \<open>The array of entries\<close>

datatype handle_entry = Uninit | Slot (entry_ptr: "obj_id option") (entry_access: u32)

record handle_table =
  ht_process :: "proc_id option"
  ht_count :: nat
  ht_last :: int
  ht_free :: nat
  ht_entries :: "handle_entry list"

definition is_null :: "handle_entry \<Rightarrow> bool" where
  "is_null e = (case e of Slot None _ \<Rightarrow> True | _ \<Rightarrow> False)"

definition alloc_handle_table :: "(nat \<Rightarrow> bool) \<Rightarrow> proc_id option \<Rightarrow> nat \<Rightarrow> handle_table option" where
  "alloc_handle_table mem_ok process count0 =
     (let count = (if count0 < MIN_HANDLE_ENTRIES then MIN_HANDLE_ENTRIES else count0)
      in if mem_ok count
         then Some \<lparr>ht_process = process, ht_count = count, ht_last = - 1, ht_free = 0,
                    ht_entries = replicate count Uninit\<rparr>
         else None)"

definition grow_handle_table :: "(nat \<Rightarrow> bool) \<Rightarrow> handle_table \<Rightarrow> handle_table option" where
  "grow_handle_table mem_ok t =
     (let count = min (ht_count t * 2) MAX_HANDLE_ENTRIES
      in if count = ht_count t \<or> \<not> mem_ok count then None
         else Some (t\<lparr>ht_count := count,
                      ht_entries := ht_entries t @ replicate (count - ht_count t) Uninit\<rparr>))"

text \<open>
  \<^verbatim>\<open>alloc_entry\<close> without the counting of references: the index of the entry and the new
  table, or \<open>None\<close> with the error \<^verbatim>\<open>STATUS_INSUFFICIENT_RESOURCES\<close>.
\<close>

definition alloc_entry :: "(nat \<Rightarrow> bool) \<Rightarrow> handle_table \<Rightarrow> obj_id \<Rightarrow> u32 \<Rightarrow> (nat \<times> handle_table) option" where
  "alloc_entry mem_ok t obj acc =
     (let i = scan (\<lambda>i. is_null (ht_entries t ! i)) (ht_free t) (nat (ht_last t + 1))
      in if int i \<le> ht_last t
         then Some (i, t\<lparr>ht_free := i + 1, ht_entries := (ht_entries t)[i := Slot (Some obj) acc]\<rparr>)
         else case (if ht_count t \<le> i then grow_handle_table mem_ok t else Some t) of
                None \<Rightarrow> None
              | Some t' \<Rightarrow> Some (i, t'\<lparr>ht_last := int i, ht_free := i + 1,
                                       ht_entries := (ht_entries t')[i := Slot (Some obj) acc]\<rparr>))"

text \<open>The loop of \<^verbatim>\<open>shrink_handle_table\<close>, on the number of entries up to the last one.\<close>

fun shrink_last :: "handle_entry list \<Rightarrow> nat \<Rightarrow> nat" where
  "shrink_last es 0 = 0"
| "shrink_last es (Suc n) = (if is_null (es ! n) then shrink_last es n else Suc n)"

definition shrink_handle_table :: "(nat \<Rightarrow> bool) \<Rightarrow> handle_table \<Rightarrow> handle_table" where
  "shrink_handle_table mem_ok t =
     (let last' = int (shrink_last (ht_entries t) (nat (ht_last t + 1))) - 1;
          t' = t\<lparr>ht_last := last'\<rparr>;
          count = ht_count t
      in if last' \<ge> int (count div 4) then t'
         else if count < MIN_HANDLE_ENTRIES * 2 then t'
         else if \<not> mem_ok (count div 2) then t'
         else t'\<lparr>ht_count := count div 2, ht_entries := take (count div 2) (ht_entries t)\<rparr>)"

text \<open>The part of \<^verbatim>\<open>close_handle\<close> that frees the entry.\<close>

definition clear_entry :: "(nat \<Rightarrow> bool) \<Rightarrow> handle_table \<Rightarrow> nat \<Rightarrow> handle_table" where
  "clear_entry mem_ok t i =
     (let t1 = t\<lparr>ht_entries := (ht_entries t)[i := Slot None (entry_access (ht_entries t ! i))]\<rparr>;
          t2 = (if i < ht_free t1 then t1\<lparr>ht_free := i\<rparr> else t1)
      in if int i = ht_last t2 then shrink_handle_table mem_ok t2 else t2)"

definition find_entry :: "handle_table \<Rightarrow> nat \<Rightarrow> (obj_id \<times> u32) option" where
  "find_entry t i =
     (if int i \<le> ht_last t
      then (case ht_entries t ! i of Slot (Some obj) acc \<Rightarrow> Some (obj, acc) | _ \<Rightarrow> None)
      else None)"

section \<open>The invariant of a table\<close>

definition table_ok :: "handle_table \<Rightarrow> bool" where
  "table_ok t \<longleftrightarrow>
     length (ht_entries t) = ht_count t \<and>
     MIN_HANDLE_ENTRIES \<le> ht_count t \<and> ht_count t \<le> MAX_HANDLE_ENTRIES \<and>
     - 1 \<le> ht_last t \<and> ht_last t < int (ht_count t) \<and>
     int (ht_free t) \<le> ht_last t + 1 \<and>
     (\<forall>i < ht_free t. find_entry t i \<noteq> None) \<and>
     (\<forall>i. int i \<le> ht_last t \<longrightarrow> ht_entries t ! i \<noteq> Uninit)"

lemma is_null_iff: "is_null e \<longleftrightarrow> (\<exists>a. e = Slot None a)"
  by (auto simp: is_null_def split: handle_entry.splits option.splits)

lemma find_entry_None:
  "table_ok t \<Longrightarrow> int i \<le> ht_last t \<Longrightarrow> find_entry t i = None \<longleftrightarrow> is_null (ht_entries t ! i)"
  by (auto simp: find_entry_def is_null_def table_ok_def split: handle_entry.splits option.splits)

lemma alloc_handle_table_ok:
  "alloc_handle_table mem_ok p n = Some t \<Longrightarrow> n \<le> MAX_HANDLE_ENTRIES \<Longrightarrow>
   table_ok t \<and> find_entry t = Map.empty \<and> ht_process t = p"
  by (auto simp: alloc_handle_table_def table_ok_def find_entry_def Let_def split: if_splits)

lemma grow_handle_table_props:
  assumes "table_ok t" and "grow_handle_table mem_ok t = Some t'"
  shows "ht_last t' = ht_last t" "ht_free t' = ht_free t" "ht_process t' = ht_process t"
    "ht_count t < ht_count t'" "ht_count t' \<le> MAX_HANDLE_ENTRIES"
    "length (ht_entries t') = ht_count t'" "\<And>i. i < ht_count t \<Longrightarrow> ht_entries t' ! i = ht_entries t ! i"
  using assms by (auto simp: grow_handle_table_def table_ok_def Let_def nth_append split: if_splits)

lemma alloc_entry_index:
  assumes "table_ok t" and "alloc_entry mem_ok t obj acc = Some (i, t')"
  shows "int i \<le> ht_last t + 1" and "int i \<le> ht_last t \<Longrightarrow> is_null (ht_entries t ! i)"
    and "\<forall>j < i. find_entry t j \<noteq> None"
proof -
  let ?P = "\<lambda>i. is_null (ht_entries t ! i)" and ?n = "nat (ht_last t + 1)"
  let ?i = "scan ?P (ht_free t) ?n"
  have i: "i = ?i" using assms(2) by (auto simp: alloc_entry_def Let_def split: if_splits option.splits)
  have fr: "ht_free t \<le> ?n" using assms(1) by (auto simp: table_ok_def)
  have le: "ht_free t \<le> i" "i \<le> ?n" using scan_ge [of "ht_free t" ?P ?n] scan_le [OF fr, of ?P] i by auto
  then show "int i \<le> ht_last t + 1" using assms(1) by (auto simp: table_ok_def)
  show "is_null (ht_entries t ! i)" if "int i \<le> ht_last t"
    using scan_found [of ?P "ht_free t" ?n] i that by simp
  have "find_entry t j \<noteq> None" if "j < i" for j
  proof (cases "j < ht_free t")
    case True
    then show ?thesis using assms(1) by (simp add: table_ok_def)
  next
    case False
    then have "\<not> ?P j" using scan_before [of "ht_free t" j ?P ?n] that i by auto
    then show ?thesis using find_entry_None [OF assms(1), of j] that le by auto
  qed
  then show "\<forall>j < i. find_entry t j \<noteq> None" by simp
qed

text \<open>Both ways of allocating have the same shape: a possibly grown table with one entry set.\<close>

lemma alloc_entry_shape:
  assumes "table_ok t" and "alloc_entry mem_ok t obj acc = Some (i, t')"
  obtains t1 where "t' = t1\<lparr>ht_last := max (ht_last t) (int i), ht_free := i + 1,
      ht_entries := (ht_entries t1)[i := Slot (Some obj) acc]\<rparr>"
    "length (ht_entries t1) = ht_count t1" "ht_count t \<le> ht_count t1" "ht_count t1 \<le> MAX_HANDLE_ENTRIES"
    "i < ht_count t1" "ht_process t1 = ht_process t"
    "\<And>j. int j \<le> ht_last t \<Longrightarrow> ht_entries t1 ! j = ht_entries t ! j"
proof (cases "int i \<le> ht_last t")
  case True
  then have "t' = t\<lparr>ht_last := max (ht_last t) (int i), ht_free := i + 1,
      ht_entries := (ht_entries t)[i := Slot (Some obj) acc]\<rparr>"
    using assms(2) by (auto simp: alloc_entry_def Let_def max_def split: if_splits option.splits)
  then show thesis using that [of t] True assms(1) by (auto simp: table_ok_def)
next
  case False
  then have i: "int i = ht_last t + 1" using alloc_entry_index(1) [OF assms] by simp
  obtain t1 where t1: "(if ht_count t \<le> i then grow_handle_table mem_ok t else Some t) = Some t1"
    and t': "t' = t1\<lparr>ht_last := int i, ht_free := i + 1, ht_entries := (ht_entries t1)[i := Slot (Some obj) acc]\<rparr>"
    using assms(2) False by (auto simp: alloc_entry_def Let_def split: option.splits if_splits)
  have mx: "max (ht_last t) (int i) = int i" using False by simp
  show thesis
  proof (cases "ht_count t \<le> i")
    case True
    then have g: "grow_handle_table mem_ok t = Some t1" using t1 by simp
    note gp = grow_handle_table_props [OF assms(1) g]
    have "int j \<le> ht_last t \<Longrightarrow> ht_entries t1 ! j = ht_entries t ! j" for j
      using gp(7) [of j] assms(1) by (simp add: table_ok_def)
    moreover have "i < ht_count t1" using i gp(4) assms(1) by (simp add: table_ok_def)
    ultimately show thesis using that [of t1] gp t' mx by simp
  next
    case False
    then show thesis using that [of t] t1 t' mx assms(1) by (simp add: table_ok_def)
  qed
qed

lemma alloc_entry_correct:
  assumes "table_ok t" and "alloc_entry mem_ok t obj acc = Some (i, t')"
  shows "table_ok t'" and "find_entry t i = None" and "find_entry t' = (find_entry t)(i \<mapsto> (obj, acc))"
    and "i < MAX_HANDLE_ENTRIES" and "ht_process t' = ht_process t"
    and "\<forall>j < i. find_entry t j \<noteq> None"
proof -
  note t = assms(1) [unfolded table_ok_def]
  note idx = alloc_entry_index [OF assms]
  obtain t1 where t': "t' = t1\<lparr>ht_last := max (ht_last t) (int i), ht_free := i + 1,
      ht_entries := (ht_entries t1)[i := Slot (Some obj) acc]\<rparr>"
    and t1: "length (ht_entries t1) = ht_count t1" "ht_count t \<le> ht_count t1" "ht_count t1 \<le> MAX_HANDLE_ENTRIES"
      "i < ht_count t1" "ht_process t1 = ht_process t"
    and same: "\<And>j. int j \<le> ht_last t \<Longrightarrow> ht_entries t1 ! j = ht_entries t ! j"
    using alloc_entry_shape [OF assms] by metis
  show "\<forall>j < i. find_entry t j \<noteq> None" by (rule idx)
  show "find_entry t i = None"
    using idx(2) find_entry_None [OF assms(1), of i] by (cases "int i \<le> ht_last t") (auto simp: find_entry_def)
  show "i < MAX_HANDLE_ENTRIES" "ht_process t' = ht_process t" using t1 t' by simp_all
  show find: "find_entry t' = (find_entry t)(i \<mapsto> (obj, acc))"
  proof
    fix j
    show "find_entry t' j = ((find_entry t)(i \<mapsto> (obj, acc))) j"
      using idx(1) t1(1,4) same [of j] by (auto simp: t' find_entry_def nth_list_update)
  qed
  have used: "\<forall>j < i + 1. find_entry t' j \<noteq> None"
    using idx(3) unfolding find by (auto simp: less_Suc_eq)
  have init: "ht_entries t' ! j \<noteq> Uninit" if "int j \<le> ht_last t'" for j
  proof (cases "j = i")
    case False
    then have "int j \<le> ht_last t" using that idx(1) by (auto simp: t' max_def split: if_splits)
    then show ?thesis using False same [of j] t by (simp add: t')
  qed (use t1 in \<open>simp add: t'\<close>)
  have "ht_last t' < int (ht_count t')" using t t1 by (simp add: t')
  with used init t t1 show "table_ok t'" by (simp add: table_ok_def t')
qed

lemma shrink_last_le: "shrink_last es n \<le> n"
  by (induction n) auto

lemma shrink_last_null: "shrink_last es n \<le> i \<Longrightarrow> i < n \<Longrightarrow> is_null (es ! i)"
  by (induction n) (auto simp: less_Suc_eq split: if_splits)

lemma shrink_last_used: "shrink_last es n = Suc k \<Longrightarrow> \<not> is_null (es ! k)"
  by (induction n) (auto split: if_splits)

lemma shrink_handle_table_props:
  assumes "length (ht_entries t) = ht_count t" "- 1 \<le> ht_last t" "ht_last t < int (ht_count t)"
  shows "find_entry (shrink_handle_table mem_ok t) = find_entry t"
    and "ht_free (shrink_handle_table mem_ok t) = ht_free t"
    and "ht_process (shrink_handle_table mem_ok t) = ht_process t"
    and "ht_last (shrink_handle_table mem_ok t) =
      int (shrink_last (ht_entries t) (nat (ht_last t + 1))) - 1"
    and "length (ht_entries (shrink_handle_table mem_ok t)) = ht_count (shrink_handle_table mem_ok t)"
    and "ht_last (shrink_handle_table mem_ok t) < int (ht_count (shrink_handle_table mem_ok t))"
    and "ht_count (shrink_handle_table mem_ok t) \<le> ht_count t"
    and "MIN_HANDLE_ENTRIES \<le> ht_count t \<Longrightarrow> MIN_HANDLE_ENTRIES \<le> ht_count (shrink_handle_table mem_ok t)"
    and "\<And>i. int i \<le> ht_last (shrink_handle_table mem_ok t) \<Longrightarrow>
      ht_entries (shrink_handle_table mem_ok t) ! i = ht_entries t ! i"
proof -
  let ?k = "shrink_last (ht_entries t) (nat (ht_last t + 1))"
  let ?t' = "shrink_handle_table mem_ok t"
  have k: "int ?k \<le> ht_last t + 1" using shrink_last_le [of "ht_entries t" "nat (ht_last t + 1)"] assms(2) by auto
  show last: "ht_last ?t' = int ?k - 1" and "ht_free ?t' = ht_free t" "ht_process ?t' = ht_process t"
    by (auto simp: shrink_handle_table_def Let_def)
  show "length (ht_entries ?t') = ht_count ?t'" "ht_count ?t' \<le> ht_count t"
    "MIN_HANDLE_ENTRIES \<le> ht_count t \<Longrightarrow> MIN_HANDLE_ENTRIES \<le> ht_count ?t'"
    using assms(1) by (auto simp: shrink_handle_table_def Let_def)
  show "ht_last ?t' < int (ht_count ?t')"
    using assms(3) k by (auto simp: shrink_handle_table_def Let_def)
  show entry: "ht_entries ?t' ! i = ht_entries t ! i" if "int i \<le> ht_last ?t'" for i
    using that assms(3) k by (auto simp: shrink_handle_table_def Let_def)
  show "find_entry ?t' = find_entry t"
  proof
    fix i
    consider "int i \<le> ht_last ?t'" | "ht_last ?t' < int i" "int i \<le> ht_last t" | "ht_last t < int i"
      by linarith
    then show "find_entry ?t' i = find_entry t i"
    proof cases
      case 1
      then show ?thesis using entry [OF 1] last k by (simp add: find_entry_def)
    next
      case 2
      then have "is_null (ht_entries t ! i)" using shrink_last_null [of "ht_entries t" "nat (ht_last t + 1)" i] last
        by auto
      with 2 show ?thesis by (auto simp: find_entry_def is_null_iff)
    next
      case 3
      then show ?thesis using last k by (simp add: find_entry_def)
    qed
  qed
qed

lemma shrink_handle_table_ok:
  assumes "length (ht_entries t) = ht_count t" "MIN_HANDLE_ENTRIES \<le> ht_count t" "ht_count t \<le> MAX_HANDLE_ENTRIES"
    "- 1 \<le> ht_last t" "ht_last t < int (ht_count t)" "\<forall>i < ht_free t. find_entry t i \<noteq> None"
    "\<forall>i. int i \<le> ht_last t \<longrightarrow> ht_entries t ! i \<noteq> Uninit"
  shows "table_ok (shrink_handle_table mem_ok t)"
proof -
  let ?t' = "shrink_handle_table mem_ok t"
  note p = shrink_handle_table_props [OF assms(1,4,5), where mem_ok = mem_ok]
  have le: "ht_last ?t' \<le> ht_last t" using p(4) shrink_last_le [of "ht_entries t" "nat (ht_last t + 1)"] assms(4) by auto
  have used: "\<forall>i < ht_free ?t'. find_entry ?t' i \<noteq> None" using p(1,2) assms(6) by simp
  have "int (ht_free ?t') \<le> ht_last ?t' + 1"
  proof (rule ccontr)
    assume "\<not> ?thesis"
    then have "find_entry ?t' (nat (ht_last ?t' + 1)) \<noteq> None" using used p(4) by auto
    then show False using p(4) by (auto simp: find_entry_def split: if_splits)
  qed
  with used p le assms(2,3,7) show ?thesis by (auto simp: table_ok_def)
qed

lemma clear_entry_correct:
  assumes "table_ok t" and "find_entry t i = Some (obj, acc)"
  shows "table_ok (clear_entry mem_ok t i)" and "find_entry (clear_entry mem_ok t i) = (find_entry t)(i := None)"
    and "ht_process (clear_entry mem_ok t i) = ht_process t"
proof -
  note t = assms(1) [unfolded table_ok_def]
  let ?t1 = "t\<lparr>ht_entries := (ht_entries t)[i := Slot None (entry_access (ht_entries t ! i))]\<rparr>"
  let ?t2 = "if i < ht_free ?t1 then ?t1\<lparr>ht_free := i\<rparr> else ?t1"
  have i: "int i \<le> ht_last t" using assms(2) by (auto simp: find_entry_def split: if_splits)
  then have len: "i < length (ht_entries t)" using t by auto
  have f2: "find_entry ?t2 = (find_entry t)(i := None)"
    using i len by (auto simp: find_entry_def nth_list_update fun_eq_iff)
  have used: "\<forall>j < ht_free ?t2. find_entry ?t2 j \<noteq> None"
    unfolding f2 using t by auto
  have init: "\<forall>j. int j \<le> ht_last ?t2 \<longrightarrow> ht_entries ?t2 ! j \<noteq> Uninit"
    using t len by (auto simp: nth_list_update)
  have base: "length (ht_entries ?t2) = ht_count ?t2" "MIN_HANDLE_ENTRIES \<le> ht_count ?t2"
    "ht_count ?t2 \<le> MAX_HANDLE_ENTRIES" "- 1 \<le> ht_last ?t2" "ht_last ?t2 < int (ht_count ?t2)"
    "int (ht_free ?t2) \<le> ht_last ?t2 + 1"
    using t i by auto
  have clear: "clear_entry mem_ok t i = (if int i = ht_last ?t2 then shrink_handle_table mem_ok ?t2 else ?t2)"
    by (simp add: clear_entry_def Let_def)
  show "table_ok (clear_entry mem_ok t i)"
    unfolding clear using shrink_handle_table_ok [OF base(1-5) used init] base used init
    by (simp add: table_ok_def del: if_split_asm)
  show "find_entry (clear_entry mem_ok t i) = (find_entry t)(i := None)"
    "ht_process (clear_entry mem_ok t i) = ht_process t"
    unfolding clear using f2 shrink_handle_table_props(1,3) [OF base(1,4,5), where mem_ok = mem_ok] by simp_all
qed

interpretation ht: handle_allocator table_ok find_entry
  "\<lambda>t v. alloc_entry mem_ok t (fst v) (snd v)" "clear_entry mem_ok" for mem_ok
  by unfold_locales (auto simp: alloc_entry_correct clear_entry_correct)

section \<open>Properties\<close>



end
