(* ===== verification/Handle_Table.thy ===== *)
theory Handle_Table
  imports Security Handle_Array
begin

text \<open>
  The operations of \<^verbatim>\<open>server/handle.c\<close> on the handles of processes and on global
  handles, with the reference and handle counts of the objects behind them
  (\<^verbatim>\<open>server/object.c\<close>). The state holds the objects that are alive, the table of every
  process that has one and the global table.

  What the operations take from the rest of the server is a record of parameters: the
  \<^verbatim>\<open>map_access\<close> and \<^verbatim>\<open>close_handle\<close> operations of an object, the tokens of the current
  thread and of the processes, the objects behind the pseudo-handles and the success of
  allocations. A failed assertion, a null pointer and an access outside an array are the
  outcome \<^const>\<open>Fault\<close>. The destructor of an object type is not modelled beyond the
  removal of the object.
\<close>

abbreviation "OBJ_PROTECT_CLOSE \<equiv> 1 :: u32"
abbreviation "OBJ_INHERIT \<equiv> 2 :: u32"
abbreviation "DUPLICATE_CLOSE_SOURCE \<equiv> 1 :: u32"
abbreviation "DUPLICATE_SAME_ACCESS \<equiv> 2 :: u32"
abbreviation "DUPLICATE_MAKE_GLOBAL \<equiv> 0x80000000 :: u32"

section \<open>State\<close>

record object =
  ob_refcount :: nat
  ob_handle_count :: nat
  ob_ops :: nat
  ob_permanent :: bool
  ob_sd :: "security_descriptor option"

record server =
  sv_objects :: "obj_id \<Rightarrow> object option"
  sv_tables :: "proc_id \<Rightarrow> handle_table option"
  sv_global :: "handle_table option"
  sv_type_count :: "nat \<Rightarrow> nat"
  sv_type_max :: "nat \<Rightarrow> nat"

record current_thread =
  cu_impersonation_token :: "obj_id option"
  cu_token :: "obj_id option"
  cu_process_token :: "obj_id option"
  cu_thread :: obj_id
  cu_process_obj :: obj_id
  cu_process :: proc_id

record env =
  en_mem_ok :: "nat \<Rightarrow> bool"
  en_map_access :: "obj_id \<Rightarrow> u32 \<Rightarrow> u32"
  en_close_ok :: "obj_id \<Rightarrow> proc_id \<Rightarrow> obj_handle \<Rightarrow> bool"
  en_current :: current_thread
  en_thread_token :: "token option"
  en_process_token :: "proc_id \<Rightarrow> token"

datatype table_ref = Local proc_id | Global

definition table_at :: "server \<Rightarrow> table_ref \<Rightarrow> handle_table option" where
  "table_at s r = (case r of Local p \<Rightarrow> sv_tables s p | Global \<Rightarrow> sv_global s)"

definition set_table :: "server \<Rightarrow> table_ref \<Rightarrow> handle_table option \<Rightarrow> server" where
  "set_table s r t =
     (case r of Local p \<Rightarrow> s\<lparr>sv_tables := (sv_tables s)(p := t)\<rparr> | Global \<Rightarrow> s\<lparr>sv_global := t\<rparr>)"

section \<open>Handles and indices\<close>

definition index_to_handle :: "nat \<Rightarrow> obj_handle" where
  "index_to_handle i = push_bit 2 (of_nat (i + 1))"

definition handle_to_index :: "obj_handle \<Rightarrow> int" where
  "handle_to_index h = uint (drop_bit 2 h) - 1"

definition handle_is_global :: "obj_handle \<Rightarrow> bool" where
  "handle_is_global h \<longleftrightarrow> unat (h XOR HANDLE_OBFUSCATOR) \<le> MAX_HANDLE_ENTRIES * 4"

definition handle_local_to_global :: "obj_handle \<Rightarrow> obj_handle" where
  "handle_local_to_global h = (if h = 0 then 0 else h XOR HANDLE_OBFUSCATOR)"

definition handle_global_to_local :: "obj_handle \<Rightarrow> obj_handle" where
  "handle_global_to_local h = h XOR HANDLE_OBFUSCATOR"

section \<open>Counting references\<close>

definition upd_object :: "obj_id \<Rightarrow> (object \<Rightarrow> object) \<Rightarrow> server \<Rightarrow> server" where
  "upd_object obj f s = s\<lparr>sv_objects := (sv_objects s)(obj := map_option f (sv_objects s obj))\<rparr>"

definition grab_object :: "obj_id \<Rightarrow> server \<Rightarrow> server" where
  "grab_object obj s = upd_object obj (\<lambda>ob. ob\<lparr>ob_refcount := ob_refcount ob + 1\<rparr>) s"

definition release_object :: "obj_id \<Rightarrow> server \<Rightarrow> server" where
  "release_object obj s =
     (case sv_objects s obj of
        None \<Rightarrow> s
      | Some ob \<Rightarrow>
          if ob_refcount ob \<le> 1 then s\<lparr>sv_objects := (sv_objects s)(obj := None)\<rparr>
          else upd_object obj (\<lambda>ob. ob\<lparr>ob_refcount := ob_refcount ob - 1\<rparr>) s)"

definition ops_of :: "server \<Rightarrow> obj_id \<Rightarrow> nat" where
  "ops_of s obj = (case sv_objects s obj of None \<Rightarrow> 0 | Some ob \<Rightarrow> ob_ops ob)"

definition grab_object_for_handle :: "obj_id \<Rightarrow> server \<Rightarrow> server" where
  "grab_object_for_handle obj s =
     (let ty = ops_of s obj;
          n = sv_type_count s ty + 1;
          s1 = upd_object obj (\<lambda>ob. ob\<lparr>ob_handle_count := ob_handle_count ob + 1\<rparr>) s
      in grab_object obj (s1\<lparr>sv_type_count := (sv_type_count s)(ty := n),
                             sv_type_max := (sv_type_max s)(ty := max (sv_type_max s ty) n)\<rparr>))"

definition release_object_from_handle :: "obj_id \<Rightarrow> server \<Rightarrow> server" where
  "release_object_from_handle obj s =
     (let ty = ops_of s obj;
          s1 = upd_object obj (\<lambda>ob. ob\<lparr>ob_handle_count := ob_handle_count ob - 1\<rparr>) s
      in release_object obj (s1\<lparr>sv_type_count := (sv_type_count s)(ty := sv_type_count s ty - 1)\<rparr>))"

section \<open>Allocating handles\<close>

text \<open>\<^verbatim>\<open>alloc_entry\<close> with the counting of references, in a table that exists.\<close>

definition alloc_table_entry :: "env \<Rightarrow> server \<Rightarrow> table_ref \<Rightarrow> handle_table \<Rightarrow> obj_id \<Rightarrow> u32
    \<Rightarrow> obj_handle outcome \<times> server" where
  "alloc_table_entry e s r t obj acc =
     (case alloc_entry (en_mem_ok e) t obj acc of
        None \<Rightarrow> (Err STATUS_INSUFFICIENT_RESOURCES, s)
      | Some (i, t') \<Rightarrow> (Ok (index_to_handle i), grab_object_for_handle obj (set_table s r (Some t'))))"

definition alloc_handle_entry :: "env \<Rightarrow> server \<Rightarrow> proc_id \<Rightarrow> obj_id \<Rightarrow> u32 \<Rightarrow> u32
    \<Rightarrow> obj_handle outcome \<times> server" where
  "alloc_handle_entry e s p obj acc attr =
     (if acc AND RESERVED_ALL \<noteq> 0 then (Fault, s)
      else
        (let acc' = (if attr AND OBJ_INHERIT \<noteq> 0 then acc OR RESERVED_INHERIT else acc)
         in case sv_tables s p of
              None \<Rightarrow> (Err STATUS_PROCESS_IS_TERMINATING, s)
            | Some t \<Rightarrow> alloc_table_entry e s (Local p) t obj acc'))"

definition object_access :: "env \<Rightarrow> server \<Rightarrow> token option \<Rightarrow> obj_id \<Rightarrow> u32 \<Rightarrow> bool \<times> u32" where
  "object_access e s tok obj acc =
     check_object_access tok
       (case en_thread_token e of Some t \<Rightarrow> t | None \<Rightarrow> en_process_token e (cu_process (en_current e)))
       (en_map_access e obj) (Option.bind (sv_objects s obj) ob_sd) acc"

definition alloc_handle_no_access_check :: "env \<Rightarrow> server \<Rightarrow> proc_id \<Rightarrow> obj_id \<Rightarrow> u32 \<Rightarrow> u32
    \<Rightarrow> obj_handle outcome \<times> server" where
  "alloc_handle_no_access_check e s p obj acc attr =
     (let acc1 = (if acc AND MAXIMUM_ALLOWED \<noteq> 0 then GENERIC_ALL else acc);
          acc2 = en_map_access e obj acc1 AND NOT RESERVED_ALL
      in alloc_handle_entry e s p obj acc2 attr)"

definition alloc_handle :: "env \<Rightarrow> server \<Rightarrow> proc_id \<Rightarrow> obj_id \<Rightarrow> u32 \<Rightarrow> u32
    \<Rightarrow> obj_handle outcome \<times> server" where
  "alloc_handle e s p obj acc attr =
     (let acc1 = en_map_access e obj acc AND NOT RESERVED_ALL
      in if acc1 = 0 then alloc_handle_entry e s p obj acc1 attr
         else case object_access e s None obj acc1 of
                (False, _) \<Rightarrow> (Err STATUS_ACCESS_DENIED, s)
              | (True, acc2) \<Rightarrow> alloc_handle_entry e s p obj acc2 attr)"

definition alloc_handle_user_open :: "env \<Rightarrow> server \<Rightarrow> proc_id \<Rightarrow> obj_id \<Rightarrow> u32 \<Rightarrow> u32
    \<Rightarrow> obj_handle outcome \<times> server" where
  "alloc_handle_user_open e s p obj acc attr =
     (if acc \<noteq> 0 then alloc_handle e s p obj acc attr else (Err STATUS_ACCESS_DENIED, s))"

definition alloc_global_handle_no_access_check :: "env \<Rightarrow> server \<Rightarrow> obj_id \<Rightarrow> u32
    \<Rightarrow> obj_handle outcome \<times> server" where
  "alloc_global_handle_no_access_check e s obj acc =
     (case (case sv_global s of Some t \<Rightarrow> Some t | None \<Rightarrow> alloc_handle_table (en_mem_ok e) None 0) of
        None \<Rightarrow> (Err STATUS_NO_MEMORY, s)
      | Some t \<Rightarrow>
          (case alloc_table_entry e (s\<lparr>sv_global := Some t\<rparr>) Global t obj acc of
             (Ok h, s') \<Rightarrow> (Ok (handle_local_to_global h), s')
           | (r, s') \<Rightarrow> (r, s')))"

definition alloc_global_handle :: "env \<Rightarrow> server \<Rightarrow> obj_id \<Rightarrow> u32 \<Rightarrow> obj_handle outcome \<times> server" where
  "alloc_global_handle e s obj acc =
     (if acc = 0 then alloc_global_handle_no_access_check e s obj acc
      else case object_access e s None obj acc of
             (False, _) \<Rightarrow> (Err STATUS_ACCESS_DENIED, s)
           | (True, acc') \<Rightarrow> alloc_global_handle_no_access_check e s obj acc')"

section \<open>Using handles\<close>

text \<open>The table and index a handle denotes for a process, with the object and its access.\<close>

definition get_handle :: "server \<Rightarrow> proc_id \<Rightarrow> obj_handle
    \<Rightarrow> (table_ref \<times> nat \<times> obj_id \<times> u32) option" where
  "get_handle s p h =
     (let r = (if handle_is_global h then Global else Local p);
          h' = (if handle_is_global h then handle_global_to_local h else h)
      in case table_at s r of
           None \<Rightarrow> None
         | Some t \<Rightarrow>
             (let index = handle_to_index h'
              in if index < 0 then None
                 else if index > ht_last t then None
                 else case find_entry t (nat index) of
                        None \<Rightarrow> None
                      | Some (obj, acc) \<Rightarrow> Some (r, nat index, obj, acc)))"

definition close_handle :: "env \<Rightarrow> server \<Rightarrow> proc_id \<Rightarrow> obj_handle \<Rightarrow> ntstatus \<times> server" where
  "close_handle e s p h =
     (case get_handle s p h of
        None \<Rightarrow> (STATUS_INVALID_HANDLE, s)
      | Some (r, i, obj, acc) \<Rightarrow>
          if acc AND RESERVED_CLOSE_PROTECT \<noteq> 0 then (STATUS_HANDLE_NOT_CLOSABLE, s)
          else if \<not> en_close_ok e obj p h then (STATUS_HANDLE_NOT_CLOSABLE, s)
          else (STATUS_SUCCESS,
                release_object_from_handle obj
                  (set_table s r (map_option (\<lambda>t. clear_entry (en_mem_ok e) t i) (table_at s r)))))"

definition get_magic_handle :: "env \<Rightarrow> obj_handle \<Rightarrow> obj_id option" where
  "get_magic_handle e h =
     (let c = en_current e in
      if h = 0xfffffffa then cu_impersonation_token c
      else if h = 0xfffffffb then cu_token c
      else if h = 0xfffffffc then cu_process_token c
      else if h = 0xfffffffe then Some (cu_thread c)
      else if h = 0x7fffffff \<or> h = 0xffffffff then Some (cu_process_obj c)
      else None)"

definition get_handle_obj :: "env \<Rightarrow> server \<Rightarrow> proc_id \<Rightarrow> obj_handle \<Rightarrow> u32 \<Rightarrow> nat option
    \<Rightarrow> obj_id outcome \<times> server" where
  "get_handle_obj e s p h access_wanted ops =
     (case get_magic_handle e h of
        None \<Rightarrow>
          (case get_handle s p h of
             None \<Rightarrow> (Err STATUS_INVALID_HANDLE, s)
           | Some (r, i, obj, acc) \<Rightarrow>
               if ops \<noteq> None \<and> ops \<noteq> Some (ops_of s obj) then (Err STATUS_OBJECT_TYPE_MISMATCH, s)
               else if acc AND access_wanted \<noteq> access_wanted then (Err STATUS_ACCESS_DENIED, s)
               else (Ok obj, grab_object obj s))
      | Some obj \<Rightarrow>
          if ops \<noteq> None \<and> ops \<noteq> Some (ops_of s obj) then (Err STATUS_OBJECT_TYPE_MISMATCH, s)
          else (Ok obj, grab_object obj s))"

definition get_handle_access :: "env \<Rightarrow> server \<Rightarrow> proc_id \<Rightarrow> obj_handle \<Rightarrow> u32" where
  "get_handle_access e s p h =
     (if get_magic_handle e h \<noteq> None then NOT RESERVED_ALL
      else case get_handle s p h of None \<Rightarrow> 0 | Some (r, i, obj, acc) \<Rightarrow> acc AND NOT RESERVED_ALL)"

definition find_inherited_handle :: "server \<Rightarrow> proc_id \<Rightarrow> nat \<Rightarrow> obj_handle" where
  "find_inherited_handle s p ops =
     (case sv_tables s p of
        None \<Rightarrow> 0
      | Some t \<Rightarrow>
          (case find (\<lambda>i. case find_entry t i of None \<Rightarrow> False
                          | Some (obj, acc) \<Rightarrow> ops_of s obj = ops \<and> acc AND RESERVED_INHERIT \<noteq> 0)
                  [0..<nat (ht_last t + 1)] of
             None \<Rightarrow> 0
           | Some i \<Rightarrow> index_to_handle i))"

definition get_obj_handle_count :: "server \<Rightarrow> proc_id \<Rightarrow> obj_id \<Rightarrow> nat" where
  "get_obj_handle_count s p obj =
     (case sv_tables s p of
        None \<Rightarrow> 0
      | Some t \<Rightarrow> length (filter (\<lambda>i. map_option fst (find_entry t i) = Some obj) [0..<nat (ht_last t + 1)]))"

definition set_access :: "nat \<Rightarrow> u32 \<Rightarrow> handle_table \<Rightarrow> handle_table" where
  "set_access i acc t = t\<lparr>ht_entries := (ht_entries t)[i := Slot (entry_ptr (ht_entries t ! i)) acc]\<rparr>"

definition set_handle_flags :: "env \<Rightarrow> server \<Rightarrow> proc_id \<Rightarrow> obj_handle \<Rightarrow> u32 \<Rightarrow> u32
    \<Rightarrow> u32 outcome \<times> server" where
  "set_handle_flags e s p h mask0 flags0 =
     (if get_magic_handle e h \<noteq> None
      then (if mask0 \<noteq> 0 then Err STATUS_ACCESS_DENIED else Ok 0, s)
      else case get_handle s p h of
             None \<Rightarrow> (Err STATUS_INVALID_HANDLE, s)
           | Some (r, i, obj, old_access) \<Rightarrow>
               (let m = push_bit RESERVED_SHIFT mask0 AND RESERVED_ALL;
                    flags = push_bit RESERVED_SHIFT flags0 AND m
                in (Ok (drop_bit RESERVED_SHIFT (old_access AND RESERVED_ALL)),
                    set_table s r (map_option (set_access i ((old_access AND NOT m) OR flags)) (table_at s r)))))"

section \<open>Duplicating handles\<close>

text \<open>
  The two access checks for rights that the source handle lacks. The destination
  process is a null pointer for a global handle; its token is read all the same.
\<close>

definition check_more_access :: "env \<Rightarrow> server \<Rightarrow> proc_id option \<Rightarrow> obj_id \<Rightarrow> u32 \<Rightarrow> u32 outcome" where
  "check_more_access e s dst obj acc =
     (case (case en_thread_token e of
              None \<Rightarrow> (True, acc)
            | Some t \<Rightarrow> object_access e s (Some t) obj acc) of
        (False, _) \<Rightarrow> Err STATUS_ACCESS_DENIED
      | (True, acc1) \<Rightarrow>
          (case dst of
             None \<Rightarrow> Fault
           | Some d \<Rightarrow>
               (case object_access e s (Some (en_process_token e d)) obj acc1 of
                  (False, _) \<Rightarrow> Err STATUS_ACCESS_DENIED
                | (True, acc2) \<Rightarrow> Ok acc2)))"

definition duplicate_handle :: "env \<Rightarrow> server \<Rightarrow> proc_id \<Rightarrow> obj_handle \<Rightarrow> proc_id option \<Rightarrow> u32 \<Rightarrow> u32 \<Rightarrow> u32
    \<Rightarrow> obj_handle outcome \<times> server" where
  "duplicate_handle e s src src_handle dst access0 attr options =
     (case get_handle_obj e s src src_handle 0 None of
        (Ok obj, s1) \<Rightarrow>
          (let entry = get_handle s1 src src_handle;
               src_access = (case entry of Some (_, _, _, a) \<Rightarrow> a
                             | None \<Rightarrow> en_map_access e obj GENERIC_ALL) AND NOT RESERVED_ALL;
               acc = (if options AND DUPLICATE_SAME_ACCESS \<noteq> 0 then src_access
                      else en_map_access e obj access0 AND NOT RESERVED_ALL);
               global = (options AND DUPLICATE_MAKE_GLOBAL \<noteq> 0);
               (res, s2) =
                 (if acc AND NOT src_access \<noteq> 0 then
                    (case check_more_access e s1 dst obj acc of
                       Err st \<Rightarrow> (Err st, s1)
                     | Fault \<Rightarrow> (Fault, s1)
                     | Ok acc2 \<Rightarrow>
                         if global then alloc_global_handle e s1 obj acc2
                         else (case dst of None \<Rightarrow> (Fault, s1)
                               | Some d \<Rightarrow> alloc_handle_no_access_check e s1 d obj acc2 attr))
                  else if global then alloc_global_handle_no_access_check e s1 obj acc
                  else
                    (case (dst, entry) of
                       (None, _) \<Rightarrow> (Fault, s1)
                     | (Some d, Some (r, i, _, a)) \<Rightarrow>
                         if options AND DUPLICATE_CLOSE_SOURCE \<noteq> 0 \<and> src = d \<and> a AND RESERVED_CLOSE_PROTECT = 0
                         then (let acc' = (if attr AND OBJ_INHERIT \<noteq> 0 then acc OR RESERVED_INHERIT else acc)
                               in (Ok src_handle,
                                   set_table s1 r (map_option (set_access i acc') (table_at s1 r))))
                         else alloc_handle_entry e s1 d obj acc attr
                     | (Some d, None) \<Rightarrow> alloc_handle_entry e s1 d obj acc attr))
           in (res, release_object obj s2))
      | (Err st, s1) \<Rightarrow> (Err st, s1)
      | (Fault, s1) \<Rightarrow> (Fault, s1))"

text \<open>
  The request handler; \<open>src\<close> and \<open>dst\<close> are the processes that the lookups of the two
  process handles gave.
\<close>

definition dup_handle :: "env \<Rightarrow> server \<Rightarrow> proc_id option \<Rightarrow> proc_id option \<Rightarrow> obj_handle \<Rightarrow> u32 \<Rightarrow> u32 \<Rightarrow> u32
    \<Rightarrow> obj_handle outcome \<times> server" where
  "dup_handle e s src dst src_handle access0 attr options =
     (case src of
        None \<Rightarrow> (Err STATUS_INVALID_HANDLE, s)
      | Some p \<Rightarrow>
          (let global = (options AND DUPLICATE_MAKE_GLOBAL \<noteq> 0);
               dst' = (if global then None else dst);
               (res, s1) = (if global \<or> dst \<noteq> None
                            then duplicate_handle e s p src_handle dst' access0 attr options
                            else (Err STATUS_INVALID_HANDLE, s))
           in if res = Fault then (res, s1)
              else if options AND DUPLICATE_CLOSE_SOURCE \<noteq> 0 \<and> (dst' \<noteq> Some p \<or> res \<noteq> Ok src_handle)
              then (res, snd (close_handle e s1 p src_handle))
              else (res, s1)))"

section \<open>Inheriting and closing tables\<close>

definition inherit_handle :: "server \<Rightarrow> proc_id \<Rightarrow> obj_handle \<Rightarrow> handle_table
    \<Rightarrow> (handle_table \<times> server) outcome" where
  "inherit_handle s parent h t =
     (case get_handle s parent h of
        None \<Rightarrow> Ok (t, s)
      | Some (r, i, obj, acc) \<Rightarrow>
          if acc AND RESERVED_INHERIT = 0 then Ok (t, s)
          else
            (let index = handle_to_index h
             in if index < 0 \<or> int (length (ht_entries t)) \<le> index then Fault
                else case ht_entries t ! nat index of
                       Slot None _ \<Rightarrow>
                         Ok (t\<lparr>ht_entries := (ht_entries t)[nat index := Slot (Some obj) acc],
                               ht_last := max (ht_last t) index\<rparr>,
                             grab_object_for_handle obj s)
                     | _ \<Rightarrow> Ok (t, s)))"

fun inherit_list :: "server \<Rightarrow> proc_id \<Rightarrow> obj_handle list \<Rightarrow> handle_table \<Rightarrow> (handle_table \<times> server) outcome" where
  "inherit_list s parent [] t = Ok (t, s)"
| "inherit_list s parent (h # hs) t =
     (case inherit_handle s parent h t of
        Ok (t', s') \<Rightarrow> inherit_list s' parent hs t'
      | Err e \<Rightarrow> Err e
      | Fault \<Rightarrow> Fault)"

fun inherit_entries :: "handle_entry list \<Rightarrow> server \<Rightarrow> handle_entry list \<times> server" where
  "inherit_entries [] s = ([], s)"
| "inherit_entries (en # es) s =
     (case en of
        Slot (Some obj) acc \<Rightarrow>
          if acc AND RESERVED_INHERIT \<noteq> 0
          then (case inherit_entries es (grab_object_for_handle obj s) of (es', s') \<Rightarrow> (en # es', s'))
          else (case inherit_entries es s of (es', s') \<Rightarrow> (Slot None acc # es', s'))
      | _ \<Rightarrow> (case inherit_entries es s of (es', s') \<Rightarrow> (en # es', s')))"

definition copy_handle_table :: "env \<Rightarrow> server \<Rightarrow> proc_id \<Rightarrow> proc_id \<Rightarrow> obj_handle list option \<Rightarrow> obj_handle list
    \<Rightarrow> (handle_table \<times> server) outcome" where
  "copy_handle_table e s process parent handles std_handles =
     (case sv_tables s parent of
        None \<Rightarrow> Fault
      | Some pt \<Rightarrow>
          (case alloc_handle_table (en_mem_ok e) (Some process) (ht_count pt) of
             None \<Rightarrow> Err STATUS_NO_MEMORY
           | Some t \<Rightarrow>
               (case (case handles of
                        Some hs \<Rightarrow>
                          inherit_list s parent (hs @ std_handles)
                            (t\<lparr>ht_entries := replicate (ht_count pt) (Slot None 0) @ drop (ht_count pt) (ht_entries t)\<rparr>)
                      | None \<Rightarrow>
                          (let n = nat (ht_last pt + 1);
                               (es, s') = inherit_entries (take n (ht_entries pt)) s
                           in Ok (t\<lparr>ht_last := ht_last pt, ht_entries := es @ drop n (ht_entries t)\<rparr>, s'))) of
                  Ok (t', s') \<Rightarrow> Ok (shrink_handle_table (en_mem_ok e) t', s')
                | Err st \<Rightarrow> Err st
                | Fault \<Rightarrow> Fault)))"

text \<open>Destroying a table releases the object of every entry in use.\<close>

definition handle_table_destroy :: "handle_table \<Rightarrow> server \<Rightarrow> server" where
  "handle_table_destroy t s =
     foldl (\<lambda>s i. case find_entry t i of None \<Rightarrow> s | Some (obj, acc) \<Rightarrow> release_object_from_handle obj s)
       s [0..<nat (ht_last t + 1)]"

definition close_process_handles :: "server \<Rightarrow> proc_id \<Rightarrow> server" where
  "close_process_handles s p =
     (case sv_tables s p of
        None \<Rightarrow> s
      | Some t \<Rightarrow> handle_table_destroy t (set_table s (Local p) None))"

text \<open>
  \<^verbatim>\<open>enum_handles\<close> counts or lists the handles of a table. Its index is unsigned, so that
  the comparison with the last entry of an empty table, which is -1, never fails and the
  loop runs off the array.
\<close>

record handle_info =
  hi_owner :: proc_id
  hi_handle :: obj_handle
  hi_access :: u32
  hi_type :: nat
  hi_attributes :: u32
  hi_object :: obj_id

definition enum_handles :: "server \<Rightarrow> proc_id \<Rightarrow> handle_info list outcome" where
  "enum_handles s p =
     (case sv_tables s p of
        None \<Rightarrow> Ok []
      | Some t \<Rightarrow>
          if ht_last t < 0 then Fault
          else Ok (map (\<lambda>i. case the (find_entry t i) of (obj, acc) \<Rightarrow>
                      \<lparr>hi_owner = p, hi_handle = index_to_handle i, hi_access = acc AND NOT RESERVED_ALL,
                       hi_type = ops_of s obj,
                       hi_attributes = (if acc AND RESERVED_INHERIT \<noteq> 0 then OBJ_INHERIT else 0) OR
                         (if acc AND RESERVED_CLOSE_PROTECT \<noteq> 0 then OBJ_PROTECT_CLOSE else 0),
                       hi_object = obj\<rparr>)
                    (filter (\<lambda>i. find_entry t i \<noteq> None) [0..<nat (ht_last t + 1)])))"

definition make_temporary :: "env \<Rightarrow> server \<Rightarrow> obj_handle \<Rightarrow> ntstatus \<times> server" where
  "make_temporary e s h =
     (case get_handle_obj e s (cu_process (en_current e)) h 0 None of
        (Ok obj, s1) \<Rightarrow>
          (if (case sv_objects s1 obj of None \<Rightarrow> False | Some ob \<Rightarrow> ob_permanent ob)
           then (STATUS_SUCCESS,
                 release_object obj (release_object obj (upd_object obj (\<lambda>ob. ob\<lparr>ob_permanent := False\<rparr>) s1)))
           else (STATUS_SUCCESS, release_object obj s1))
      | (Err st, s1) \<Rightarrow> (st, s1)
      | (Fault, s1) \<Rightarrow> (STATUS_INVALID_HANDLE, s1))"

definition compare_objects :: "env \<Rightarrow> server \<Rightarrow> obj_handle \<Rightarrow> obj_handle \<Rightarrow> ntstatus \<times> server" where
  "compare_objects e s h1 h2 =
     (case get_handle_obj e s (cu_process (en_current e)) h1 0 None of
        (Ok o1, s1) \<Rightarrow>
          (case get_handle_obj e s1 (cu_process (en_current e)) h2 0 None of
             (Ok o2, s2) \<Rightarrow>
               (if o1 \<noteq> o2 then STATUS_NOT_SAME_OBJECT else STATUS_SUCCESS,
                release_object o1 (release_object o2 s2))
           | (Err st, s2) \<Rightarrow> (st, release_object o1 s2)
           | (Fault, s2) \<Rightarrow> (STATUS_INVALID_HANDLE, s2))
      | (Err st, s1) \<Rightarrow> (st, s1)
      | (Fault, s1) \<Rightarrow> (STATUS_INVALID_HANDLE, s1))"

definition get_object_info :: "env \<Rightarrow> server \<Rightarrow> obj_handle \<Rightarrow> (u32 \<times> nat \<times> nat) outcome \<times> server" where
  "get_object_info e s h =
     (case get_handle_obj e s (cu_process (en_current e)) h 0 None of
        (Ok obj, s1) \<Rightarrow>
          (case sv_objects s1 obj of
             None \<Rightarrow> (Fault, s1)
           | Some ob \<Rightarrow>
               (Ok (get_handle_access e s1 (cu_process (en_current e)) h, ob_refcount ob, ob_handle_count ob),
                release_object obj s1))
      | (Err st, s1) \<Rightarrow> (Err st, s1)
      | (Fault, s1) \<Rightarrow> (Fault, s1))"


section \<open>The invariant of the server state\<close>

text \<open>
  The entry that a table holds at an index, the set of places that refer to an object,
  and the invariant: every table is well-formed, every entry refers to an object that is
  alive, the handle count of an object is the number of entries that refer to it, and its
  reference count covers its handles, its permanent reference and the references \<open>held\<close>
  by operations in progress.
\<close>

definition slots :: "server \<Rightarrow> table_ref \<Rightarrow> nat \<Rightarrow> (obj_id \<times> u32) option" where
  "slots s r i = (case table_at s r of None \<Rightarrow> None | Some t \<Rightarrow> find_entry t i)"

definition refs :: "server \<Rightarrow> obj_id \<Rightarrow> (table_ref \<times> nat) set" where
  "refs s obj = {(r, i). \<exists>acc. slots s r i = Some (obj, acc)}"

definition object_ok :: "server \<Rightarrow> (obj_id \<Rightarrow> nat) \<Rightarrow> obj_id \<Rightarrow> object \<Rightarrow> bool" where
  "object_ok s held obj ob \<longleftrightarrow>
     finite (refs s obj) \<and> ob_handle_count ob = card (refs s obj) \<and> 0 < ob_refcount ob \<and>
     ob_handle_count ob + held obj + (if ob_permanent ob then 1 else 0) \<le> ob_refcount ob"

definition server_inv :: "(obj_id \<Rightarrow> nat) \<Rightarrow> server \<Rightarrow> bool" where
  "server_inv held s \<longleftrightarrow>
     (\<forall>r t. table_at s r = Some t \<longrightarrow> table_ok t) \<and>
     (\<forall>obj. refs s obj \<noteq> {} \<longrightarrow> sv_objects s obj \<noteq> None) \<and>
     (\<forall>obj. 0 < held obj \<longrightarrow> sv_objects s obj \<noteq> None) \<and>
     (\<forall>obj ob. sv_objects s obj = Some ob \<longrightarrow> object_ok s held obj ob)"

abbreviation "server_ok \<equiv> server_inv (\<lambda>_. 0)"

lemma table_at_simps [simp]:
  "table_at (set_table s r t) r' = (if r' = r then t else table_at s r')"
  "table_at (upd_object obj f s) r = table_at s r"
  "table_at (s\<lparr>sv_objects := x\<rparr>) r = table_at s r"
  "table_at (s\<lparr>sv_type_count := c\<rparr>) r = table_at s r"
  "table_at (s\<lparr>sv_type_max := c\<rparr>) r = table_at s r"
  by (auto simp: table_at_def set_table_def upd_object_def split: table_ref.splits)

lemma objects_simps [simp]:
  "sv_objects (set_table s r t) = sv_objects s"
  "sv_objects (upd_object obj f s) = (sv_objects s)(obj := map_option f (sv_objects s obj))"
  by (auto simp: set_table_def upd_object_def split: table_ref.splits)

lemma slots_simps [simp]:
  "slots (set_table s r (Some t)) r' = (if r' = r then find_entry t else slots s r')"
  "slots (set_table s r None) r' = (if r' = r then Map.empty else slots s r')"
  by (auto simp: slots_def fun_eq_iff)

lemma slots_cong: "(\<And>r. table_at s r = table_at s' r) \<Longrightarrow> slots s = slots s'"
  by (auto simp: slots_def fun_eq_iff)

lemma refs_cong: "(\<And>r. table_at s r = table_at s' r) \<Longrightarrow> refs s = refs s'"
  using slots_cong [of s s'] by (simp add: refs_def fun_eq_iff)

lemma slots_SomeD: "slots s r i = Some v \<Longrightarrow> \<exists>t. table_at s r = Some t \<and> find_entry t i = Some v"
  by (auto simp: slots_def split: option.splits)

text \<open>The effect of the counting operations on tables and objects.\<close>

lemma grab_object_table [simp]: "table_at (grab_object obj s) r = table_at s r"
  by (simp add: grab_object_def)

lemma release_object_table [simp]: "table_at (release_object obj s) r = table_at s r"
  by (auto simp: release_object_def split: option.splits)

lemma grab_object_for_handle_table [simp]: "table_at (grab_object_for_handle obj s) r = table_at s r"
  by (simp add: grab_object_for_handle_def Let_def)

lemma release_object_from_handle_table [simp]: "table_at (release_object_from_handle obj s) r = table_at s r"
  by (simp add: release_object_from_handle_def Let_def)

lemma grab_object_objects:
  "sv_objects (grab_object obj s) = (sv_objects s)(obj := map_option (\<lambda>ob. ob\<lparr>ob_refcount := ob_refcount ob + 1\<rparr>) (sv_objects s obj))"
  by (simp add: grab_object_def)

lemma grab_object_for_handle_objects:
  "sv_objects (grab_object_for_handle obj s) = (sv_objects s)(obj :=
     map_option (\<lambda>ob. ob\<lparr>ob_refcount := ob_refcount ob + 1, ob_handle_count := ob_handle_count ob + 1\<rparr>) (sv_objects s obj))"
  by (auto simp: grab_object_for_handle_def grab_object_objects Let_def fun_eq_iff option.map_comp comp_def
      intro!: map_option_cong)

lemma release_object_objects:
  "sv_objects (release_object obj s) = (sv_objects s)(obj :=
     (case sv_objects s obj of None \<Rightarrow> None
      | Some ob \<Rightarrow> if ob_refcount ob \<le> 1 then None else Some (ob\<lparr>ob_refcount := ob_refcount ob - 1\<rparr>)))"
  by (auto simp: release_object_def fun_eq_iff split: option.splits)

lemma release_object_from_handle_objects:
  "sv_objects (release_object_from_handle obj s) = (sv_objects s)(obj :=
     (case sv_objects s obj of None \<Rightarrow> None
      | Some ob \<Rightarrow> if ob_refcount ob \<le> 1 then None
         else Some (ob\<lparr>ob_refcount := ob_refcount ob - 1, ob_handle_count := ob_handle_count ob - 1\<rparr>)))"
  by (auto simp: release_object_from_handle_def release_object_objects Let_def fun_eq_iff split: option.splits)

lemma server_invI:
  assumes "\<And>r t. table_at s r = Some t \<Longrightarrow> table_ok t"
    and "\<And>x. refs s x \<noteq> {} \<Longrightarrow> sv_objects s x \<noteq> None"
    and "\<And>x. 0 < held x \<Longrightarrow> sv_objects s x \<noteq> None"
    and "\<And>x ob. sv_objects s x = Some ob \<Longrightarrow> object_ok s held x ob"
  shows "server_inv held s"
  using assms unfolding server_inv_def by blast

lemma server_invD:
  assumes "server_inv held s"
  shows "table_at s r = Some t \<Longrightarrow> table_ok t"
    and "refs s x \<noteq> {} \<Longrightarrow> \<exists>ob. sv_objects s x = Some ob"
    and "0 < held x \<Longrightarrow> \<exists>ob. sv_objects s x = Some ob"
    and "sv_objects s x = Some ob \<Longrightarrow> object_ok s held x ob"
  using assms unfolding server_inv_def by blast+

text \<open>
  A change of the state that only concerns one object: the invariant has to be shown for
  the tables and for that object.
\<close>

lemma server_inv_step:
  assumes inv: "server_inv held s"
    and tab: "\<And>r t. table_at s' r = Some t \<Longrightarrow> table_ok t"
    and other: "\<And>x. x \<noteq> obj \<Longrightarrow> refs s' x = refs s x \<and> sv_objects s' x = sv_objects s x \<and> held' x = held x"
    and gone: "sv_objects s' obj = None \<Longrightarrow> refs s' obj = {} \<and> held' obj = 0"
    and here: "\<And>ob. sv_objects s' obj = Some ob \<Longrightarrow> object_ok s' held' obj ob"
  shows "server_inv held' s'"
proof (rule server_invI)
  show "table_at s' r = Some t \<Longrightarrow> table_ok t" for r t by (rule tab)
  show "sv_objects s' x \<noteq> None" if "refs s' x \<noteq> {}" for x
    using that gone other [of x] server_invD(2) [OF inv, of x] by (cases "x = obj") auto
  show "sv_objects s' x \<noteq> None" if "0 < held' x" for x
    using that gone other [of x] server_invD(3) [OF inv, of x] by (cases "x = obj") auto
  show "object_ok s' held' x ob" if "sv_objects s' x = Some ob" for x ob
    using that here other [of x] server_invD(4) [OF inv, of x ob]
    by (cases "x = obj") (auto simp: object_ok_def)
qed

lemma server_inv_grab:
  assumes "server_inv held s" and "sv_objects s obj \<noteq> None"
  shows "server_inv (held(obj := held obj + 1)) (grab_object obj s)"
proof -
  obtain ob where ob: "sv_objects s obj = Some ob" using assms(2) by auto
  have r: "refs (grab_object obj s) = refs s" by (rule refs_cong) simp
  show ?thesis
    using server_invD(1) [OF assms(1)] server_invD(4) [OF assms(1) ob] ob
    by (intro server_inv_step [OF assms(1)]) (auto simp: grab_object_objects object_ok_def r)
qed

lemma server_inv_release:
  assumes "server_inv (held(obj := n + 1)) s"
  shows "server_inv (held(obj := n)) (release_object obj s)"
proof -
  have r: "refs (release_object obj s) = refs s" by (rule refs_cong) simp
  obtain ob where ob: "sv_objects s obj = Some ob" using server_invD(3) [OF assms, of obj] by auto
  have ok: "object_ok s (held(obj := n + 1)) obj ob" by (rule server_invD(4) [OF assms ob])
  have "refs s obj = {}" if "ob_refcount ob \<le> 1"
  proof -
    have "card (refs s obj) + 1 \<le> ob_refcount ob" "finite (refs s obj)" using ok by (simp_all add: object_ok_def)
    moreover from this(1) that have "card (refs s obj) = 0" by linarith
    ultimately show ?thesis by simp
  qed
  then show ?thesis
    using server_invD(1) [OF assms] ok ob
    by (intro server_inv_step [OF assms]) (auto simp: release_object_objects object_ok_def r split: if_splits)
qed

lemma server_inv_add:
  assumes inv: "server_inv held s" and obj: "sv_objects s obj = Some ob" and t': "table_ok t'"
    and find: "find_entry t' = (slots s r)(i \<mapsto> (obj, acc))" and fresh: "slots s r i = None"
  shows "server_inv held (grab_object_for_handle obj (set_table s r (Some t')))"
proof -
  let ?s' = "grab_object_for_handle obj (set_table s r (Some t'))"
  have sl: "slots ?s' r' j = (if r' = r \<and> j = i then Some (obj, acc) else slots s r' j)" for r' j
    by (simp add: slots_def find)
  have refs: "refs ?s' x = (if x = obj then insert (r, i) (refs s x) else refs s x)" for x
    unfolding refs_def sl using fresh by auto
  have notin: "(r, i) \<notin> refs s obj" using fresh by (simp add: refs_def)
  show ?thesis
    using server_invD(1) [OF inv] server_invD(4) [OF inv obj] t' obj notin
    by (intro server_inv_step [OF inv])
      (auto simp: grab_object_for_handle_objects object_ok_def refs split: if_splits)
qed

lemma server_inv_del:
  assumes inv: "server_inv held s" and t': "table_ok t'" and old: "slots s r i = Some (obj, acc)"
    and find: "find_entry t' = (slots s r)(i := None)"
  shows "server_inv held (release_object_from_handle obj (set_table s r (Some t')))"
proof -
  let ?s' = "release_object_from_handle obj (set_table s r (Some t'))"
  have sl: "slots ?s' r' j = (if r' = r \<and> j = i then None else slots s r' j)" for r' j
    by (simp add: slots_def find)
  have refs: "refs ?s' x = (if x = obj then refs s x - {(r, i)} else refs s x)" for x
    unfolding refs_def sl using old by auto
  have mem: "(r, i) \<in> refs s obj" using old by (simp add: refs_def)
  then have "refs s obj \<noteq> {}" by auto
  then obtain ob where ob: "sv_objects s obj = Some ob" using server_invD(2) [OF inv] by blast
  have ok: "object_ok s held obj ob" by (rule server_invD(4) [OF inv ob])
  have pos: "0 < card (refs s obj)" using ok mem by (auto simp: object_ok_def card_gt_0_iff)
  have card: "card (refs s obj - {(r, i)}) = card (refs s obj) - 1" using mem by simp
  have fin: "finite (refs s obj)" using ok by (simp add: object_ok_def)
  have gone: "refs s obj - {(r, i)} = {} \<and> held obj = 0" if "ob_refcount ob \<le> 1"
  proof -
    have "card (refs s obj - {(r, i)}) = 0" "held obj = 0" using ok pos card that by (auto simp: object_ok_def)
    then show ?thesis using fin by simp
  qed
  show ?thesis
  proof (rule server_inv_step [OF inv, of _ obj])
    show "table_at ?s' r' = Some u \<Longrightarrow> table_ok u" for r' u
      using server_invD(1) [OF inv] t' by (auto split: if_splits)
    show "refs ?s' x = refs s x \<and> sv_objects ?s' x = sv_objects s x \<and> held x = held x" if "x \<noteq> obj" for x
      using that by (simp add: refs release_object_from_handle_objects)
    show "refs ?s' obj = {} \<and> held obj = 0" if "sv_objects ?s' obj = None"
      using that gone ob by (auto simp: refs release_object_from_handle_objects split: if_splits)
    show "object_ok ?s' held obj ob'" if "sv_objects ?s' obj = Some ob'" for ob'
      using that ob ok pos card fin
      by (auto simp: object_ok_def refs release_object_from_handle_objects split: if_splits)
  qed
qed

lemma server_inv_access:
  assumes inv: "server_inv held s" and t': "table_ok t'" and old: "slots s r i = Some (obj, acc)"
    and find: "find_entry t' = (slots s r)(i \<mapsto> (obj, acc'))"
  shows "server_inv held (set_table s r (Some t'))"
proof -
  let ?s' = "set_table s r (Some t')"
  have sl: "slots ?s' r' j = (if r' = r \<and> j = i then Some (obj, acc') else slots s r' j)" for r' j
    by (simp add: slots_def find)
  have refs: "refs ?s' x = refs s x" for x
    unfolding refs_def sl using old by auto
  show ?thesis
  proof (rule server_invI)
    show "table_at ?s' r' = Some u \<Longrightarrow> table_ok u" for r' u
      using server_invD(1) [OF inv] t' by (auto split: if_splits)
    show "refs ?s' x \<noteq> {} \<Longrightarrow> sv_objects ?s' x \<noteq> None" for x
      using server_invD(2) [OF inv, of x] by (auto simp: refs)
    show "0 < held x \<Longrightarrow> sv_objects ?s' x \<noteq> None" for x
      using server_invD(3) [OF inv, of x] by auto
    show "sv_objects ?s' x = Some ob \<Longrightarrow> object_ok ?s' held x ob" for x ob
      using server_invD(4) [OF inv, of x ob] by (simp add: object_ok_def refs)
  qed
qed

section \<open>The operations keep the invariant\<close>

lemma alloc_table_entry_inv:
  assumes "server_inv held s" and "table_at s r = Some t" and "sv_objects s obj \<noteq> None"
    and "alloc_table_entry e s r t obj acc = (res, s')"
  shows "server_inv held s'"
proof (cases "alloc_entry (en_mem_ok e) t obj acc")
  case None
  then show ?thesis using assms by (auto simp: alloc_table_entry_def)
next
  case (Some it)
  then obtain i t' where a: "alloc_entry (en_mem_ok e) t obj acc = Some (i, t')" by (cases it) auto
  note c = alloc_entry_correct [OF server_invD(1) [OF assms(1,2)] a]
  have sl: "slots s r = find_entry t" using assms(2) by (simp add: slots_def fun_eq_iff)
  obtain ob where ob: "sv_objects s obj = Some ob" using assms(3) by auto
  have "server_inv held (grab_object_for_handle obj (set_table s r (Some t')))"
    using c sl by (intro server_inv_add [OF assms(1) ob]) auto
  with a assms(4) show ?thesis by (auto simp: alloc_table_entry_def)
qed

lemma alloc_handle_entry_inv:
  assumes "server_inv held s" and "sv_objects s obj \<noteq> None" and "alloc_handle_entry e s p obj acc attr = (res, s')"
  shows "server_inv held s'"
  using assms alloc_table_entry_inv [OF assms(1) _ assms(2), of "Local p"]
  by (auto simp: alloc_handle_entry_def table_at_def Let_def split: if_splits option.splits)

lemma alloc_handle_no_access_check_inv:
  assumes "server_inv held s" and "sv_objects s obj \<noteq> None"
    and "alloc_handle_no_access_check e s p obj acc attr = (res, s')"
  shows "server_inv held s'"
  using assms(3) unfolding alloc_handle_no_access_check_def Let_def by (rule alloc_handle_entry_inv [OF assms(1,2)])

lemma alloc_handle_inv:
  assumes "server_inv held s" and "sv_objects s obj \<noteq> None" and "alloc_handle e s p obj acc attr = (res, s')"
  shows "server_inv held s'"
  using assms(1,3) alloc_handle_entry_inv [OF assms(1,2)]
  by (auto simp: alloc_handle_def Let_def split: if_splits prod.splits bool.splits)

lemma server_inv_global:
  assumes "server_inv held s" and "sv_global s = None" and "table_ok t" and "find_entry t = Map.empty"
  shows "server_inv held (s\<lparr>sv_global := Some t\<rparr>)"
proof -
  let ?s' = "s\<lparr>sv_global := Some t\<rparr>"
  have at: "table_at ?s' r = (if r = Global then Some t else table_at s r)" for r
    by (simp add: table_at_def split: table_ref.splits)
  have "slots ?s' r i = slots s r i" for r i
    using assms(2,4) by (auto simp: slots_def at) (simp add: table_at_def)
  then have refs: "refs ?s' = refs s" by (simp add: refs_def fun_eq_iff)
  show ?thesis
  proof (rule server_invI)
    show "table_at ?s' r = Some u \<Longrightarrow> table_ok u" for r u
      using server_invD(1) [OF assms(1)] assms(3) by (auto simp: at split: if_splits)
    show "refs ?s' x \<noteq> {} \<Longrightarrow> sv_objects ?s' x \<noteq> None" for x
      using server_invD(2) [OF assms(1), of x] by (auto simp: refs)
    show "0 < held x \<Longrightarrow> sv_objects ?s' x \<noteq> None" for x
      using server_invD(3) [OF assms(1), of x] by auto
    show "sv_objects ?s' x = Some ob \<Longrightarrow> object_ok ?s' held x ob" for x ob
      using server_invD(4) [OF assms(1), of x ob] by (simp add: object_ok_def refs)
  qed
qed

lemma alloc_global_handle_no_access_check_inv:
  assumes "server_inv held s" and "sv_objects s obj \<noteq> None"
    and "alloc_global_handle_no_access_check e s obj acc = (res, s')"
  shows "server_inv held s'"
proof (cases "case sv_global s of Some t \<Rightarrow> Some t | None \<Rightarrow> alloc_handle_table (en_mem_ok e) None 0")
  case None
  then show ?thesis using assms by (auto simp: alloc_global_handle_no_access_check_def)
next
  case (Some t)
  note tt = this
  have inv: "server_inv held (s\<lparr>sv_global := Some t\<rparr>)"
  proof (cases "sv_global s")
    case None
    then have "alloc_handle_table (en_mem_ok e) None 0 = Some t" using Some by simp
    with alloc_handle_table_ok [OF this] show ?thesis using server_inv_global [OF assms(1) None] by simp
  next
    case (Some u)
    then have "s\<lparr>sv_global := Some t\<rparr> = s" using tt by simp
    then show ?thesis using assms(1) by simp
  qed
  obtain res' s1 where a: "alloc_table_entry e (s\<lparr>sv_global := Some t\<rparr>) Global t obj acc = (res', s1)" by force
  have "server_inv held s1"
    using alloc_table_entry_inv [OF inv _ _ a] assms(2) by (simp add: table_at_def)
  with a Some assms(3) show ?thesis
    by (auto simp: alloc_global_handle_no_access_check_def split: outcome.splits)
qed

lemma alloc_global_handle_inv:
  assumes "server_inv held s" and "sv_objects s obj \<noteq> None" and "alloc_global_handle e s obj acc = (res, s')"
  shows "server_inv held s'"
  using assms(1,3) alloc_global_handle_no_access_check_inv [OF assms(1,2)]
  by (auto simp: alloc_global_handle_def split: if_splits prod.splits bool.splits)

lemma get_handle_slots:
  "get_handle s p h = Some (r, i, obj, acc) \<Longrightarrow>
   slots s r i = Some (obj, acc) \<and> (\<exists>t. table_at s r = Some t \<and> find_entry t i = Some (obj, acc))"
  by (auto simp: get_handle_def slots_def Let_def split: if_splits option.splits)

lemma get_handle_object:
  assumes "server_inv held s" and "get_handle s p h = Some (r, i, obj, acc)"
  shows "sv_objects s obj \<noteq> None"
proof -
  have "(r, i) \<in> refs s obj" using get_handle_slots [OF assms(2)] by (auto simp: refs_def)
  then show ?thesis using server_invD(2) [OF assms(1), of obj] by auto
qed

lemma close_handle_inv:
  assumes "server_inv held s" and "close_handle e s p h = (st, s')"
  shows "server_inv held s'"
proof (cases "st = STATUS_SUCCESS")
  case False
  then show ?thesis using assms by (auto simp: close_handle_def split: option.splits if_splits)
next
  case True
  then obtain r i obj acc where g: "get_handle s p h = Some (r, i, obj, acc)"
    and s': "s' = release_object_from_handle obj
        (set_table s r (map_option (\<lambda>t. clear_entry (en_mem_ok e) t i) (table_at s r)))"
    using assms(2) by (auto simp: close_handle_def split: option.splits if_splits)
  from get_handle_slots [OF g] obtain t where sl: "slots s r i = Some (obj, acc)"
    and t: "table_at s r = Some t" "find_entry t i = Some (obj, acc)" by auto
  have "slots s r = find_entry t" using t by (simp add: slots_def fun_eq_iff)
  then show ?thesis
    using clear_entry_correct [OF server_invD(1) [OF assms(1) t(1)] t(2), of "en_mem_ok e"]
    unfolding s' t(1) option.map by (intro server_inv_del [OF assms(1) _ sl]) auto
qed

lemma set_access_correct:
  assumes "table_ok t" and "find_entry t i = Some (obj, acc)"
  shows "table_ok (set_access i acc' t)" and "find_entry (set_access i acc' t) = (find_entry t)(i \<mapsto> (obj, acc'))"
proof -
  have i: "int i \<le> ht_last t" "i < length (ht_entries t)"
    using assms by (auto simp: find_entry_def table_ok_def split: if_splits)
  have e: "entry_ptr (ht_entries t ! i) = Some obj"
    using assms(2) by (auto simp: find_entry_def split: if_splits handle_entry.splits option.splits)
  show find: "find_entry (set_access i acc' t) = (find_entry t)(i \<mapsto> (obj, acc'))"
    using i e by (auto simp: find_entry_def set_access_def nth_list_update fun_eq_iff)
  have same: "ht_free (set_access i acc' t) = ht_free t" "ht_last (set_access i acc' t) = ht_last t"
    "ht_count (set_access i acc' t) = ht_count t" "length (ht_entries (set_access i acc' t)) = length (ht_entries t)"
    by (simp_all add: set_access_def)
  have "ht_entries (set_access i acc' t) ! j \<noteq> Uninit" if "int j \<le> ht_last t" for j
    using that assms(1) i by (cases "j = i") (auto simp: set_access_def table_ok_def)
  then show "table_ok (set_access i acc' t)"
    using assms(1) unfolding table_ok_def same find by auto
qed

lemma set_handle_access_inv:
  assumes "server_inv held s" and "get_handle s p h = Some (r, i, obj, acc)"
  shows "server_inv held (set_table s r (map_option (set_access i acc') (table_at s r)))"
proof -
  from get_handle_slots [OF assms(2)] obtain t where sl: "slots s r i = Some (obj, acc)"
    and t: "table_at s r = Some t" "find_entry t i = Some (obj, acc)" by auto
  have "slots s r = find_entry t" using t by (simp add: slots_def fun_eq_iff)
  then show ?thesis
    using set_access_correct [OF server_invD(1) [OF assms(1) t(1)] t(2), of acc']
    unfolding t(1) option.map by (intro server_inv_access [OF assms(1) _ sl]) auto
qed

lemma set_handle_flags_inv:
  assumes "server_inv held s" and "set_handle_flags e s p h m f = (res, s')"
  shows "server_inv held s'"
  using assms set_handle_access_inv [OF assms(1)]
  by (auto simp: set_handle_flags_def Let_def split: if_splits option.splits)

lemma magic_held:
  assumes "server_inv held s" and "\<And>obj. get_magic_handle e h = Some obj \<Longrightarrow> sv_objects s obj \<noteq> None"
    and "get_handle_obj e s p h acc ops = (Ok obj, s')"
  shows "server_inv (held(obj := held obj + 1)) s'" and "s' = grab_object obj s" and "sv_objects s' obj \<noteq> None"
proof -
  have live: "sv_objects s obj \<noteq> None" and s': "s' = grab_object obj s"
    using assms(2,3) get_handle_object [OF assms(1), of p h]
    by (auto simp: get_handle_obj_def split: option.splits if_splits)
  then show "server_inv (held(obj := held obj + 1)) s'" "s' = grab_object obj s" "sv_objects s' obj \<noteq> None"
    using server_inv_grab [OF assms(1) live] by (auto simp: grab_object_objects)
qed

lemma get_handle_obj_err: "get_handle_obj e s p h acc ops = (r, s') \<Longrightarrow> r = Err st \<or> r = Fault \<Longrightarrow> s' = s"
  by (auto simp: get_handle_obj_def split: option.splits if_splits)

lemma held_release:
  assumes "server_inv (held(obj := held obj + 1)) s"
  shows "server_inv held (release_object obj s)"
  using server_inv_release [OF assms] by simp

definition magic_ok :: "env \<Rightarrow> server \<Rightarrow> bool" where
  "magic_ok e s \<longleftrightarrow> (\<forall>h obj. get_magic_handle e h = Some obj \<longrightarrow> sv_objects s obj \<noteq> None)"

lemma duplicate_handle_inv:
  assumes inv: "server_inv held s" and magic: "magic_ok e s"
    and dup: "duplicate_handle e s src h dst acc attr options = (res, s')"
  shows "server_inv held s'"
proof -
  obtain r s1 where g: "get_handle_obj e s src h 0 None = (r, s1)" by force
  show ?thesis
  proof (cases r)
    case (Ok obj)
    have held: "server_inv (held(obj := held obj + 1)) s1" and live: "sv_objects s1 obj \<noteq> None"
      using magic_held [OF inv _ g [unfolded Ok]] magic by (auto simp: magic_ok_def)
    note ops = alloc_global_handle_inv [OF held live] alloc_handle_no_access_check_inv [OF held live]
      alloc_global_handle_no_access_check_inv [OF held live] alloc_handle_entry_inv [OF held live]
    note acc = set_handle_access_inv [OF held]
    obtain s2 where s2: "s' = release_object obj s2" and mid: "server_inv (held(obj := held obj + 1)) s2"
      using dup g Ok held ops acc
      by (auto simp: duplicate_handle_def Let_def split: prod.splits if_splits option.splits outcome.splits)
    show ?thesis unfolding s2 by (rule held_release [OF mid])
  next
    case (Err st)
    then show ?thesis using dup g get_handle_obj_err [OF g] inv by (auto simp: duplicate_handle_def)
  next
    case Fault
    then show ?thesis using dup g get_handle_obj_err [OF g] inv by (auto simp: duplicate_handle_def)
  qed
qed

lemma dup_handle_inv:
  assumes "server_inv held s" and "magic_ok e s" and "dup_handle e s src dst h acc attr options = (res, s')"
  shows "server_inv held s'"
proof (cases src)
  case None
  then show ?thesis using assms by (simp add: dup_handle_def)
next
  case (Some p)
  obtain res1 s1 where d: "(if options AND DUPLICATE_MAKE_GLOBAL \<noteq> 0 \<or> dst \<noteq> None
      then duplicate_handle e s p h (if options AND DUPLICATE_MAKE_GLOBAL \<noteq> 0 then None else dst) acc attr options
      else (Err STATUS_INVALID_HANDLE, s)) = (res1, s1)" by force
  have "server_inv held s1" using d assms(1) duplicate_handle_inv [OF assms(1,2)] by (auto split: if_splits)
  moreover have "s' = s1 \<or> s' = snd (close_handle e s1 p h)"
    using assms(3) d Some by (auto simp: dup_handle_def Let_def split: if_splits)
  ultimately show ?thesis using close_handle_inv [of held s1 e p h] by (cases "close_handle e s1 p h") auto
qed

lemma make_temporary_inv:
  assumes inv: "server_inv held s" and magic: "magic_ok e s" and "make_temporary e s h = (st, s')"
  shows "server_inv held s'"
proof -
  let ?p = "cu_process (en_current e)"
  obtain r s1 where g: "get_handle_obj e s ?p h 0 None = (r, s1)" by force
  show ?thesis
  proof (cases r)
    case (Ok obj)
    have held: "server_inv (held(obj := held obj + 1)) s1" and live: "sv_objects s1 obj \<noteq> None"
      using magic_held [OF inv _ g [unfolded Ok]] magic by (auto simp: magic_ok_def)
    obtain ob where ob: "sv_objects s1 obj = Some ob" using live by auto
    show ?thesis
    proof (cases "ob_permanent ob")
      case False
      then have "s' = release_object obj s1" using assms(3) g Ok ob by (simp add: make_temporary_def)
      then show ?thesis using held_release [OF held] by simp
    next
      case True
      let ?s2 = "upd_object obj (\<lambda>ob. ob\<lparr>ob_permanent := False\<rparr>) s1"
      have s': "s' = release_object obj (release_object obj ?s2)"
        using True assms(3) g Ok ob by (simp add: make_temporary_def)
      have r: "refs ?s2 = refs s1" by (rule refs_cong) simp
      have "server_inv (held(obj := held obj + 1 + 1)) ?s2"
        using server_invD(1) [OF held] server_invD(4) [OF held ob] ob True
        by (intro server_inv_step [OF held, of _ obj]) (auto simp: object_ok_def r)
      then have "server_inv (held(obj := held obj + 1)) (release_object obj ?s2)" by (rule server_inv_release)
      then show ?thesis unfolding s' by (rule held_release)
    qed
  next
    case (Err st)
    then show ?thesis using assms(3) g get_handle_obj_err [OF g] inv by (auto simp: make_temporary_def)
  next
    case Fault
    then show ?thesis using assms(3) g get_handle_obj_err [OF g] inv by (auto simp: make_temporary_def)
  qed
qed

end
