(* ===== verification/Handle_Requests.thy ===== *)
theory Handle_Requests
  imports Handle_Table
begin

text \<open>
  What the handle requests guarantee: the invariant of the server state is kept when
  processes exit and start with inherited handles, handles and slots correspond, and the
  requests as steps of the server never leave a handle to an object that is gone.
\<close>


section \<open>Process creation and exit\<close>

lemma set_table_commute:
  "release_object obj (set_table s r t) = set_table (release_object obj s) r t"
  "release_object_from_handle obj (set_table s r t) = set_table (release_object_from_handle obj s) r t"
  "grab_object_for_handle obj (set_table s r t) = set_table (grab_object_for_handle obj s) r t"
  by (auto simp: set_table_def release_object_def release_object_from_handle_def grab_object_for_handle_def
      grab_object_def upd_object_def ops_of_def Let_def split: table_ref.splits option.splits)

lemma set_table_twice [simp]: "set_table (set_table s r t) r t' = set_table s r t'"
  by (simp add: set_table_def split: table_ref.splits)

lemma set_table_same: "table_at s r = t \<Longrightarrow> set_table s r t = s"
  by (auto simp: set_table_def table_at_def split: table_ref.splits)

text \<open>Installing a table with the same entries, or removing one without entries.\<close>

lemma server_inv_replace:
  assumes inv: "server_inv held (set_table s r (Some t))" and "table_ok t'" and "find_entry t' = find_entry t"
  shows "server_inv held (set_table s r (Some t'))"
proof -
  let ?s = "set_table s r (Some t)" and ?s' = "set_table s r (Some t')"
  have "slots ?s' = slots ?s" using assms(3) by (simp add: slots_def fun_eq_iff)
  then have refs: "refs ?s' = refs ?s" by (simp add: refs_def fun_eq_iff)
  show ?thesis
  proof (rule server_invI)
    show "table_at ?s' r' = Some u \<Longrightarrow> table_ok u" for r' u
      using server_invD(1) [OF inv, of r' u] assms(2) by (auto split: if_splits)
    show "refs ?s' x \<noteq> {} \<Longrightarrow> sv_objects ?s' x \<noteq> None" for x
      using server_invD(2) [OF inv, of x] by (auto simp: refs)
    show "0 < held x \<Longrightarrow> sv_objects ?s' x \<noteq> None" for x
      using server_invD(3) [OF inv, of x] by auto
    show "sv_objects ?s' x = Some ob \<Longrightarrow> object_ok ?s' held x ob" for x ob
      using server_invD(4) [OF inv, of x ob] by (simp add: object_ok_def refs)
  qed
qed

lemma server_inv_empty_table:
  assumes "find_entry t = Map.empty" and "table_ok t"
  shows "server_inv held (set_table s r (Some t)) \<longleftrightarrow> server_inv held (set_table s r None)"
proof -
  let ?a = "set_table s r (Some t)" and ?b = "set_table s r None"
  have "slots ?a = slots ?b" using assms(1) by (simp add: slots_def fun_eq_iff)
  then have "refs ?a = refs ?b" by (simp add: refs_def fun_eq_iff)
  then show ?thesis
    using assms(2) unfolding server_inv_def object_ok_def by (auto split: if_splits)
qed

text \<open>Releasing the entries of a table one after the other.\<close>

definition clear_first :: "nat \<Rightarrow> handle_table \<Rightarrow> handle_table" where
  "clear_first k t = t\<lparr>ht_free := 0,
     ht_entries := map (\<lambda>i. if i < k then Slot None 0 else ht_entries t ! i) [0..<length (ht_entries t)]\<rparr>"

lemma clear_first_ok:
  assumes "table_ok t"
  shows "table_ok (clear_first k t)"
    and "find_entry (clear_first k t) = (\<lambda>i. if i < k then None else find_entry t i)"
proof -
  have "find_entry (clear_first k t) i = (if i < k then None else find_entry t i)" for i
    using assms by (auto simp: find_entry_def clear_first_def table_ok_def)
  then show f: "find_entry (clear_first k t) = (\<lambda>i. if i < k then None else find_entry t i)" by auto
  show "table_ok (clear_first k t)"
    using assms by (auto simp: table_ok_def clear_first_def)
qed

lemma handle_table_destroy_inv:
  assumes inv: "server_inv held s" and t: "table_at s r = Some t"
  shows "server_inv held (handle_table_destroy t (set_table s r None))"
proof -
  note ok = server_invD(1) [OF inv t]
  let ?rel = "\<lambda>s i. case find_entry t i of None \<Rightarrow> s | Some (obj, acc) \<Rightarrow> release_object_from_handle obj s"
  have "server_inv held (set_table (foldl ?rel s [0..<k]) r (Some (clear_first k t)))" for k
  proof (induction k)
    case 0
    have "server_inv held (set_table s r (Some t))" using inv set_table_same [OF t] by simp
    then show ?case
      using server_inv_replace clear_first_ok [OF ok, of 0] by simp
  next
    case (Suc k)
    let ?s = "set_table (foldl ?rel s [0..<k]) r (Some (clear_first k t))"
    have find: "find_entry (clear_first (Suc k) t) = (slots ?s r)(k := None)"
      by (auto simp: clear_first_ok [OF ok] fun_eq_iff)
    show ?case
    proof (cases "find_entry t k")
      case None
      then have "find_entry (clear_first (Suc k) t) = find_entry (clear_first k t)"
        by (auto simp: clear_first_ok [OF ok] fun_eq_iff less_Suc_eq)
      with None Suc show ?thesis
        using server_inv_replace [OF Suc clear_first_ok(1) [OF ok], of "Suc k"] by simp
    next
      case (Some oa)
      then obtain obj acc where e: "find_entry t k = Some (obj, acc)" by (cases oa) auto
      then have "slots ?s r k = Some (obj, acc)" by (simp add: clear_first_ok [OF ok])
      from server_inv_del [OF Suc clear_first_ok(1) [OF ok] this find] e
      show ?thesis by (simp add: set_table_commute)
    qed
  qed
  from this [of "nat (ht_last t + 1)"]
  have all: "server_inv held (set_table (foldl ?rel s [0..<nat (ht_last t + 1)]) r
      (Some (clear_first (nat (ht_last t + 1)) t)))" .
  have "find_entry (clear_first (nat (ht_last t + 1)) t) = Map.empty"
    by (auto simp: clear_first_ok [OF ok] fun_eq_iff find_entry_def)
  from all server_inv_empty_table [OF this clear_first_ok(1) [OF ok]]
  have "server_inv held (set_table (foldl ?rel s [0..<nat (ht_last t + 1)]) r None)" by simp
  moreover have "foldl ?rel (set_table s r None) is = set_table (foldl ?rel s is) r None" for "is"
    by (induction "is" arbitrary: s) (auto simp: set_table_commute split: option.splits)
  ultimately show ?thesis unfolding handle_table_destroy_def by simp
qed

lemma close_process_handles_inv:
  "server_inv held s \<Longrightarrow> server_inv held (close_process_handles s p)"
  using handle_table_destroy_inv [of held s "Local p"]
  by (auto simp: close_process_handles_def table_at_def split: option.splits)

text \<open>
  The table of a new process while it is filled: installing it keeps the invariant. Its
  free hint stays at the first entry.
\<close>

definition child_ok :: "(obj_id \<Rightarrow> nat) \<Rightarrow> server \<Rightarrow> proc_id \<Rightarrow> handle_table \<Rightarrow> bool" where
  "child_ok held s c t \<longleftrightarrow> server_inv held (set_table s (Local c) (Some t)) \<and> ht_free t = 0"

lemma get_handle_other_table:
  "c \<noteq> p \<Longrightarrow> get_handle (set_table s (Local c) t) p h = get_handle s p h"
  by (simp add: get_handle_def Let_def)

lemma child_ok_table: "child_ok held s c t \<Longrightarrow> table_ok t"
  unfolding child_ok_def by (auto dest: server_invD(1) [where r = "Local c" and t = t])

definition clean :: "handle_table \<Rightarrow> bool" where
  "clean t \<longleftrightarrow> (\<forall>i < length (ht_entries t). ht_entries t ! i \<noteq> Uninit \<and>
     (ht_last t < int i \<longrightarrow> is_null (ht_entries t ! i)))"

lemma inherit_handle_Ok:
  assumes "inherit_handle s parent h t = Ok (t', s')"
  shows "t' = t \<and> s' = s \<or> (\<exists>r i obj acc a. get_handle s parent h = Some (r, i, obj, acc) \<and>
    0 \<le> handle_to_index h \<and> handle_to_index h < int (length (ht_entries t)) \<and>
    ht_entries t ! nat (handle_to_index h) = Slot None a \<and>
    t' = t\<lparr>ht_entries := (ht_entries t)[nat (handle_to_index h) := Slot (Some obj) acc],
       ht_last := max (ht_last t) (handle_to_index h)\<rparr> \<and>
    s' = grab_object_for_handle obj s)"
proof (cases "get_handle s parent h")
  case None
  then show ?thesis using assms by (simp add: inherit_handle_def)
next
  case (Some g)
  obtain r i obj acc where "g = (r, i, obj, acc)" by (cases g) auto
  with Some assms show ?thesis
    by (auto simp: inherit_handle_def Let_def split: if_splits handle_entry.splits option.splits)
qed

lemma inherit_handle_inv:
  assumes "child_ok held s c t" and "c \<noteq> parent" and "clean t"
    and inh: "inherit_handle s parent h t = Ok (t', s')"
  shows "child_ok held s' c t' \<and> clean t'"
proof (cases "t' = t \<and> s' = s")
  case True
  then show ?thesis using assms by simp
next
  case False
  let ?j = "nat (handle_to_index h)"
  obtain r i obj acc a where g: "get_handle s parent h = Some (r, i, obj, acc)"
    and range: "0 \<le> handle_to_index h" "handle_to_index h < int (length (ht_entries t))"
    and null: "ht_entries t ! ?j = Slot None a"
    and t': "t' = t\<lparr>ht_entries := (ht_entries t)[?j := Slot (Some obj) acc],
       ht_last := max (ht_last t) (handle_to_index h)\<rparr>"
    and s': "s' = grab_object_for_handle obj s"
    using inherit_handle_Ok [OF inh] False by metis
  let ?s = "set_table s (Local c) (Some t)"
  have inv: "server_inv held ?s" and fr: "ht_free t = 0" using assms(1) by (simp_all add: child_ok_def)
  note tok = child_ok_table [OF assms(1)]
  have len: "length (ht_entries t) = ht_count t" using tok by (simp add: table_ok_def)
  have j: "?j < length (ht_entries t)" "int ?j = handle_to_index h" using range by simp_all
  have cl: "ht_entries t ! k \<noteq> Uninit" "ht_last t < int k \<Longrightarrow> is_null (ht_entries t ! k)"
    if "k < length (ht_entries t)" for k using assms(3) that by (auto simp: clean_def)
  have find: "find_entry t' = (find_entry t)(?j \<mapsto> (obj, acc))"
  proof
    fix k
    consider "k = ?j" | "k \<noteq> ?j" "int k \<le> ht_last t" | "k \<noteq> ?j" "ht_last t < int k" "int k \<le> handle_to_index h"
      | "k \<noteq> ?j" "ht_last t < int k" "handle_to_index h < int k" by linarith
    then show "find_entry t' k = ((find_entry t)(?j \<mapsto> (obj, acc))) k"
    proof cases
      case 1
      then show ?thesis using j range by (simp add: find_entry_def t')
    next
      case 2
      then have "int k \<le> max (ht_last t) (handle_to_index h)" by linarith
      with 2 show ?thesis by (simp add: find_entry_def t')
    next
      case 3
      then have "is_null (ht_entries t ! k)" using cl(2) [of k] range by simp
      then obtain a' where "ht_entries t ! k = Slot None a'" by (auto simp: is_null_iff)
      with 3 show ?thesis by (simp add: find_entry_def t')
    next
      case 4
      then have "\<not> int k \<le> max (ht_last t) (handle_to_index h)" by linarith
      with 4 show ?thesis by (simp add: find_entry_def t' del: not_less not_le)
    qed
  qed
  have ini: "ht_entries t' ! k \<noteq> Uninit" if "k < length (ht_entries t)" for k
    using cl(1) [OF that] j(1) by (cases "k = ?j") (simp_all add: t')
  have last: "ht_last t' = max (ht_last t) (int ?j)" using j by (simp add: t')
  have bounds: "length (ht_entries t) = ht_count t" "MIN_HANDLE_ENTRIES \<le> ht_count t"
    "ht_count t \<le> MAX_HANDLE_ENTRIES" "- 1 \<le> ht_last t" "ht_last t < int (ht_count t)"
    using tok by (simp_all add: table_ok_def)
  have lt: "ht_last t' < int (ht_count t)" using bounds j len by (simp add: last)
  then have "\<forall>k. int k \<le> ht_last t' \<longrightarrow> ht_entries t' ! k \<noteq> Uninit" using ini len by auto
  moreover have "ht_count t' = ht_count t" "length (ht_entries t') = length (ht_entries t)" "ht_free t' = 0"
    using fr by (simp_all add: t')
  moreover have "- 1 \<le> ht_last t'" using bounds(4) last by linarith
  ultimately have tok': "table_ok t'"
    using bounds(1-3) lt unfolding table_ok_def by simp
  have "is_null (ht_entries t' ! k)" if "k < length (ht_entries t)" "ht_last t' < int k" for k
  proof -
    have "ht_last t < int k" "k \<noteq> ?j" using that(2) last by auto
    then show ?thesis using cl(2) [OF that(1)] by (simp add: t')
  qed
  then have "clean t'" using ini by (simp add: clean_def t')
  moreover have "get_handle ?s parent h = Some (r, i, obj, acc)"
    using g assms(2) by (simp add: get_handle_other_table)
  then obtain ob where ob: "sv_objects ?s obj = Some ob" using get_handle_object [OF inv] by blast
  have "find_entry t ?j = None" using null by (simp add: find_entry_def)
  then have "server_inv held (grab_object_for_handle obj (set_table ?s (Local c) (Some t')))"
    using find by (intro server_inv_add [OF inv ob tok', where i = ?j and acc = acc]) (simp_all add: slots_def)
  then have "child_ok held s' c t'"
    using fr by (simp add: child_ok_def s' set_table_commute t')
  ultimately show ?thesis by simp
qed

lemma inherit_list_inv:
  assumes "child_ok held s c t" and "c \<noteq> parent" and "clean t" and "inherit_list s parent hs t = Ok (t', s')"
  shows "child_ok held s' c t'"
  using assms
proof (induction hs arbitrary: s t)
  case Nil
  then show ?case by simp
next
  case (Cons h hs)
  then obtain t1 s1 where "inherit_handle s parent h t = Ok (t1, s1)" "inherit_list s1 parent hs t1 = Ok (t', s')"
    by (auto split: outcome.splits)
  then show ?case using Cons inherit_handle_inv by blast
qed

text \<open>Copying the inheritable entries of the parent, entry by entry.\<close>

definition prefix_table :: "handle_table \<Rightarrow> handle_entry list \<Rightarrow> handle_table" where
  "prefix_table t es = t\<lparr>ht_last := int (length es) - 1, ht_entries := es @ drop (length es) (ht_entries t)\<rparr>"

lemma find_entry_prefix:
  "find_entry (prefix_table t (es @ [Slot p acc])) =
   (case p of None \<Rightarrow> find_entry (prefix_table t es)
    | Some obj \<Rightarrow> (find_entry (prefix_table t es))(length es \<mapsto> (obj, acc)))"
  by (auto simp: find_entry_def prefix_table_def fun_eq_iff nth_append split: option.splits)

lemma prefix_table_ok:
  assumes "length (ht_entries t) = ht_count t" "MIN_HANDLE_ENTRIES \<le> ht_count t" "ht_count t \<le> MAX_HANDLE_ENTRIES"
    "ht_free t = 0" "length es \<le> ht_count t" "Uninit \<notin> set es"
  shows "table_ok (prefix_table t es)"
proof -
  have "es ! i \<noteq> Uninit" if "i < length es" for i using assms(6) that by (metis nth_mem)
  then show ?thesis using assms by (auto simp: table_ok_def prefix_table_def nth_append)
qed

lemma inherit_entries_inv:
  assumes t: "length (ht_entries t) = ht_count t" "MIN_HANDLE_ENTRIES \<le> ht_count t"
      "ht_count t \<le> MAX_HANDLE_ENTRIES" "ht_free t = 0"
    and "server_inv held (set_table s (Local c) (Some (prefix_table t pre)))"
    and "Uninit \<notin> set pre" "Uninit \<notin> set es" "length pre + length es \<le> ht_count t"
    and "\<And>obj acc. Slot (Some obj) acc \<in> set es \<Longrightarrow> sv_objects s obj \<noteq> None"
    and "inherit_entries es s = (es', s')"
  shows "server_inv held (set_table s' (Local c) (Some (prefix_table t (pre @ es')))) \<and>
    length es' = length es \<and> Uninit \<notin> set es'"
  using assms(5-)
proof (induction es arbitrary: s pre es')
  case Nil
  then show ?case by simp
next
  case (Cons en es)
  obtain p acc where en: "en = Slot p acc" using Cons.prems(3) by (cases en) auto
  show ?case
  proof (cases "\<exists>obj. p = Some obj \<and> acc AND RESERVED_INHERIT \<noteq> 0")
    case True
    then obtain obj where p: "p = Some obj" "acc AND RESERVED_INHERIT \<noteq> 0" by auto
    let ?s = "set_table s (Local c) (Some (prefix_table t pre))"
    obtain es1 s1 where rec0: "inherit_entries es (grab_object_for_handle obj s) = (es1, s1)" by force
    then have rec: "inherit_entries es (grab_object_for_handle obj s) = (es1, s')" "es' = en # es1"
      using Cons.prems(6) p en by simp_all
    obtain ob where ob: "sv_objects s obj = Some ob" using Cons.prems(5) [of obj acc] en p by auto
    have tok: "table_ok (prefix_table t (pre @ [en]))"
      using t Cons.prems(2,3,4) by (intro prefix_table_ok) auto
    have f: "find_entry (prefix_table t (pre @ [en])) = (slots ?s (Local c))(length pre \<mapsto> (obj, acc))"
      using find_entry_prefix [of t pre p acc] by (simp add: en p)
    have fresh: "slots ?s (Local c) (length pre) = None"
      by (simp add: find_entry_def prefix_table_def)
    have "server_inv held (grab_object_for_handle obj (set_table ?s (Local c) (Some (prefix_table t (pre @ [en])))))"
      by (rule server_inv_add [OF Cons.prems(1) _ tok f fresh]) (simp add: ob)
    then have inv: "server_inv held (set_table (grab_object_for_handle obj s) (Local c) (Some (prefix_table t (pre @ [en]))))"
      by (simp add: set_table_commute)
    have live: "Slot (Some x) a \<in> set es \<Longrightarrow> sv_objects (grab_object_for_handle obj s) x \<noteq> None" for x a
      using Cons.prems(5) [of x a] by (auto simp: grab_object_for_handle_objects)
    have "server_inv held (set_table s' (Local c) (Some (prefix_table t ((pre @ [en]) @ es1)))) \<and>
        length es1 = length es \<and> Uninit \<notin> set es1"
      using Cons.prems(2,3,4) by (intro Cons.IH [OF inv _ _ _ live rec(1)]) auto
    with rec(2) Cons.prems(3) show ?thesis by simp
  next
    case False
    let ?en = "Slot None acc"
    obtain es1 s1 where rec0: "inherit_entries es s = (es1, s1)" by force
    then have rec: "inherit_entries es s = (es1, s')" "es' = ?en # es1"
      using Cons.prems(6) False en by (cases p; simp)+
    have tok: "table_ok (prefix_table t (pre @ [?en]))"
      using t Cons.prems(2,3,4) by (intro prefix_table_ok) auto
    have inv: "server_inv held (set_table s (Local c) (Some (prefix_table t (pre @ [?en]))))"
      using server_inv_replace [OF Cons.prems(1) tok] find_entry_prefix [of t pre None acc] by simp
    have live: "Slot (Some x) a \<in> set es \<Longrightarrow> sv_objects s x \<noteq> None" for x a
      using Cons.prems(5) [of x a] by auto
    have "server_inv held (set_table s' (Local c) (Some (prefix_table t ((pre @ [?en]) @ es1)))) \<and>
        length es1 = length es \<and> Uninit \<notin> set es1"
      using Cons.prems(2,3,4) by (intro Cons.IH [OF inv _ _ _ live rec(1)]) auto
    with rec(2) show ?thesis by simp
  qed
qed

lemma copy_list_inv:
  assumes base: "server_inv held (set_table s (Local c) None)" and ne: "c \<noteq> parent"
    and t: "length (ht_entries t) = ht_count t" "ht_free t = 0" "ht_last t = - 1"
      "MIN_HANDLE_ENTRIES \<le> ht_count t" "ht_count t \<le> MAX_HANDLE_ENTRIES"
    and list: "inherit_list s parent hs (t\<lparr>ht_entries := replicate (ht_count t) (Slot None 0)\<rparr>) = Ok (t2, s')"
  shows "server_inv held (set_table s' (Local c) (Some t2))"
proof -
  let ?t = "t\<lparr>ht_entries := replicate (ht_count t) (Slot None 0)\<rparr>"
  have cl: "clean ?t" by (simp add: clean_def is_null_def)
  have em: "find_entry ?t = Map.empty" using t(3) by (simp add: find_entry_def fun_eq_iff)
  have tok: "table_ok ?t" using t by (simp add: table_ok_def)
  have "child_ok held s c ?t"
    using base server_inv_empty_table [OF em tok] t(2) by (simp add: child_ok_def)
  from inherit_list_inv [OF this ne cl list] show ?thesis by (simp add: child_ok_def)
qed

lemma parent_entries:
  assumes inv: "server_inv held s" and pt: "sv_tables s parent = Some pt"
  shows "Uninit \<notin> set (take (nat (ht_last pt + 1)) (ht_entries pt))"
    and "Slot (Some x) a \<in> set (take (nat (ht_last pt + 1)) (ht_entries pt)) \<Longrightarrow> sv_objects s x \<noteq> None"
    and "nat (ht_last pt + 1) \<le> length (ht_entries pt)" and "table_ok pt"
proof -
  let ?n = "nat (ht_last pt + 1)"
  show tok: "table_ok pt" using server_invD(1) [OF inv, of "Local parent" pt] pt by (simp add: table_at_def)
  then have "length (ht_entries pt) = ht_count pt" "ht_last pt < int (ht_count pt)" by (simp_all add: table_ok_def)
  then show n: "?n \<le> length (ht_entries pt)" by simp
  have ini: "ht_entries pt ! k \<noteq> Uninit" if "k < ?n" for k using tok that by (simp add: table_ok_def)
  show "Uninit \<notin> set (take ?n (ht_entries pt))"
  proof
    assume "Uninit \<in> set (take ?n (ht_entries pt))"
    then obtain k where "k < ?n" "ht_entries pt ! k = Uninit" by (auto simp: in_set_conv_nth)
    with ini show False by blast
  qed
  assume "Slot (Some x) a \<in> set (take ?n (ht_entries pt))"
  then obtain k where k: "k < ?n" "ht_entries pt ! k = Slot (Some x) a" by (auto simp: in_set_conv_nth)
  then have "slots s (Local parent) k = Some (x, a)" using pt by (simp add: slots_def table_at_def find_entry_def)
  then have "refs s x \<noteq> {}" by (auto simp: refs_def)
  then show "sv_objects s x \<noteq> None" using server_invD(2) [OF inv, of x] by auto
qed

lemma copy_all_inv:
  assumes inv: "server_inv held s" and base: "server_inv held (set_table s (Local c) None)"
    and pt: "sv_tables s parent = Some pt"
    and t: "length (ht_entries t) = ht_count t" "ht_free t = 0" "ht_count t = ht_count pt"
      "MIN_HANDLE_ENTRIES \<le> ht_count t" "ht_count t \<le> MAX_HANDLE_ENTRIES"
    and en: "inherit_entries (take (nat (ht_last pt + 1)) (ht_entries pt)) s = (es, s')"
  shows "server_inv held (set_table s' (Local c) (Some (t\<lparr>ht_last := ht_last pt,
    ht_entries := es @ drop (nat (ht_last pt + 1)) (ht_entries t)\<rparr>)))"
proof -
  let ?n = "nat (ht_last pt + 1)"
  note p = parent_entries [OF inv pt]
  have last: "- 1 \<le> ht_last pt" "length (ht_entries pt) = ht_count pt" using p(4) by (simp_all add: table_ok_def)
  have tok: "table_ok (prefix_table t [])" using t by (intro prefix_table_ok) simp_all
  have em: "find_entry (prefix_table t []) = Map.empty" by (simp add: find_entry_def prefix_table_def fun_eq_iff)
  have start: "server_inv held (set_table s (Local c) (Some (prefix_table t [])))"
    using base server_inv_empty_table [OF em tok] by simp
  have len: "length ([] :: handle_entry list) + length (take ?n (ht_entries pt)) \<le> ht_count t"
    using p(3) last t(3) by simp
  have "server_inv held (set_table s' (Local c) (Some (prefix_table t ([] @ es)))) \<and>
      length es = length (take ?n (ht_entries pt)) \<and> Uninit \<notin> set es"
    by (rule inherit_entries_inv [OF t(1,4,5,2) start _ p(1) len p(2) en]) simp
  then have fin: "server_inv held (set_table s' (Local c) (Some (prefix_table t es)))" "length es = ?n"
    using p(3) by simp_all
  have "prefix_table t es = t\<lparr>ht_last := ht_last pt, ht_entries := es @ drop ?n (ht_entries t)\<rparr>"
    using fin(2) last by (simp add: prefix_table_def)
  with fin(1) show ?thesis by simp
qed

lemma copy_handle_table_inv:
  assumes inv: "server_inv held s" and no: "sv_tables s c = None" and ne: "c \<noteq> parent"
    and copy: "copy_handle_table e s c parent handles std = Ok (t', s')"
  shows "server_inv held (set_table s' (Local c) (Some t'))"
proof -
  obtain pt where pt: "sv_tables s parent = Some pt"
    using copy by (cases "sv_tables s parent") (simp_all add: copy_handle_table_def)
  obtain t where al: "alloc_handle_table (en_mem_ok e) (Some c) (ht_count pt) = Some t"
    using copy pt by (cases "alloc_handle_table (en_mem_ok e) (Some c) (ht_count pt)") (simp_all add: copy_handle_table_def)
  have pb: "MIN_HANDLE_ENTRIES \<le> ht_count pt" "ht_count pt \<le> MAX_HANDLE_ENTRIES"
    using parent_entries(4) [OF inv pt] by (simp_all add: table_ok_def)
  have t: "ht_count t = ht_count pt" "length (ht_entries t) = ht_count t" "ht_free t = 0" "ht_last t = - 1"
    using al pb by (auto simp: alloc_handle_table_def Let_def split: if_splits)
  have base: "server_inv held (set_table s (Local c) None)"
    using inv no by (simp add: set_table_same table_at_def)
  obtain t1 where c1: "server_inv held (set_table s' (Local c) (Some t1))"
    and t': "t' = shrink_handle_table (en_mem_ok e) t1"
  proof (cases handles)
    case (Some hs)
    obtain t2 where r: "inherit_list s parent (hs @ std) (t\<lparr>ht_entries := replicate (ht_count t) (Slot None 0)\<rparr>) = Ok (t2, s')"
      "t' = shrink_handle_table (en_mem_ok e) t2"
      using copy pt al Some t by (auto simp: copy_handle_table_def split: outcome.splits)
    from copy_list_inv [OF base ne t(2,3,4) _ _ r(1)] show thesis using that r(2) t pb by simp
  next
    case None
    obtain es where r: "inherit_entries (take (nat (ht_last pt + 1)) (ht_entries pt)) s = (es, s')"
      "t' = shrink_handle_table (en_mem_ok e) (t\<lparr>ht_last := ht_last pt,
         ht_entries := es @ drop (nat (ht_last pt + 1)) (ht_entries t)\<rparr>)"
      using copy pt al None by (auto simp: copy_handle_table_def Let_def split: prod.splits)
    from copy_all_inv [OF inv base pt t(2,3,1) _ _ r(1)] show thesis using that r(2) t pb by simp
  qed
  have ok1: "table_ok t1" using server_invD(1) [OF c1, of "Local c" t1] by simp
  note b1 = ok1 [unfolded table_ok_def]
  have "table_ok t'" unfolding t' using b1 by (intro shrink_handle_table_ok) simp_all
  moreover have "find_entry t' = find_entry t1" unfolding t' using b1 by (intro shrink_handle_table_props) simp_all
  ultimately show ?thesis using server_inv_replace [OF c1] by blast
qed

section \<open>Handle values\<close>

lemma unat_index_to_handle: "i < MAX_HANDLE_ENTRIES \<Longrightarrow> unat (index_to_handle i) = 4 * (i + 1)"
proof -
  assume i: "i < MAX_HANDLE_ENTRIES"
  have "index_to_handle i = of_nat (4 * (i + 1))"
    by (simp add: index_to_handle_def push_bit_eq_mult)
  moreover have "unat (of_nat (4 * (i + 1)) :: u32) = 4 * (i + 1)"
    unfolding unat_of_nat using i by simp
  ultimately show ?thesis by (simp only:)
qed

lemma index_to_handle_inverse: "i < MAX_HANDLE_ENTRIES \<Longrightarrow> handle_to_index (index_to_handle i) = int i"
proof -
  assume i: "i < MAX_HANDLE_ENTRIES"
  have "unat (drop_bit 2 (index_to_handle i)) = unat (index_to_handle i) div 4"
    by (simp add: drop_bit_eq_div unat_div)
  then have "unat (drop_bit 2 (index_to_handle i)) = i + 1" using unat_index_to_handle [OF i] by simp
  then have "uint (drop_bit 2 (index_to_handle i)) = int i + 1" by (metis of_nat_1 of_nat_add uint_nat)
  then show ?thesis by (simp add: handle_to_index_def)
qed

lemma index_to_handle_nonzero: "i < MAX_HANDLE_ENTRIES \<Longrightarrow> index_to_handle i \<noteq> 0"
  using unat_index_to_handle [of i] by auto

text \<open>A handle of a process is never taken for a global one, and global handles are recognised.\<close>

lemma small_not_global: "unat h < 2 ^ 26 \<Longrightarrow> \<not> handle_is_global h"
proof
  assume h: "unat h < 2 ^ 26" and g: "handle_is_global h"
  have zero: "drop_bit 26 w = 0" if "unat w < 2 ^ 26" for w :: u32
    using that by (simp add: word_unat_eq_iff drop_bit_eq_div unat_div)
  have "drop_bit 26 (h XOR HANDLE_OBFUSCATOR) = 0"
    using g by (intro zero) (simp add: handle_is_global_def)
  moreover have "drop_bit 26 h = 0" using h by (rule zero)
  ultimately have "drop_bit 26 HANDLE_OBFUSCATOR = 0" by (simp only: drop_bit_xor xor_self_eq xor.left_neutral)
  then show False by simp
qed

lemma index_to_handle_local: "i < MAX_HANDLE_ENTRIES \<Longrightarrow> \<not> handle_is_global (index_to_handle i)"
  using unat_index_to_handle [of i] by (intro small_not_global) simp

lemma global_handle:
  assumes "i < MAX_HANDLE_ENTRIES"
  shows "handle_is_global (handle_local_to_global (index_to_handle i))"
    and "handle_global_to_local (handle_local_to_global (index_to_handle i)) = index_to_handle i"
proof -
  have x: "(w XOR HANDLE_OBFUSCATOR) XOR HANDLE_OBFUSCATOR = w" for w
    by (simp only: xor.assoc xor_self_eq xor.right_neutral)
  show "handle_global_to_local (handle_local_to_global (index_to_handle i)) = index_to_handle i"
    using index_to_handle_nonzero [OF assms] x by (simp add: handle_global_to_local_def handle_local_to_global_def)
  show "handle_is_global (handle_local_to_global (index_to_handle i))"
    using index_to_handle_nonzero [OF assms] x unat_index_to_handle [OF assms] assms
    by (simp add: handle_is_global_def handle_local_to_global_def)
qed

text \<open>What a handle denotes only depends on the slot it is converted to.\<close>

definition handle_place :: "proc_id \<Rightarrow> obj_handle \<Rightarrow> (table_ref \<times> nat) option" where
  "handle_place p h =
     (let r = (if handle_is_global h then Global else Local p);
          index = handle_to_index (if handle_is_global h then handle_global_to_local h else h)
      in if index < 0 then None else Some (r, nat index))"

lemma get_handle_place:
  "get_handle s p h = (case handle_place p h of None \<Rightarrow> None
     | Some (r, i) \<Rightarrow> map_option (\<lambda>(obj, acc). (r, i, obj, acc)) (slots s r i))"
  by (auto simp: get_handle_def handle_place_def slots_def Let_def find_entry_def
      split: option.splits handle_entry.splits)

lemma place_index_to_handle:
  "i < MAX_HANDLE_ENTRIES \<Longrightarrow> handle_place p (index_to_handle i) = Some (Local p, i)"
  by (simp add: handle_place_def index_to_handle_local index_to_handle_inverse)

lemma place_global:
  "i < MAX_HANDLE_ENTRIES \<Longrightarrow> handle_place p (handle_local_to_global (index_to_handle i)) = Some (Global, i)"
  by (simp add: handle_place_def global_handle index_to_handle_inverse)

section \<open>Requests as steps\<close>

lemma get_object_info_inv:
  assumes inv: "server_inv held s" and magic: "magic_ok e s" and info: "get_object_info e s h = (res, s')"
  shows "server_inv held s'"
proof -
  obtain r s1 where g: "get_handle_obj e s (cu_process (en_current e)) h 0 None = (r, s1)" by force
  show ?thesis
  proof (cases r)
    case (Ok obj)
    have held: "server_inv (held(obj := held obj + 1)) s1" and live: "sv_objects s1 obj \<noteq> None"
      using magic_held [OF inv _ g [unfolded Ok]] magic by (auto simp: magic_ok_def)
    then have "s' = release_object obj s1" using info g Ok by (auto simp: get_object_info_def)
    then show ?thesis using held_release [OF held] by simp
  qed (use info g get_handle_obj_err [OF g] inv in \<open>auto simp: get_object_info_def\<close>)
qed

lemma magic_ok_grab: "magic_ok e s \<Longrightarrow> magic_ok e (grab_object obj s)"
  by (auto simp: magic_ok_def grab_object_objects)

lemma compare_objects_inv:
  assumes inv: "server_inv held s" and magic: "magic_ok e s" and cmp: "compare_objects e s h1 h2 = (st, s')"
  shows "server_inv held s'"
proof -
  let ?p = "cu_process (en_current e)"
  obtain r s1 where g: "get_handle_obj e s ?p h1 0 None = (r, s1)" by force
  show ?thesis
  proof (cases r)
    case (Ok o1)
    have held: "server_inv (held(o1 := held o1 + 1)) s1" and s1: "s1 = grab_object o1 s"
      using magic_held [OF inv _ g [unfolded Ok]] magic by (auto simp: magic_ok_def)
    have magic1: "magic_ok e s1" unfolding s1 by (rule magic_ok_grab [OF magic])
    obtain r2 s2 where g2: "get_handle_obj e s1 ?p h2 0 None = (r2, s2)" by force
    show ?thesis
    proof (cases r2)
      case (Ok o2)
      have held2: "server_inv ((held(o1 := held o1 + 1))(o2 := (held(o1 := held o1 + 1)) o2 + 1)) s2"
        using magic_held(1) [OF held _ g2 [unfolded Ok]] magic1 by (auto simp: magic_ok_def)
      have "s' = release_object o1 (release_object o2 s2)"
        using cmp g g2 \<open>r = outcome.Ok o1\<close> Ok by (simp add: compare_objects_def)
      then show ?thesis using held_release [OF held_release [OF held2]] by simp
    next
      case (Err e2)
      then have "s' = release_object o1 s2" "s2 = s1"
        using cmp g g2 \<open>r = outcome.Ok o1\<close> get_handle_obj_err [OF g2] by (simp_all add: compare_objects_def)
      then show ?thesis using held_release [OF held] by simp
    next
      case Fault
      then show ?thesis using g2 by (auto simp: get_handle_obj_def split: option.splits if_splits)
    qed
  qed (use cmp g get_handle_obj_err [OF g] inv in \<open>auto simp: compare_objects_def\<close>)
qed

text \<open>
  One request or process event: opening an object, duplicating, closing or changing a
  handle, the queries, a process exit and the start of a process with inherited handles.
\<close>

inductive handle_step :: "server \<Rightarrow> server \<Rightarrow> bool" where
  step_open: "sv_objects s obj \<noteq> None \<Longrightarrow> alloc_handle e s p obj acc attr = (res, s') \<Longrightarrow> handle_step s s'"
| step_create: "sv_objects s obj \<noteq> None \<Longrightarrow> alloc_handle_no_access_check e s p obj acc attr = (res, s') \<Longrightarrow> handle_step s s'"
| step_close: "close_handle e s p h = (st, s') \<Longrightarrow> handle_step s s'"
| step_dup: "magic_ok e s \<Longrightarrow> dup_handle e s src dst h acc attr options = (res, s') \<Longrightarrow> handle_step s s'"
| step_flags: "set_handle_flags e s p h m f = (old, s') \<Longrightarrow> handle_step s s'"
| step_temporary: "magic_ok e s \<Longrightarrow> make_temporary e s h = (st, s') \<Longrightarrow> handle_step s s'"
| step_info: "magic_ok e s \<Longrightarrow> get_object_info e s h = (info, s') \<Longrightarrow> handle_step s s'"
| step_compare: "magic_ok e s \<Longrightarrow> compare_objects e s h1 h2 = (st, s') \<Longrightarrow> handle_step s s'"
| step_exit: "handle_step s (close_process_handles s p)"
| step_start: "sv_tables s c = None \<Longrightarrow> c \<noteq> parent \<Longrightarrow>
    copy_handle_table e s c parent handles std = Ok (t, s1) \<Longrightarrow> handle_step s (set_table s1 (Local c) (Some t))"

lemma handle_step_inv: "handle_step s s' \<Longrightarrow> server_inv held s \<Longrightarrow> server_inv held s'"
  by (induction rule: handle_step.induct)
    (blast intro: alloc_handle_inv alloc_handle_no_access_check_inv close_handle_inv dup_handle_inv
      set_handle_flags_inv make_temporary_inv get_object_info_inv compare_objects_inv
      close_process_handles_inv copy_handle_table_inv)+

lemma handle_steps_inv: "handle_step\<^sup>*\<^sup>* s s' \<Longrightarrow> server_inv held s \<Longrightarrow> server_inv held s'"
  by (induction rule: rtranclp_induct) (auto intro: handle_step_inv)

lemma server_inv_handle_alive:
  assumes "server_inv held s" and "get_handle s p h = Some (r, i, obj, acc)"
  shows "\<exists>ob. sv_objects s obj = Some ob \<and> ob_handle_count ob = card (refs s obj) \<and>
    0 < ob_handle_count ob \<and> ob_handle_count ob \<le> ob_refcount ob"
proof -
  obtain ob where ob: "sv_objects s obj = Some ob" using get_handle_object [OF assms] by auto
  have ok: "object_ok s held obj ob" by (rule server_invD(4) [OF assms(1) ob])
  have "(r, i) \<in> refs s obj" using get_handle_slots [OF assms(2)] by (auto simp: refs_def)
  then have "0 < card (refs s obj)" using ok by (auto simp: object_ok_def card_gt_0_iff)
  with ob ok show ?thesis by (auto simp: object_ok_def)
qed


section \<open>Properties\<close>

text \<open>A process without handles and one object, for the concrete instances below.\<close>

definition sample_env :: env where
  "sample_env = \<lparr>en_mem_ok = \<lambda>_. True, en_map_access = \<lambda>_ a. a, en_close_ok = \<lambda>_ _ _. True,
     en_current = \<lparr>cu_impersonation_token = None, cu_token = None, cu_process_token = None,
       cu_thread = 7, cu_process_obj = 7, cu_process = 5\<rparr>,
     en_thread_token = None, en_process_token = \<lambda>_. sample_token\<rparr>"

definition sample_table :: handle_table where
  "sample_table = \<lparr>ht_process = Some 5, ht_count = 32, ht_last = - 1, ht_free = 0, ht_entries = replicate 32 Uninit\<rparr>"

definition sample_object :: object where
  "sample_object = \<lparr>ob_refcount = 1, ob_handle_count = 0, ob_ops = 3, ob_permanent = False, ob_sd = None\<rparr>"

definition sample_server :: server where
  "sample_server = \<lparr>sv_objects = [7 \<mapsto> sample_object], sv_tables = [5 \<mapsto> sample_table], sv_global = None,
     sv_type_count = \<lambda>_. 0, sv_type_max = \<lambda>_. 0\<rparr>"

lemma sample_table_ok: "table_ok sample_table"
  by (simp add: table_ok_def sample_table_def)

lemma sample_server_slots: "slots sample_server r i = None"
  by (auto simp: slots_def table_at_def sample_server_def sample_table_def find_entry_def split: table_ref.splits)

lemma sample_server_ok: "server_ok sample_server"
proof -
  have "refs sample_server x = {}" for x by (simp add: refs_def sample_server_slots)
  then show ?thesis
    using sample_table_ok
    by (auto simp: server_inv_def object_ok_def table_at_def sample_server_def sample_object_def
        split: table_ref.splits if_splits)
qed

lemma sample_alloc:
  "alloc_entry (en_mem_ok sample_env) sample_table 7 a =
   Some (0, sample_table\<lparr>ht_last := 0, ht_free := 1, ht_entries := (ht_entries sample_table)[0 := Slot (Some 7) a]\<rparr>)"
  by (simp add: alloc_entry_def sample_table_def scan.simps)

definition sample_opened :: server where
  "sample_opened = snd (alloc_handle_entry sample_env sample_server 5 7 1 0)"

lemma sample_open: "alloc_handle_entry sample_env sample_server 5 7 1 0 = (Ok 4, sample_opened)"
proof -
  have "index_to_handle 0 = 4" by (simp add: index_to_handle_def)
  then show ?thesis
    unfolding sample_opened_def
    by (simp add: alloc_handle_entry_def alloc_table_entry_def sample_alloc
        sample_server_def)
qed

lemma sample_opened_slots:
  "slots sample_opened (Local 5) 0 = Some (7, 1)"
  by (simp add: sample_opened_def alloc_handle_entry_def alloc_table_entry_def sample_server_def sample_alloc
      slots_def)
    (simp add: find_entry_def sample_table_def)

lemma sample_opened_handle: "get_handle sample_opened 5 4 = Some (Local 5, 0, 7, 1)"
proof -
  have "handle_place 5 4 = Some (Local 5, 0)"
    using place_index_to_handle [of 0 5] by (simp add: index_to_handle_def)
  then show ?thesis by (simp add: get_handle_place sample_opened_slots)
qed

text \<open>
  (C1) Handles never dangle. From a well-formed state, after any sequence of requests and
  process events on handles, the state is well-formed again: the handle count of every
  object is the number of table entries that refer to it and is covered by its reference
  count, so that every valid handle of every process denotes an object that is alive.
\<close>

theorem handle_requests_safe:
  assumes "server_ok s" and "handle_step\<^sup>*\<^sup>* s s'" and "get_handle s' p h = Some (r, i, obj, acc)"
  shows "server_ok s' \<and> (\<exists>ob. sv_objects s' obj = Some ob \<and> ob_handle_count ob = card (refs s' obj) \<and>
    0 < ob_handle_count ob \<and> ob_handle_count ob \<le> ob_refcount ob)"
  using handle_steps_inv [OF assms(2,1)] server_inv_handle_alive [OF _ assms(3)] by blast

theorem handle_requests_safe_witness:
  "\<exists>ob. sv_objects sample_opened 7 = Some ob \<and> ob_handle_count ob = card (refs sample_opened 7) \<and> 0 < ob_handle_count ob"
proof -
  have "alloc_handle sample_env sample_server 5 7 1 0 = (Ok 4, sample_opened)"
    using sample_open
    by (simp add: alloc_handle_def object_access_def check_object_access_def sample_env_def sample_server_def
        sample_object_def)
  then have "handle_step sample_server sample_opened"
    by (rule step_open [rotated]) (simp add: sample_server_def)
  then have "handle_step\<^sup>*\<^sup>* sample_server sample_opened" by simp
  from handle_requests_safe [OF sample_server_ok this sample_opened_handle] show ?thesis by blast
qed

lemma or_and_not: "(x OR y) AND NOT y = x AND NOT (y :: 'a :: len word)"
  by (rule bit_eqI) (auto simp: bit_and_iff bit_or_iff bit_not_iff)

text \<open>
  (C2) Opening a handle. The new handle is a non-zero multiple of four that was not valid
  before, the lowest one that was free; it denotes the object with the granted access, and
  every handle that is converted to another slot denotes what it did before.
\<close>

theorem alloc_handle_entry_correct:
  assumes "server_ok s" and "alloc_handle_entry e s p obj acc attr = (Ok h, s')"
  shows "h \<noteq> 0 \<and> unat h mod 4 = 0 \<and> get_handle s p h = None \<and>
    (\<exists>i acc'. get_handle s' p h = Some (Local p, i, obj, acc') \<and> acc' AND NOT RESERVED_INHERIT = acc AND NOT RESERVED_INHERIT \<and>
      (\<forall>j < i. get_handle s p (index_to_handle j) \<noteq> None)) \<and>
    (\<forall>p' h'. handle_place p' h' \<noteq> handle_place p h \<longrightarrow> get_handle s' p' h' = get_handle s p' h')"
proof -
  let ?acc = "if attr AND OBJ_INHERIT \<noteq> 0 then acc OR RESERVED_INHERIT else acc"
  obtain t i t' where t: "sv_tables s p = Some t" and al: "alloc_entry (en_mem_ok e) t obj ?acc = Some (i, t')"
    and h: "h = index_to_handle i" and s': "s' = grab_object_for_handle obj (set_table s (Local p) (Some t'))"
    using assms(2)
    by (auto simp: alloc_handle_entry_def alloc_table_entry_def Let_def split: if_splits option.splits prod.splits)
  have tab: "table_at s (Local p) = Some t" using t by (simp add: table_at_def)
  note c = alloc_entry_correct [OF server_invD(1) [OF assms(1) tab] al]
  have sl: "slots s (Local p) = find_entry t" using tab by (simp add: slots_def fun_eq_iff)
  have sl': "slots s' r j = (if r = Local p \<and> j = i then Some (obj, ?acc) else slots s r j)" for r j
    using c(3) tab by (auto simp: s' slots_def)
  note pl = place_index_to_handle [OF c(4)]
  have "get_handle s p h = None" using c(2) sl by (simp add: h get_handle_place pl)
  moreover have "get_handle s' p h = Some (Local p, i, obj, ?acc)" by (simp add: h get_handle_place pl sl')
  moreover have "?acc AND NOT RESERVED_INHERIT = acc AND NOT RESERVED_INHERIT"
    using or_and_not [of acc RESERVED_INHERIT] by simp
  moreover have "\<forall>j < i. get_handle s p (index_to_handle j) \<noteq> None"
    using c(4,6) sl by (auto simp: get_handle_place place_index_to_handle)
  ultimately have "get_handle s p h = None" "\<exists>i acc'. get_handle s' p h = Some (Local p, i, obj, acc') \<and>
      acc' AND NOT RESERVED_INHERIT = acc AND NOT RESERVED_INHERIT \<and>
      (\<forall>j < i. get_handle s p (index_to_handle j) \<noteq> None)" by blast+
  moreover have "\<forall>p' h'. handle_place p' h' \<noteq> handle_place p h \<longrightarrow> get_handle s' p' h' = get_handle s p' h'"
    by (auto simp: get_handle_place h pl sl' split: option.splits)
  moreover have "unat h mod 4 = 0" using unat_index_to_handle [OF c(4)] by (simp add: h)
  moreover have "h \<noteq> 0" using index_to_handle_nonzero [OF c(4)] h by simp
  ultimately show ?thesis by blast
qed

theorem alloc_handle_entry_correct_witness:
  "get_handle sample_server 5 4 = None \<and> (\<exists>i acc'. get_handle sample_opened 5 4 = Some (Local 5, i, 7, acc'))"
  using alloc_handle_entry_correct [OF sample_server_ok sample_open] by blast



lemma xor_zero:
  assumes "x XOR y = 0" shows "x = (y :: 'a :: len word)"
proof -
  have "\<not> bit (x XOR y) n" for n using assms by simp
  then show ?thesis by (intro bit_eqI) (auto simp: bit_xor_iff)
qed

text \<open>
  (C36) Duplicating a handle as a global handle with more access than the source handle has
  makes the server read the token of a destination process that does not exist.
\<close>

theorem dup_global_more_access_fault:
  assumes "get_handle s p h = Some (r, i, obj, acc)" and "get_magic_handle e h = None"
    and "options AND DUPLICATE_MAKE_GLOBAL \<noteq> 0" and "options AND DUPLICATE_SAME_ACCESS = 0"
    and "(en_map_access e obj access0 AND NOT RESERVED_ALL) AND NOT (acc AND NOT RESERVED_ALL) \<noteq> 0"
    and "en_thread_token e = None"
  shows "fst (dup_handle e s (Some p) dst h access0 attr options) = Fault"
proof -
  have same: "get_handle (grab_object obj s) p h = get_handle s p h"
    by (simp add: get_handle_def)
  have "fst (duplicate_handle e s p h None access0 attr options) = Fault"
    using assms by (simp add: duplicate_handle_def get_handle_obj_def same check_more_access_def Let_def)
  then show ?thesis
    using assms(3) by (cases "duplicate_handle e s p h None access0 attr options") (simp add: dup_handle_def Let_def)
qed

theorem dup_global_more_access_fault_witness:
  "fst (dup_handle sample_env sample_opened (Some 5) None 4 3 0 DUPLICATE_MAKE_GLOBAL) = Fault"
  by (rule dup_global_more_access_fault [OF sample_opened_handle])
    (simp_all add: sample_env_def get_magic_handle_def)

text \<open>
  A global handle that was marked inheritable cannot be inherited: its index is taken
  from the handle before the conversion and lies outside the table of the child.
\<close>

theorem inherit_global_handle_fault:
  assumes "get_handle s parent h = Some (Global, i, obj, acc)" and "acc AND RESERVED_INHERIT \<noteq> 0"
    and "length (ht_entries t) \<le> MAX_HANDLE_ENTRIES"
  shows "inherit_handle s parent h t = Fault"
proof -
  have g: "handle_is_global h"
    using assms(1) by (auto simp: get_handle_def Let_def split: option.splits if_splits)
  have "drop_bit 26 (h XOR HANDLE_OBFUSCATOR) = 0"
    using g by (simp add: handle_is_global_def word_unat_eq_iff drop_bit_eq_div unat_div)
  then have "drop_bit 26 h XOR drop_bit 26 HANDLE_OBFUSCATOR = 0" by (simp only: drop_bit_xor)
  then have "drop_bit 26 h = drop_bit 26 HANDLE_OBFUSCATOR" by (rule xor_zero)
  then have "unat (drop_bit 26 h) = 21" by simp
  then have "unat h div 2 ^ 26 = 21" by (simp add: drop_bit_eq_div unat_div)
  then have "2 ^ 26 * 21 \<le> unat h" using times_div_less_eq_dividend [of "2 ^ 26" "unat h"] by simp
  then have "2 ^ 24 * 21 \<le> unat (drop_bit 2 h)" by (simp add: drop_bit_eq_div unat_div)
  then have "int (2 ^ 24 * 21) \<le> uint (drop_bit 2 h)" by (metis of_nat_le_iff uint_nat)
  then have "int (length (ht_entries t)) \<le> handle_to_index h" using assms(3) by (simp add: handle_to_index_def)
  then show ?thesis using assms(1,2) by (simp add: inherit_handle_def Let_def)
qed

definition sample_global :: server where
  "sample_global = sample_server\<lparr>sv_global := Some (sample_table\<lparr>ht_last := 0,
     ht_entries := (ht_entries sample_table)[0 := Slot (Some 7) RESERVED_INHERIT]\<rparr>)\<rparr>"

theorem inherit_global_handle_fault_witness:
  "inherit_handle sample_global 5 (handle_local_to_global (index_to_handle 0)) sample_table = Fault"
proof -
  have "get_handle sample_global 5 (handle_local_to_global (index_to_handle 0)) = Some (Global, 0, 7, RESERVED_INHERIT)"
    by (simp add: get_handle_place place_global slots_def table_at_def sample_global_def find_entry_def sample_table_def)
  then show ?thesis
    by (rule inherit_global_handle_fault) (simp_all add: sample_table_def)
qed

text \<open>
  An access control entry may name the bits that the handle tables reserve. Opening
  such an object with a maximum-allowed request then grants a reserved bit and violates
  the assertion of \<^verbatim>\<open>alloc_handle_entry\<close>.
\<close>

theorem alloc_handle_reserved_bit_fault:
  "let s = sample_server\<lparr>sv_objects := [7 \<mapsto> sample_object\<lparr>ob_sd :=
         Some (sample_sd [set_ace (sample_sid 1000) ACCESS_ALLOWED_ACE_TYPE 0 RESERVED_INHERIT])\<rparr>]\<rparr>
   in fst (alloc_handle sample_env s 5 7 MAXIMUM_ALLOWED 0) = Fault"
proof -
  let ?sd = "sample_sd [set_ace (sample_sid 1000) ACCESS_ALLOWED_ACE_TYPE 0 RESERVED_INHERIT]"
  have "check_object_access None sample_token (\<lambda>a. a) (Some ?sd) MAXIMUM_ALLOWED = (True, RESERVED_INHERIT)"
    by (simp add: check_object_access_def token_access_check_def dacl_check_def map_access_def token_sid_present_def
        sample_defs Let_def)
  then show ?thesis
    by (simp add: alloc_handle_def object_access_def alloc_handle_entry_def sample_env_def sample_server_def
        sample_object_def Let_def)
qed

end
