(* ===== verification/Region.thy ===== *)
theory Region
  imports Prelude
begin

text \<open>
  Regions (\<^verbatim>\<open>server/region.c\<close>, with the rectangle helpers of \<^verbatim>\<open>server/user.h\<close>): sets of
  pixels as lists of rectangles in bands from top to bottom and from left to right.

  A region is a record of the number of rectangles its array has room for, the rectangles
  in use and the extents. Coordinates are integers: the set operations only compare them;
  where the code adds or multiplies them the 32-bit result is written out. Functions that
  write through a region pointer work on a heap of regions, so that a destination that is
  also a source is covered. The parameter \<open>mem\<close> says which allocations succeed, by their
  size in bytes.
\<close>

section \<open>Rectangles\<close>

record rectangle =
  left :: int
  top :: int
  right :: int
  bottom :: int

definition empty_rect :: rectangle where
  "empty_rect = \<lparr>left = 0, top = 0, right = 0, bottom = 0\<rparr>"

definition is_rect_equal :: "rectangle \<Rightarrow> rectangle \<Rightarrow> bool" where
  "is_rect_equal r1 r2 \<longleftrightarrow> left r1 = left r2 \<and> right r1 = right r2 \<and> top r1 = top r2 \<and> bottom r1 = bottom r2"

definition is_rect_empty :: "rectangle \<Rightarrow> bool" where
  "is_rect_empty r \<longleftrightarrow> left r \<ge> right r \<or> top r \<ge> bottom r"

definition point_in_rect :: "rectangle \<Rightarrow> int \<Rightarrow> int \<Rightarrow> bool" where
  "point_in_rect r x y \<longleftrightarrow> x \<ge> left r \<and> x < right r \<and> y \<ge> top r \<and> y < bottom r"

definition to_int32 :: "int \<Rightarrow> int" where
  "to_int32 x = (x + 2 ^ 31) mod 2 ^ 32 - 2 ^ 31"

text \<open>The operands of different signedness make the division an unsigned one.\<close>

definition scale_dpi :: "int \<Rightarrow> nat \<Rightarrow> nat \<Rightarrow> int" where
  "scale_dpi val dpi_from dpi_to =
     (if val \<ge> 0
      then to_int32 (((val * int dpi_to + int (dpi_from div 2)) mod 2 ^ 32) div int dpi_from)
      else to_int32 (((val * int dpi_to - int (dpi_from div 2)) mod 2 ^ 32) div int dpi_from))"

definition scale_dpi_rect :: "nat \<Rightarrow> nat \<Rightarrow> rectangle \<Rightarrow> rectangle" where
  "scale_dpi_rect dpi_from dpi_to r =
     \<lparr>left = scale_dpi (left r) dpi_from dpi_to, top = scale_dpi (top r) dpi_from dpi_to,
      right = scale_dpi (right r) dpi_from dpi_to, bottom = scale_dpi (bottom r) dpi_from dpi_to\<rparr>"

definition offset_rect :: "int \<Rightarrow> int \<Rightarrow> rectangle \<Rightarrow> rectangle" where
  "offset_rect x y r =
     \<lparr>left = to_int32 (left r + x), top = to_int32 (top r + y),
      right = to_int32 (right r + x), bottom = to_int32 (bottom r + y)\<rparr>"

definition mirror_rect :: "rectangle \<Rightarrow> rectangle \<Rightarrow> rectangle" where
  "mirror_rect client_rect r =
     (let width = to_int32 (right client_rect - left client_rect)
      in r\<lparr>left := to_int32 (width - right r), right := to_int32 (width - left r)\<rparr>)"

definition intersect_rect :: "rectangle \<Rightarrow> rectangle \<Rightarrow> bool \<times> rectangle" where
  "intersect_rect src1 src2 =
     (let dst = \<lparr>left = max (left src1) (left src2), top = max (top src1) (top src2),
                 right = min (right src1) (right src2), bottom = min (bottom src1) (bottom src2)\<rparr>
      in (\<not> is_rect_empty dst, dst))"

section \<open>Region structure\<close>

record region =
  rg_size :: nat
  rg_rects :: "rectangle list"
  rg_extents :: rectangle

abbreviation "RGN_DEFAULT_RECTS \<equiv> 2 :: nat"
abbreviation "RECT_SIZE \<equiv> 16 :: nat"
abbreviation "REGION_SIZE \<equiv> 32 :: nat"

definition EXTENTCHECK :: "rectangle \<Rightarrow> rectangle \<Rightarrow> bool" where
  "EXTENTCHECK r1 r2 \<longleftrightarrow> right r1 > left r2 \<and> left r1 < right r2 \<and> bottom r1 > top r2 \<and> top r1 < bottom r2"

text \<open>
  A step of an operation either succeeds (right) or fails for lack of memory (left); in
  both cases it leaves a region.
\<close>

type_synonym step_result = "region + region"

definition add_rect :: "(nat \<Rightarrow> bool) \<Rightarrow> region \<Rightarrow> rectangle \<Rightarrow> step_result" where
  "add_rect mem reg rect =
     (if length (rg_rects reg) \<ge> rg_size reg then
        (if mem (2 * RECT_SIZE * rg_size reg)
         then Inr (reg\<lparr>rg_size := rg_size reg * 2, rg_rects := rg_rects reg @ [rect]\<rparr>)
         else Inl reg)
      else Inr (reg\<lparr>rg_rects := rg_rects reg @ [rect]\<rparr>))"

fun validate_rectangles :: "rectangle list \<Rightarrow> bool" where
  "validate_rectangles [] \<longleftrightarrow> True"
| "validate_rectangles [r] \<longleftrightarrow> \<not> is_rect_empty r"
| "validate_rectangles (r # r' # rs) \<longleftrightarrow>
     \<not> is_rect_empty r \<and>
     (if top r = top r' then bottom r = bottom r' \<and> \<not> right r \<ge> left r'
      else \<not> bottom r > top r') \<and>
     validate_rectangles (r' # rs)"

text \<open>The start of the last band, found backwards from the end.\<close>

definition last_band_start :: "rectangle list \<Rightarrow> nat" where
  "last_band_start rs = length rs - length (takeWhile (\<lambda>r. top r = top (last rs)) (rev rs))"

definition coalesce_region :: "region \<Rightarrow> nat \<Rightarrow> nat \<Rightarrow> region \<times> nat" where
  "coalesce_region reg prevStart curStart =
     (let rs = rg_rects reg;
          prev = take (curStart - prevStart) (drop prevStart rs);
          cur = takeWhile (\<lambda>r. top r = top (rs ! curStart)) (drop curStart rs);
          rest = drop (curStart + length cur) rs;
          curStart' = (if rest \<noteq> [] then last_band_start rs else curStart)
      in if length cur = length prev \<and> length cur \<noteq> 0 \<and> bottom (hd prev) = top (hd cur) \<and>
            list_all2 (\<lambda>p c. left p = left c \<and> right p = right c) prev cur
         then (reg\<lparr>rg_rects := take prevStart rs @ map2 (\<lambda>p c. p\<lparr>bottom := bottom c\<rparr>) prev cur @ rest\<rparr>,
               if rest = [] then prevStart else curStart')
         else (reg, curStart'))"

section \<open>The band operation\<close>

type_synonym overlap_func =
  "region \<Rightarrow> rectangle list \<Rightarrow> rectangle list \<Rightarrow> int \<Rightarrow> int \<Rightarrow> step_result"
type_synonym non_overlap_func =
  "region \<Rightarrow> rectangle list \<Rightarrow> int \<Rightarrow> int \<Rightarrow> step_result"

text \<open>The rectangles of the first band of a list and those after it.\<close>

definition first_band :: "rectangle list \<Rightarrow> rectangle list" where
  "first_band rs = takeWhile (\<lambda>r. top r = top (hd rs)) rs"

definition after_band :: "rectangle list \<Rightarrow> rectangle list" where
  "after_band rs = dropWhile (\<lambda>r. top r = top (hd rs)) rs"

text \<open>\<^verbatim>\<open>if (newReg->num_rects != curBand) prevBand = coalesce_region(...)\<close>\<close>

definition coalesce_new :: "nat \<Rightarrow> nat \<Rightarrow> region \<Rightarrow> region \<times> nat" where
  "coalesce_new prevBand curBand reg =
     (if length (rg_rects reg) \<noteq> curBand then coalesce_region reg prevBand curBand else (reg, prevBand))"

definition call_non_overlap :: "non_overlap_func option \<Rightarrow> region \<Rightarrow> rectangle list \<Rightarrow> int \<Rightarrow> int \<Rightarrow> step_result" where
  "call_non_overlap f reg rs t b =
     (case f of Some g \<Rightarrow> if t \<noteq> b then g reg rs t b else Inr reg | None \<Rightarrow> Inr reg)"

text \<open>
  One round of the main loop on the remaining rectangles \<open>r1\<close> and \<open>r2\<close> of the sources: the
  part of the higher band above the lower one, then the common part of both bands.
\<close>

definition region_op_step :: "overlap_func \<Rightarrow> non_overlap_func option \<Rightarrow> non_overlap_func option
    \<Rightarrow> region \<Rightarrow> nat \<Rightarrow> int \<Rightarrow> rectangle list \<Rightarrow> rectangle list
    \<Rightarrow> region + (region \<times> nat \<times> int \<times> rectangle list \<times> rectangle list)" where
  "region_op_step overlap non1 non2 reg prevBand ybot r1 r2 =
     (let curBand = length (rg_rects reg);
          above = (if top (hd r1) < top (hd r2)
                   then call_non_overlap non1 reg (first_band r1)
                          (max (top (hd r1)) ybot) (min (bottom (hd r1)) (top (hd r2)))
                   else if top (hd r2) < top (hd r1)
                   then call_non_overlap non2 reg (first_band r2)
                          (max (top (hd r2)) ybot) (min (bottom (hd r2)) (top (hd r1)))
                   else Inr reg);
          ytop = max (top (hd r1)) (top (hd r2))
      in case above of
           Inl reg1 \<Rightarrow> Inl reg1
         | Inr reg1 \<Rightarrow>
             (let (reg2, prevBand2) = coalesce_new prevBand curBand reg1;
                  ybot' = min (bottom (hd r1)) (bottom (hd r2));
                  curBand2 = length (rg_rects reg2)
              in case (if ybot' > ytop then overlap reg2 (first_band r1) (first_band r2) ytop ybot'
                       else Inr reg2) of
                   Inl reg3 \<Rightarrow> Inl reg3
                 | Inr reg3 \<Rightarrow>
                     (let (reg4, prevBand4) = coalesce_new prevBand2 curBand2 reg3
                      in Inr (reg4, prevBand4, ybot',
                              if bottom (hd r1) = ybot' then after_band r1 else r1,
                              if bottom (hd r2) = ybot' then after_band r2 else r2))))"

lemma after_band_shorter: "rs \<noteq> [] \<Longrightarrow> length (after_band rs) < length rs"
  by (simp add: after_band_def length_dropWhile_less)

lemma region_op_step_rest:
  assumes "region_op_step overlap non1 non2 reg prevBand ybot r1 r2 = Inr (reg', prevBand', ybot', r1', r2')"
  shows "ybot' = min (bottom (hd r1)) (bottom (hd r2))"
    and "r1' = (if bottom (hd r1) = ybot' then after_band r1 else r1)"
    and "r2' = (if bottom (hd r2) = ybot' then after_band r2 else r2)"
  using assms by (auto simp: region_op_step_def Let_def split: sum.splits prod.splits if_splits)

lemma region_op_step_shorter:
  assumes "region_op_step overlap non1 non2 reg prevBand ybot r1 r2 = Inr (reg', prevBand', ybot', r1', r2')"
    and "r1 \<noteq> []" and "r2 \<noteq> []"
  shows "length r1' + length r2' < length r1 + length r2"
proof -
  have len: "length (after_band r1) < length r1" "length (after_band r2) < length r2"
    using assms(2,3) by (simp_all add: after_band_shorter)
  have "ybot' = bottom (hd r1) \<or> ybot' = bottom (hd r2)"
    using region_op_step_rest(1) [OF assms(1)] by linarith
  then have "(r1' = after_band r1 \<or> r1' = r1) \<and> (r2' = after_band r2 \<or> r2' = r2) \<and>
      (r1' = after_band r1 \<or> r2' = after_band r2)"
    using region_op_step_rest(2,3) [OF assms(1)] by presburger
  then show ?thesis using len by (elim conjE disjE) simp_all
qed

function region_op_loop :: "overlap_func \<Rightarrow> non_overlap_func option \<Rightarrow> non_overlap_func option
    \<Rightarrow> region \<Rightarrow> nat \<Rightarrow> int \<Rightarrow> rectangle list \<Rightarrow> rectangle list
    \<Rightarrow> region + (region \<times> nat \<times> int \<times> rectangle list \<times> rectangle list)" where
  "region_op_loop overlap non1 non2 reg prevBand ybot r1 r2 =
     (if r1 \<noteq> [] \<and> r2 \<noteq> [] then
        (case region_op_step overlap non1 non2 reg prevBand ybot r1 r2 of
           Inl reg' \<Rightarrow> Inl reg'
         | Inr (reg', prevBand', ybot', r1', r2') \<Rightarrow>
             region_op_loop overlap non1 non2 reg' prevBand' ybot' r1' r2')
      else Inr (reg, prevBand, ybot, r1, r2))"
  by pat_completeness auto
termination
  by (relation "measure (\<lambda>(overlap, non1, non2, reg, prevBand, ybot, r1, r2). length r1 + length r2)")
    (auto dest: region_op_step_shorter)

declare region_op_loop.simps [simp del]

function region_op_tail :: "non_overlap_func \<Rightarrow> int \<Rightarrow> region \<Rightarrow> rectangle list \<Rightarrow> step_result" where
  "region_op_tail f ybot reg rs =
     (if rs = [] then Inr reg
      else case f reg (first_band rs) (max (top (hd rs)) ybot) (bottom (hd rs)) of
             Inl reg' \<Rightarrow> Inl reg'
           | Inr reg' \<Rightarrow> region_op_tail f ybot reg' (after_band rs))"
  by pat_completeness auto
termination
  by (relation "measure (\<lambda>(f, ybot, reg, rs). length rs)") (auto simp: after_band_shorter)

declare region_op_tail.simps [simp del]

text \<open>
  Both sources have rectangles when the operation is called, so that testing before the
  first round makes no difference.
\<close>

definition region_op :: "(nat \<Rightarrow> bool) \<Rightarrow> region \<Rightarrow> region \<Rightarrow> region
    \<Rightarrow> overlap_func \<Rightarrow> non_overlap_func option \<Rightarrow> non_overlap_func option \<Rightarrow> step_result" where
  "region_op mem newReg reg1 reg2 overlap non1 non2 =
     (let new_size = max (length (rg_rects reg1)) (length (rg_rects reg2)) * 2
      in if \<not> mem (new_size * RECT_SIZE) then Inl newReg
         else
           (let ybot = (if top (rg_extents reg1) < top (rg_extents reg2)
                        then top (rg_extents reg1) else top (rg_extents reg2))
            in case region_op_loop overlap non1 non2 (newReg\<lparr>rg_size := new_size, rg_rects := []\<rparr>) 0 ybot
                      (rg_rects reg1) (rg_rects reg2) of
                 Inl reg \<Rightarrow> Inl reg
               | Inr (reg, prevBand, ybot', r1, r2) \<Rightarrow>
                   (let curBand = length (rg_rects reg)
                    in case (if r1 \<noteq> [] then
                               (case non1 of Some f \<Rightarrow> region_op_tail f ybot' reg r1 | None \<Rightarrow> Inr reg)
                             else
                               (case non2 of Some f \<Rightarrow> region_op_tail f ybot' reg r2 | None \<Rightarrow> Inr reg)) of
                         Inl reg' \<Rightarrow> Inl reg'
                       | Inr reg' \<Rightarrow>
                           (let reg'' = fst (coalesce_new prevBand curBand reg');
                                n = length (rg_rects reg'')
                            in if n < rg_size reg'' div 2 \<and> rg_size reg'' > 2 \<and>
                                  mem (RECT_SIZE * max n RGN_DEFAULT_RECTS)
                               then Inr (reg''\<lparr>rg_size := max n RGN_DEFAULT_RECTS\<rparr>)
                               else Inr reg''))))"

definition set_region_extents :: "region \<Rightarrow> region" where
  "set_region_extents reg =
     (case rg_rects reg of
        [] \<Rightarrow> reg\<lparr>rg_extents := \<lparr>left = 0, top = 0, right = 0, bottom = 0\<rparr>\<rparr>
      | r # rs \<Rightarrow>
          (let l = last (r # rs);
               ext0 = \<lparr>left = left r, top = top r, right = right l, bottom = bottom l\<rparr>
           in reg\<lparr>rg_extents :=
                fold (\<lambda>p ext.
                    let ext1 = (if left p < left ext then ext\<lparr>left := left p\<rparr> else ext)
                    in if right p > right ext1 then ext1\<lparr>right := right p\<rparr> else ext1)
                  (r # rs) ext0\<rparr>))"

section \<open>The bands of the operations\<close>

definition band_rect :: "int \<Rightarrow> int \<Rightarrow> int \<Rightarrow> int \<Rightarrow> rectangle" where
  "band_rect l t r b = \<lparr>left = l, top = t, right = r, bottom = b\<rparr>"

fun intersect_overlapping :: "(nat \<Rightarrow> bool) \<Rightarrow> overlap_func" where
  "intersect_overlapping mem reg (r1 # rs1) (r2 # rs2) t b =
     (let l = max (left r1) (left r2);
          r = min (right r1) (right r2)
      in case (if l < r then add_rect mem reg (band_rect l t r b) else Inr reg) of
           Inl reg' \<Rightarrow> Inl reg'
         | Inr reg' \<Rightarrow>
             if right r1 < right r2 then intersect_overlapping mem reg' rs1 (r2 # rs2) t b
             else if right r2 < right r1 then intersect_overlapping mem reg' (r1 # rs1) rs2 t b
             else intersect_overlapping mem reg' rs1 rs2 t b)"
| "intersect_overlapping mem reg rs1 rs2 t b = Inr reg"

fun subtract_non_overlapping :: "(nat \<Rightarrow> bool) \<Rightarrow> non_overlap_func" where
  "subtract_non_overlapping mem reg [] t b = Inr reg"
| "subtract_non_overlapping mem reg (r # rs) t b =
     (case add_rect mem reg (band_rect (left r) t (right r) b) of
        Inl reg' \<Rightarrow> Inl reg'
      | Inr reg' \<Rightarrow> subtract_non_overlapping mem reg' rs t b)"

text \<open>The value of \<open>left\<close> after \<open>r1\<close> has moved on to \<open>rs1\<close>.\<close>

definition next_left :: "int \<Rightarrow> rectangle list \<Rightarrow> int" where
  "next_left l rs1 = (if rs1 \<noteq> [] then left (hd rs1) else l)"

fun subtract_loop :: "(nat \<Rightarrow> bool) \<Rightarrow> region \<Rightarrow> int \<Rightarrow> rectangle list \<Rightarrow> rectangle list \<Rightarrow> int \<Rightarrow> int \<Rightarrow> step_result" where
  "subtract_loop mem reg l (r1 # rs1) (r2 # rs2) t b =
     (if right r2 \<le> l then subtract_loop mem reg l (r1 # rs1) rs2 t b
      else if left r2 \<le> l then
        (if right r2 \<ge> right r1
         then subtract_loop mem reg (next_left (right r2) rs1) rs1 (r2 # rs2) t b
         else subtract_loop mem reg (right r2) (r1 # rs1) rs2 t b)
      else if left r2 < right r1 then
        (case add_rect mem reg (band_rect l t (left r2) b) of
           Inl reg' \<Rightarrow> Inl reg'
         | Inr reg' \<Rightarrow>
             if right r2 \<ge> right r1
             then subtract_loop mem reg' (next_left (right r2) rs1) rs1 (r2 # rs2) t b
             else subtract_loop mem reg' (right r2) (r1 # rs1) rs2 t b)
      else
        (case (if right r1 > l then add_rect mem reg (band_rect l t (right r1) b) else Inr reg) of
           Inl reg' \<Rightarrow> Inl reg'
         | Inr reg' \<Rightarrow> subtract_loop mem reg' (next_left l rs1) rs1 (r2 # rs2) t b))"
| "subtract_loop mem reg l (r1 # rs1) [] t b =
     (case add_rect mem reg (band_rect l t (right r1) b) of
        Inl reg' \<Rightarrow> Inl reg'
      | Inr reg' \<Rightarrow> subtract_loop mem reg' (next_left l rs1) rs1 [] t b)"
| "subtract_loop mem reg l [] rs2 t b = Inr reg"

definition subtract_overlapping :: "(nat \<Rightarrow> bool) \<Rightarrow> overlap_func" where
  "subtract_overlapping mem reg r1 r2 t b = subtract_loop mem reg (left (hd r1)) r1 r2 t b"

fun union_non_overlapping :: "(nat \<Rightarrow> bool) \<Rightarrow> non_overlap_func" where
  "union_non_overlapping mem reg [] t b = Inr reg"
| "union_non_overlapping mem reg (r # rs) t b =
     (case add_rect mem reg (band_rect (left r) t (right r) b) of
        Inl reg' \<Rightarrow> Inl reg'
      | Inr reg' \<Rightarrow> union_non_overlapping mem reg' rs t b)"

definition MERGERECT :: "(nat \<Rightarrow> bool) \<Rightarrow> region \<Rightarrow> rectangle \<Rightarrow> int \<Rightarrow> int \<Rightarrow> step_result" where
  "MERGERECT mem reg r t b =
     (let rs = rg_rects reg; l = last rs
      in if rs \<noteq> [] \<and> top l = t \<and> bottom l = b \<and> right l \<ge> left r
         then (if right l < right r
               then Inr (reg\<lparr>rg_rects := butlast rs @ [l\<lparr>right := right r\<rparr>]\<rparr>)
               else Inr reg)
         else add_rect mem reg (band_rect (left r) t (right r) b))"

fun union_overlapping :: "(nat \<Rightarrow> bool) \<Rightarrow> overlap_func" where
  "union_overlapping mem reg (r1 # rs1) (r2 # rs2) t b =
     (if left r1 < left r2
      then (case MERGERECT mem reg r1 t b of
              Inl reg' \<Rightarrow> Inl reg'
            | Inr reg' \<Rightarrow> union_overlapping mem reg' rs1 (r2 # rs2) t b)
      else (case MERGERECT mem reg r2 t b of
              Inl reg' \<Rightarrow> Inl reg'
            | Inr reg' \<Rightarrow> union_overlapping mem reg' (r1 # rs1) rs2 t b))"
| "union_overlapping mem reg (r1 # rs1) [] t b =
     (case MERGERECT mem reg r1 t b of
        Inl reg' \<Rightarrow> Inl reg'
      | Inr reg' \<Rightarrow> union_overlapping mem reg' rs1 [] t b)"
| "union_overlapping mem reg [] (r2 # rs2) t b =
     (case MERGERECT mem reg r2 t b of
        Inl reg' \<Rightarrow> Inl reg'
      | Inr reg' \<Rightarrow> union_overlapping mem reg' [] rs2 t b)"
| "union_overlapping mem reg [] [] t b = Inr reg"

section \<open>Regions\<close>

type_synonym rgn = nat
type_synonym heap = "rgn \<Rightarrow> region"

definition create_empty_region :: "(nat \<Rightarrow> bool) \<Rightarrow> region result" where
  "create_empty_region mem =
     (if \<not> mem REGION_SIZE then Inl STATUS_NO_MEMORY
      else if \<not> mem (RGN_DEFAULT_RECTS * RECT_SIZE) then Inl STATUS_NO_MEMORY
      else Inr \<lparr>rg_size = RGN_DEFAULT_RECTS, rg_rects = [],
                rg_extents = \<lparr>left = 0, top = 0, right = 0, bottom = 0\<rparr>\<rparr>)"

text \<open>The received data is a list of rectangles; a last incomplete one is not counted.\<close>

definition create_region_from_req_data :: "(nat \<Rightarrow> bool) \<Rightarrow> rectangle list \<Rightarrow> nat \<Rightarrow> region result" where
  "create_region_from_req_data mem data sz =
     (let nb0 = sz div RECT_SIZE;
          nb_rects = (if nb0 = 1 \<and> data ! 0 = empty_rect then 0 else nb0);
          rects = take nb_rects data;
          alloc_rects = max nb_rects RGN_DEFAULT_RECTS
      in if \<not> validate_rectangles rects then Inl STATUS_INVALID_PARAMETER
         else if \<not> mem REGION_SIZE then Inl STATUS_NO_MEMORY
         else if \<not> mem (alloc_rects * RECT_SIZE) then Inl STATUS_NO_MEMORY
         else Inr (set_region_extents \<lparr>rg_size = alloc_rects, rg_rects = rects, rg_extents = empty_rect\<rparr>))"

definition set_region_rect :: "region \<Rightarrow> rectangle \<Rightarrow> region" where
  "set_region_rect reg rect =
     (if \<not> is_rect_empty rect then reg\<lparr>rg_rects := [rect], rg_extents := rect\<rparr>
      else reg\<lparr>rg_rects := [], rg_extents := empty_rect\<rparr>)"

text \<open>The total size is returned next to the data or the error.\<close>

definition get_region_data :: "(nat \<Rightarrow> bool) \<Rightarrow> region \<Rightarrow> nat \<Rightarrow> nat \<times> rectangle list result" where
  "get_region_data mem reg max_size =
     (let data = (if length (rg_rects reg) * RECT_SIZE = 0 then [empty_rect] else rg_rects reg);
          total_size = length data * RECT_SIZE
      in (total_size,
          if max_size \<ge> total_size then (if mem total_size then Inr data else Inl STATUS_NO_MEMORY)
          else Inl STATUS_BUFFER_OVERFLOW))"

definition get_region_data_and_free :: "(nat \<Rightarrow> bool) \<Rightarrow> region \<Rightarrow> nat \<Rightarrow> nat \<times> rectangle list result" where
  "get_region_data_and_free mem reg max_size =
     (if length (rg_rects reg) * RECT_SIZE = 0 then
        (RECT_SIZE,
         if max_size < RECT_SIZE then Inl STATUS_BUFFER_OVERFLOW
         else if mem RECT_SIZE then Inr [empty_rect] else Inl STATUS_NO_MEMORY)
      else
        (length (rg_rects reg) * RECT_SIZE,
         if max_size < length (rg_rects reg) * RECT_SIZE then Inl STATUS_BUFFER_OVERFLOW
         else Inr (rg_rects reg)))"

definition is_region_empty :: "region \<Rightarrow> bool" where
  "is_region_empty reg \<longleftrightarrow> length (rg_rects reg) = 0"

definition is_region_equal :: "region \<Rightarrow> region \<Rightarrow> bool" where
  "is_region_equal reg1 reg2 =
     (if length (rg_rects reg1) \<noteq> length (rg_rects reg2) then False
      else if length (rg_rects reg1) = 0 then True
      else if \<not> is_rect_equal (rg_extents reg1) (rg_extents reg2) then False
      else list_all2 is_rect_equal (rg_rects reg1) (rg_rects reg2))"

definition get_region_extents :: "region \<Rightarrow> rectangle" where
  "get_region_extents reg = rg_extents reg"

definition offset_region :: "region \<Rightarrow> int \<Rightarrow> int \<Rightarrow> region" where
  "offset_region reg x y =
     (if rg_rects reg = [] then reg
      else reg\<lparr>rg_rects := map (offset_rect x y) (rg_rects reg), rg_extents := offset_rect x y (rg_extents reg)\<rparr>)"

text \<open>
  Mirroring reverses each band. The exchange of two rectangles saves \<open>rects[j]\<close> where it
  would have to save \<open>rects[i]\<close>.
\<close>

definition band_end :: "rectangle list \<Rightarrow> nat \<Rightarrow> nat" where
  "band_end rs start = scan (\<lambda>e. top (rs ! (e + 1)) \<noteq> top (rs ! e)) start (length rs - 1)"

function mirror_band :: "rectangle \<Rightarrow> rectangle list \<Rightarrow> nat \<Rightarrow> nat \<Rightarrow> rectangle list" where
  "mirror_band client_rect rs i j =
     (if i < j then
        (let rect = rs ! j;
             rs1 = rs[i := rs ! j];
             rs2 = rs1[j := rect];
             rs3 = rs2[j := mirror_rect client_rect (rs2 ! j)];
             rs4 = rs3[i := mirror_rect client_rect (rs3 ! i)]
         in mirror_band client_rect rs4 (i + 1) (j - 1))
      else if i = j then rs[i := mirror_rect client_rect (rs ! i)]
      else rs)"
  by pat_completeness auto
termination
  by (relation "measure (\<lambda>(client_rect, rs, i, j). j - i)") auto

declare mirror_band.simps [simp del]

lemma length_mirror_band [simp]: "length (mirror_band client_rect rs i j) = length rs"
proof (induction client_rect rs i j rule: mirror_band.induct)
  case (1 client_rect rs i j)
  then show ?case by (subst mirror_band.simps) (simp add: Let_def)
qed

function mirror_bands :: "rectangle \<Rightarrow> rectangle list \<Rightarrow> nat \<Rightarrow> rectangle list" where
  "mirror_bands client_rect rs start =
     (if start < length rs
      then mirror_bands client_rect (mirror_band client_rect rs start (band_end rs start)) (band_end rs start + 1)
      else rs)"
  by pat_completeness auto
termination
proof (relation "measure (\<lambda>(client_rect, rs, start). length rs - start)")
  fix client_rect rs start
  assume "start < length (rs :: rectangle list)"
  moreover have "start \<le> band_end rs start" by (simp add: band_end_def scan_ge)
  ultimately show "((client_rect, mirror_band client_rect rs start (band_end rs start), band_end rs start + 1),
      client_rect, rs, start) \<in> measure (\<lambda>(client_rect, rs, start). length rs - start)"
    by simp
qed simp

declare mirror_bands.simps [simp del]

definition mirror_region :: "rectangle \<Rightarrow> region \<Rightarrow> region" where
  "mirror_region client_rect reg =
     reg\<lparr>rg_rects := mirror_bands client_rect (rg_rects reg) 0,
         rg_extents := mirror_rect client_rect (rg_extents reg)\<rparr>"

definition scale_region :: "region \<Rightarrow> nat \<Rightarrow> nat \<Rightarrow> region" where
  "scale_region reg dpi_from dpi_to =
     (if rg_rects reg = [] then reg
      else reg\<lparr>rg_rects := map (scale_dpi_rect dpi_from dpi_to) (rg_rects reg),
               rg_extents := scale_dpi_rect dpi_from dpi_to (rg_extents reg)\<rparr>)"

definition copy_region :: "(nat \<Rightarrow> bool) \<Rightarrow> heap \<Rightarrow> rgn \<Rightarrow> rgn \<Rightarrow> ntstatus \<times> heap" where
  "copy_region mem h dst src =
     (if dst = src then (STATUS_SUCCESS, h)
      else
        (let n = length (rg_rects (h src)); grow = rg_size (h dst) < n
         in if grow \<and> \<not> mem (n * RECT_SIZE) then (STATUS_NO_MEMORY, h)
            else (STATUS_SUCCESS,
                  h(dst := \<lparr>rg_size = (if grow then n else rg_size (h dst)),
                            rg_rects = rg_rects (h src), rg_extents = rg_extents (h src)\<rparr>))))"

definition intersect_region :: "(nat \<Rightarrow> bool) \<Rightarrow> heap \<Rightarrow> rgn \<Rightarrow> rgn \<Rightarrow> rgn \<Rightarrow> ntstatus \<times> heap" where
  "intersect_region mem h dst src1 src2 =
     (if rg_rects (h src1) = [] \<or> rg_rects (h src2) = [] \<or>
         \<not> EXTENTCHECK (rg_extents (h src1)) (rg_extents (h src2))
      then (STATUS_SUCCESS,
            h(dst := (h dst)\<lparr>rg_rects := [], rg_extents := \<lparr>left = 0, top = 0, right = 0, bottom = 0\<rparr>\<rparr>))
      else case region_op mem (h dst) (h src1) (h src2) (intersect_overlapping mem) None None of
             Inl reg \<Rightarrow> (STATUS_NO_MEMORY, h(dst := reg))
           | Inr reg \<Rightarrow> (STATUS_SUCCESS, h(dst := set_region_extents reg)))"

definition subtract_region :: "(nat \<Rightarrow> bool) \<Rightarrow> heap \<Rightarrow> rgn \<Rightarrow> rgn \<Rightarrow> rgn \<Rightarrow> ntstatus \<times> heap" where
  "subtract_region mem h dst src1 src2 =
     (if rg_rects (h src1) = [] \<or> rg_rects (h src2) = [] \<or>
         \<not> EXTENTCHECK (rg_extents (h src1)) (rg_extents (h src2))
      then copy_region mem h dst src1
      else case region_op mem (h dst) (h src1) (h src2) (subtract_overlapping mem)
                  (Some (subtract_non_overlapping mem)) None of
             Inl reg \<Rightarrow> (STATUS_NO_MEMORY, h(dst := reg))
           | Inr reg \<Rightarrow> (STATUS_SUCCESS, h(dst := set_region_extents reg)))"

definition covers :: "region \<Rightarrow> region \<Rightarrow> bool" where
  "covers reg1 reg2 \<longleftrightarrow>
     length (rg_rects reg1) = 1 \<and>
     left (rg_extents reg1) \<le> left (rg_extents reg2) \<and> top (rg_extents reg1) \<le> top (rg_extents reg2) \<and>
     right (rg_extents reg1) \<ge> right (rg_extents reg2) \<and> bottom (rg_extents reg1) \<ge> bottom (rg_extents reg2)"

definition union_region :: "(nat \<Rightarrow> bool) \<Rightarrow> heap \<Rightarrow> rgn \<Rightarrow> rgn \<Rightarrow> rgn \<Rightarrow> ntstatus \<times> heap" where
  "union_region mem h dst src1 src2 =
     (if src1 = src2 then copy_region mem h dst src1
      else if rg_rects (h src1) = [] then copy_region mem h dst src2
      else if rg_rects (h src2) = [] then copy_region mem h dst src1
      else if covers (h src1) (h src2) then copy_region mem h dst src1
      else if covers (h src2) (h src1) then copy_region mem h dst src2
      else case region_op mem (h dst) (h src1) (h src2) (union_overlapping mem)
                  (Some (union_non_overlapping mem)) (Some (union_non_overlapping mem)) of
             Inl reg \<Rightarrow> (STATUS_NO_MEMORY, h(dst := reg))
           | Inr reg \<Rightarrow>
               (let e1 = rg_extents (h src1); e2 = rg_extents (h src2)
                in (STATUS_SUCCESS,
                    h(dst := reg\<lparr>rg_extents :=
                      \<lparr>left = min (left e1) (left e2), top = min (top e1) (top e2),
                       right = max (right e1) (right e2), bottom = max (bottom e1) (bottom e2)\<rparr>\<rparr>))))"

text \<open>\<open>tmp\<close> is the pointer that the allocation of the temporary region returns.\<close>

definition xor_region :: "(nat \<Rightarrow> bool) \<Rightarrow> rgn \<Rightarrow> heap \<Rightarrow> rgn \<Rightarrow> rgn \<Rightarrow> rgn \<Rightarrow> ntstatus \<times> heap" where
  "xor_region mem tmp h dst src1 src2 =
     (case create_empty_region mem of
        Inl err \<Rightarrow> (err, h)
      | Inr reg \<Rightarrow>
          (case subtract_region mem (h(tmp := reg)) tmp src1 src2 of
             (st1, h1) \<Rightarrow>
               if st1 \<noteq> STATUS_SUCCESS then (st1, h1)
               else case subtract_region mem h1 dst src2 src1 of
                      (st2, h2) \<Rightarrow>
                        if st2 \<noteq> STATUS_SUCCESS then (st2, h2)
                        else union_region mem h2 dst dst tmp))"

fun point_in_rects :: "rectangle list \<Rightarrow> int \<Rightarrow> int \<Rightarrow> bool" where
  "point_in_rects [] x y = False"
| "point_in_rects (p # ps) x y =
     (if top p > y then False
      else if bottom p \<le> y then point_in_rects ps x y
      else if left p > x then False
      else if right p \<le> x then point_in_rects ps x y
      else True)"

definition point_in_region :: "region \<Rightarrow> int \<Rightarrow> int \<Rightarrow> bool" where
  "point_in_region reg x y = point_in_rects (rg_rects reg) x y"

fun rect_in_rects :: "rectangle list \<Rightarrow> rectangle \<Rightarrow> bool" where
  "rect_in_rects [] rect = False"
| "rect_in_rects (p # ps) rect =
     (if top p \<ge> bottom rect then False
      else if bottom p \<le> top rect then rect_in_rects ps rect
      else if left p \<ge> right rect then rect_in_rects ps rect
      else if right p \<le> left rect then rect_in_rects ps rect
      else True)"

definition rect_in_region :: "region \<Rightarrow> rectangle \<Rightarrow> bool" where
  "rect_in_region reg rect = rect_in_rects (rg_rects reg) rect"

end
