(* ===== verification/Region_Bands.thy ===== *)
theory Region_Bands
  imports Region
begin

text \<open>
  The bands of a region and what the functions for one band do: lists of disjoint spans and
  their sets of columns, banded lists of rectangles and their rows, the intersection, the
  difference and the union of two bands, and the merging of a new band with the one above.
\<close>


section \<open>Spans of a band\<close>

definition spans :: "rectangle list \<Rightarrow> (int \<times> int) list" where
  "spans rs = map (\<lambda>r. (left r, right r)) rs"

definition spans_ok :: "(int \<times> int) list \<Rightarrow> bool" where
  "spans_ok sp \<longleftrightarrow> (\<forall>p \<in> set sp. fst p < snd p) \<and> sorted_wrt (\<lambda>p q. snd p < fst q) sp"

definition xset :: "(int \<times> int) list \<Rightarrow> int set" where
  "xset sp = {x. \<exists>p \<in> set sp. fst p \<le> x \<and> x < snd p}"

definition mk_band :: "int \<Rightarrow> int \<Rightarrow> (int \<times> int) list \<Rightarrow> rectangle list" where
  "mk_band t b sp = map (\<lambda>(l, r). band_rect l t r b) sp"

definition row :: "rectangle list \<Rightarrow> int \<Rightarrow> int set" where
  "row rs y = {x. \<exists>r \<in> set rs. point_in_rect r x y}"

lemma spans_simps [simp]:
  "spans [] = []" "spans (r # rs) = (left r, right r) # spans rs"
  "spans (rs @ rs') = spans rs @ spans rs'" "spans rs = [] \<longleftrightarrow> rs = []"
  by (simp_all add: spans_def)

lemma spans_ok_simps [simp]:
  "spans_ok []"
  "spans_ok (p # sp) \<longleftrightarrow> fst p < snd p \<and> (\<forall>q \<in> set sp. snd p < fst q) \<and> spans_ok sp"
  by (auto simp: spans_ok_def)

lemma spans_ok_append:
  "spans_ok (sp @ sp') \<longleftrightarrow> spans_ok sp \<and> spans_ok sp' \<and> (\<forall>p \<in> set sp. \<forall>q \<in> set sp'. snd p < fst q)"
  by (auto simp: spans_ok_def sorted_wrt_append)

lemma xset_simps [simp]:
  "xset [] = {}" "xset (p # sp) = {fst p ..< snd p} \<union> xset sp" "xset (sp @ sp') = xset sp \<union> xset sp'"
  by (auto simp: xset_def)

lemma xset_empty: "spans_ok sp \<Longrightarrow> xset sp = {} \<longleftrightarrow> sp = []"
  by (cases sp) auto

lemma mk_band_simps [simp]:
  "mk_band t b [] = []" "mk_band t b (p # sp) = band_rect (fst p) t (snd p) b # mk_band t b sp"
  "mk_band t b (sp @ sp') = mk_band t b sp @ mk_band t b sp'" "mk_band t b sp = [] \<longleftrightarrow> sp = []"
  "length (mk_band t b sp) = length sp"
  by (auto simp: mk_band_def split: prod.splits)

lemma band_rect_simps [simp]:
  "left (band_rect l t r b) = l" "top (band_rect l t r b) = t"
  "right (band_rect l t r b) = r" "bottom (band_rect l t r b) = b"
  by (simp_all add: band_rect_def)

lemma spans_mk_band [simp]: "spans (mk_band t b sp) = sp"
  by (induction sp) auto

lemma mk_band_elem: "r \<in> set (mk_band t b sp) \<Longrightarrow> top r = t \<and> bottom r = b \<and> (left r, right r) \<in> set sp"
  by (auto simp: mk_band_def)

lemma mk_band_spans:
  assumes "\<And>r. r \<in> set rs \<Longrightarrow> top r = t \<and> bottom r = b"
  shows "mk_band t b (spans rs) = rs"
  using assms by (induction rs) (auto simp: band_rect_def)

lemma row_simps [simp]:
  "row [] y = {}" "row (r # rs) y = {x. point_in_rect r x y} \<union> row rs y" "row (rs @ rs') y = row rs y \<union> row rs' y"
  by (auto simp: row_def)

lemma row_mk_band [simp]: "row (mk_band t b sp) y = (if t \<le> y \<and> y < b then xset sp else {})"
  by (induction sp) (auto simp: point_in_rect_def)

text \<open>The pixels of a list of spans determine the spans.\<close>

lemma xset_above: "spans_ok (p # sp) \<Longrightarrow> x \<in> xset sp \<Longrightarrow> snd p < x"
  by (force simp: xset_def)

lemma spans_unique:
  assumes "spans_ok sp" "spans_ok sp'" "xset sp = xset sp'"
  shows "sp = sp'"
  using assms
proof (induction sp arbitrary: sp')
  case Nil
  then show ?case using xset_empty [of sp'] by simp
next
  case (Cons p sp)
  then obtain q sp'' where sp': "sp' = q # sp''" using xset_empty [of sp'] by (cases sp') auto
  have p: "fst p < snd p" "\<And>x. x \<in> xset sp \<Longrightarrow> snd p < x"
    using Cons.prems(1) xset_above [OF Cons.prems(1)] by simp_all
  have "spans_ok (q # sp'')" using Cons.prems(2) sp' by blast
  then have q: "fst q < snd q" "\<And>x. x \<in> xset sp'' \<Longrightarrow> snd q < x"
    using xset_above [of q sp''] by simp_all
  have eq: "(fst p \<le> x \<and> x < snd p) \<or> x \<in> xset sp \<longleftrightarrow> (fst q \<le> x \<and> x < snd q) \<or> x \<in> xset sp''" for x
  proof -
    have "x \<in> xset (p # sp) \<longleftrightarrow> x \<in> xset (q # sp'')" using Cons.prems(3) sp' by blast
    then show ?thesis by (simp only: xset_simps Un_iff atLeastLessThan_iff)
  qed
  have fst: "fst p = fst q"
    using eq [of "fst p"] eq [of "fst q"] p(1) p(2) [of "fst q"] q(1) q(2) [of "fst p"] by linarith
  have snd: "snd p = snd q"
    using eq [of "snd p"] eq [of "snd q"] p(1) p(2) [of "snd p"] p(2) [of "snd q"]
      q(1) q(2) [of "snd p"] q(2) [of "snd q"] fst by linarith
  have "x \<in> xset sp \<longleftrightarrow> x \<in> xset sp''" for x
    using eq [of x] p(2) [of x] q(2) [of x] fst snd by linarith
  then have "xset sp = xset sp''" by blast
  moreover have "p = q" using fst snd by (simp add: prod_eq_iff)
  ultimately show ?case using Cons sp' by simp
qed

section \<open>Bands in a region\<close>

definition before :: "rectangle \<Rightarrow> rectangle \<Rightarrow> bool" where
  "before r r' \<longleftrightarrow> (top r = top r' \<and> bottom r = bottom r' \<and> right r < left r') \<or> bottom r \<le> top r'"

definition banded :: "rectangle list \<Rightarrow> bool" where
  "banded rs \<longleftrightarrow> (\<forall>r \<in> set rs. \<not> is_rect_empty r) \<and> sorted_wrt before rs"

lemma banded_simps [simp]:
  "banded []" "banded (r # rs) \<longleftrightarrow> \<not> is_rect_empty r \<and> (\<forall>r' \<in> set rs. before r r') \<and> banded rs"
  by (auto simp: banded_def)

lemma banded_append:
  "banded (rs @ rs') \<longleftrightarrow> banded rs \<and> banded rs' \<and> (\<forall>r \<in> set rs. \<forall>r' \<in> set rs'. before r r')"
  by (auto simp: banded_def sorted_wrt_append)

lemma banded_mk_band: "t < b \<Longrightarrow> spans_ok sp \<Longrightarrow> banded (mk_band t b sp)"
  by (induction sp) (auto simp: is_rect_empty_def before_def dest!: mk_band_elem)

lemma spans_ok_band:
  assumes "banded rs" and "\<And>r. r \<in> set rs \<Longrightarrow> top r = t \<and> bottom r = b"
  shows "spans_ok (spans rs)"
  using assms
proof (induction rs)
  case (Cons r rs)
  have "right r < left r'" if "r' \<in> set rs" for r'
    using Cons.prems that by (force simp: before_def is_rect_empty_def)
  then show ?case using Cons by (auto simp: spans_def is_rect_empty_def)
qed simp

lemma before_trans: "before a b \<Longrightarrow> before b c \<Longrightarrow> \<not> is_rect_empty b \<Longrightarrow> before a c"
  by (auto simp: before_def is_rect_empty_def)

lemma validate_step: "\<not> is_rect_empty r \<Longrightarrow> \<not> is_rect_empty r' \<Longrightarrow>
  (if top r = top r' then bottom r = bottom r' \<and> \<not> right r \<ge> left r' else \<not> bottom r > top r') \<longleftrightarrow> before r r'"
  by (auto simp: before_def is_rect_empty_def)

lemma validate_rectangles_banded: "validate_rectangles rs \<longleftrightarrow> banded rs"
proof (induction rs rule: validate_rectangles.induct)
  case (3 r r' rs)
  have "before r r' \<and> banded (r' # rs) \<longleftrightarrow> (\<forall>x \<in> set (r' # rs). before r x) \<and> banded (r' # rs)"
    using before_trans [of r r'] by auto
  moreover have "\<not> is_rect_empty r'" if "banded (r' # rs)" using that by simp
  ultimately show ?case using 3 validate_step [of r r'] by (auto simp del: banded_simps(2) simp: banded_simps(2) [of r])
qed auto

text \<open>A banded list starts with a band and goes on below it.\<close>

lemma band_split: "first_band rs @ after_band rs = rs"
  by (simp add: first_band_def after_band_def)

lemma first_band_Nil [simp]: "first_band rs = [] \<longleftrightarrow> rs = []"
  by (cases rs) (auto simp: first_band_def)

lemma banded_first:
  assumes "banded rs" and "rs \<noteq> []"
  shows "first_band rs = mk_band (top (hd rs)) (bottom (hd rs)) (spans (first_band rs))"
    and "spans_ok (spans (first_band rs))"
    and "top (hd rs) < bottom (hd rs)"
    and "\<And>r. r \<in> set (after_band rs) \<Longrightarrow> bottom (hd rs) \<le> top r"
    and "banded (after_band rs)"
proof -
  let ?t = "top (hd rs)" and ?b = "bottom (hd rs)"
  obtain r0 rs0 where rs: "rs = r0 # rs0" using assms(2) by (cases rs) auto
  show ne: "?t < ?b" using assms(1) rs by (simp add: is_rect_empty_def)
  have b: "banded (first_band rs)" "banded (after_band rs)"
    using assms(1) band_split [of rs] banded_append [of "first_band rs" "after_band rs"] by simp_all
  then show "banded (after_band rs)" by simp
  have same: "top r = ?t \<and> bottom r = ?b" if "r \<in> set (first_band rs)" for r
  proof -
    have "top r = ?t" "r \<in> set rs" using that by (auto simp: first_band_def dest: set_takeWhileD)
    moreover have "r = r0 \<or> before r0 r" using assms(1) rs \<open>r \<in> set rs\<close> by auto
    ultimately show ?thesis using ne rs by (auto simp: before_def)
  qed
  then show band: "first_band rs = mk_band ?t ?b (spans (first_band rs))" using mk_band_spans by metis
  show "spans_ok (spans (first_band rs))" using spans_ok_band [OF b(1) same] .
  fix r assume r: "r \<in> set (after_band rs)"
  then obtain r1 rs1 where after: "after_band rs = r1 # rs1" by (cases "after_band rs") auto
  have "top r1 \<noteq> ?t" using after by (simp add: after_band_def dropWhile_eq_Cons_conv)
  moreover have "r1 \<in> set rs" using after set_dropWhileD [of r1 "\<lambda>r. top r = ?t" rs] by (simp add: after_band_def)
  ultimately have "?b \<le> top r1" using assms(1) rs by (auto simp: before_def)
  moreover have "top r1 \<le> top r"
    using r after b(2) by (auto simp: before_def is_rect_empty_def)
  ultimately show "?b \<le> top r" by simp
qed


section \<open>Writing a band\<close>

definition size_ok :: "region \<Rightarrow> bool" where
  "size_ok reg \<longleftrightarrow> RGN_DEFAULT_RECTS \<le> rg_size reg \<and> length (rg_rects reg) \<le> rg_size reg"

definition appended :: "region \<Rightarrow> region \<Rightarrow> int \<Rightarrow> int \<Rightarrow> (int \<times> int) list \<Rightarrow> bool" where
  "appended reg reg' t b sp \<longleftrightarrow>
     rg_rects reg' = rg_rects reg @ mk_band t b sp \<and> rg_extents reg' = rg_extents reg \<and>
     (size_ok reg \<longrightarrow> size_ok reg')"

lemma appended_refl [simp]: "appended reg reg t b []"
  by (simp add: appended_def)

lemma appended_trans: "appended reg reg' t b sp \<Longrightarrow> appended reg' reg'' t b sp' \<Longrightarrow> appended reg reg'' t b (sp @ sp')"
  by (simp add: appended_def)

lemma appended_Cons: "appended reg reg' t b [p] \<Longrightarrow> appended reg' reg'' t b sp' \<Longrightarrow> appended reg reg'' t b (p # sp')"
  by (simp add: appended_def)

lemma add_rect_appended: "add_rect mem reg (band_rect l t r b) = Inr reg' \<Longrightarrow> appended reg reg' t b [(l, r)]"
  by (auto simp: add_rect_def appended_def size_ok_def split: if_splits)

lemma add_rect_succeeds: "(\<And>n. mem n) \<Longrightarrow> \<exists>reg'. add_rect mem reg r = Inr reg'"
  by (simp add: add_rect_def)

text \<open>The intersection of two bands.\<close>

fun isect :: "(int \<times> int) list \<Rightarrow> (int \<times> int) list \<Rightarrow> (int \<times> int) list" where
  "isect (p # ps) (q # qs) =
     (if max (fst p) (fst q) < min (snd p) (snd q) then [(max (fst p) (fst q), min (snd p) (snd q))] else []) @
     (if snd p < snd q then isect ps (q # qs)
      else if snd q < snd p then isect (p # ps) qs
      else isect ps qs)"
| "isect ps qs = []"

lemma intersect_overlapping_appended:
  "intersect_overlapping mem reg r1 r2 t b = Inr reg' \<Longrightarrow> appended reg reg' t b (isect (spans r1) (spans r2))"
proof (induction mem reg r1 r2 t b rule: intersect_overlapping.induct)
  case (1 mem reg r1 rs1 r2 rs2 t b)
  let ?l = "max (left r1) (left r2)" and ?r = "min (right r1) (right r2)"
  obtain reg1 where reg1: "(if ?l < ?r then add_rect mem reg (band_rect ?l t ?r b) else Inr reg) = Inr reg1"
    using 1(4) by (cases "if ?l < ?r then add_rect mem reg (band_rect ?l t ?r b) else Inr reg") (simp_all add: Let_def)
  have a: "appended reg reg1 t b (if ?l < ?r then [(?l, ?r)] else [])"
    using reg1 add_rect_appended by (auto split: if_splits)
  have more: "(if right r1 < right r2 then intersect_overlapping mem reg1 rs1 (r2 # rs2) t b
             else if right r2 < right r1 then intersect_overlapping mem reg1 (r1 # rs1) rs2 t b
             else intersect_overlapping mem reg1 rs1 rs2 t b) = Inr reg'"
    using 1(4) reg1 by (simp add: Let_def)
  have "appended reg1 reg' t b (if right r1 < right r2 then isect (spans rs1) (spans (r2 # rs2))
      else if right r2 < right r1 then isect (spans (r1 # rs1)) (spans rs2) else isect (spans rs1) (spans rs2))"
    using 1(1) [OF refl refl reg1] 1(2) [OF refl refl reg1] 1(3) [OF refl refl reg1] more by presburger
  from appended_trans [OF a this] show ?case by (simp only: isect.simps spans_simps fst_conv snd_conv)
qed auto

lemma isect_above:
  "(\<forall>p \<in> set ps. c < fst p) \<or> (\<forall>q \<in> set qs. c < fst q) \<Longrightarrow> x \<in> set (isect ps qs) \<Longrightarrow> c < fst x"
proof (induction ps qs rule: isect.induct)
  case (1 p ps q qs)
  then show ?case by (auto split: if_splits)
qed auto

lemma isect_point:
  fixes a b c d x :: int
  assumes "P \<Longrightarrow> b < x" and "Q \<Longrightarrow> d < x"
  shows "(a \<le> x \<and> c \<le> x \<and> x < b \<and> x < d) \<or>
      (if b < d then P \<and> (c \<le> x \<and> x < d \<or> Q) else if d < b then (a \<le> x \<and> x < b \<or> P) \<and> Q else P \<and> Q) \<longleftrightarrow>
    (a \<le> x \<and> x < b \<or> P) \<and> (c \<le> x \<and> x < d \<or> Q)"
  using assms by (cases P; cases Q) auto

lemma isect_correct:
  "spans_ok ps \<Longrightarrow> spans_ok qs \<Longrightarrow> spans_ok (isect ps qs) \<and> xset (isect ps qs) = xset ps \<inter> xset qs"
proof (induction ps qs rule: isect.induct)
  case (1 p ps q qs)
  define rest where "rest = (if snd p < snd q then isect ps (q # qs)
      else if snd q < snd p then isect (p # ps) qs else isect ps qs)"
  have ok: "spans_ok ps" "spans_ok qs" using 1(4,5) by simp_all
  have above: "snd p < x" if "x \<in> xset ps" for x using xset_above [OF 1(4) that] .
  have above': "snd q < x" if "x \<in> xset qs" for x using xset_above [OF 1(5) that] .
  have rest: "spans_ok rest \<and> xset rest = (if snd p < snd q then xset ps \<inter> xset (q # qs)
      else if snd q < snd p then xset (p # ps) \<inter> xset qs else xset ps \<inter> xset qs)"
    using 1(1) [OF _ ok(1) 1(5)] 1(2) [OF _ _ 1(4) ok(2)] 1(3) [OF _ _ ok] unfolding rest_def by presburger
  have gaps: "\<forall>x \<in> set ps. snd p < fst x" "\<forall>x \<in> set qs. snd q < fst x" using 1(4,5) by simp_all
  have "min (snd p) (snd q) < fst x" if "x \<in> set rest" for x
  proof -
    have "snd p < fst x \<and> snd p \<le> snd q \<or> snd q < fst x"
      using that isect_above [of ps "snd p" "q # qs" x] isect_above [of "p # ps" "snd q" qs x]
        isect_above [of ps "snd p" qs x] gaps unfolding rest_def by (simp split: if_split_asm)
    then show ?thesis by linarith
  qed
  then have ok': "spans_ok ((if max (fst p) (fst q) < min (snd p) (snd q)
      then [(max (fst p) (fst q), min (snd p) (snd q))] else []) @ rest)"
    using rest by simp
  have eq: "isect (p # ps) (q # qs) = (if max (fst p) (fst q) < min (snd p) (snd q)
      then [(max (fst p) (fst q), min (snd p) (snd q))] else []) @ rest"
    by (simp add: rest_def)
  have "x \<in> xset (isect (p # ps) (q # qs)) \<longleftrightarrow> x \<in> xset (p # ps) \<inter> xset (q # qs)" for x
  proof -
    have "x \<in> xset (isect (p # ps) (q # qs)) \<longleftrightarrow>
        (fst p \<le> x \<and> fst q \<le> x \<and> x < snd p \<and> x < snd q) \<or> x \<in> xset rest"
      unfolding eq by auto
    moreover have "x \<in> xset rest \<longleftrightarrow> (if snd p < snd q then x \<in> xset ps \<and> (fst q \<le> x \<and> x < snd q \<or> x \<in> xset qs)
        else if snd q < snd p then (fst p \<le> x \<and> x < snd p \<or> x \<in> xset ps) \<and> x \<in> xset qs
        else x \<in> xset ps \<and> x \<in> xset qs)"
      using rest by simp
    moreover have "x \<in> xset (p # ps) \<inter> xset (q # qs) \<longleftrightarrow>
        (fst p \<le> x \<and> x < snd p \<or> x \<in> xset ps) \<and> (fst q \<le> x \<and> x < snd q \<or> x \<in> xset qs)"
      by simp
    ultimately show ?thesis using isect_point [OF above above'] by presburger
  qed
  then have "xset (isect (p # ps) (q # qs)) = xset (p # ps) \<inter> xset (q # qs)" by blast
  moreover have "spans_ok (isect (p # ps) (q # qs))" using ok' eq by simp
  ultimately show ?case by blast
qed auto

text \<open>The difference of two bands: \<open>l\<close> is where the rest of the first span begins.\<close>

definition next_fst :: "int \<Rightarrow> (int \<times> int) list \<Rightarrow> int" where
  "next_fst l ps = (if ps \<noteq> [] then fst (hd ps) else l)"

fun sub :: "int \<Rightarrow> (int \<times> int) list \<Rightarrow> (int \<times> int) list \<Rightarrow> (int \<times> int) list" where
  "sub l (p # ps) (q # qs) =
     (if snd q \<le> l then sub l (p # ps) qs
      else if fst q \<le> l then
        (if snd q \<ge> snd p then sub (next_fst (snd q) ps) ps (q # qs) else sub (snd q) (p # ps) qs)
      else if fst q < snd p then
        (l, fst q) # (if snd q \<ge> snd p then sub (next_fst (snd q) ps) ps (q # qs) else sub (snd q) (p # ps) qs)
      else (if snd p > l then [(l, snd p)] else []) @ sub (next_fst l ps) ps (q # qs))"
| "sub l (p # ps) [] = (l, snd p) # sub (next_fst l ps) ps []"
| "sub l [] qs = []"

lemma next_fst_spans [simp]: "next_fst l (spans rs) = next_left l rs"
  by (cases rs) (simp_all add: next_fst_def next_left_def)

lemma subtract_loop_appended:
  "subtract_loop mem reg l r1 r2 t b = Inr reg' \<Longrightarrow> appended reg reg' t b (sub l (spans r1) (spans r2))"
proof (induction mem reg l r1 r2 t b rule: subtract_loop.induct)
  case (1 mem reg l r1 rs1 r2 rs2 t b)
  then show ?case
    by (auto split: sum.splits if_splits intro: appended_Cons [OF add_rect_appended])
next
  case (2 mem reg l r1 rs1 t b)
  then show ?case
    by (auto split: sum.splits intro: appended_Cons [OF add_rect_appended])
qed auto

definition sub_ok :: "int \<Rightarrow> (int \<times> int) list \<Rightarrow> (int \<times> int) list \<Rightarrow> (int \<times> int) list \<Rightarrow> bool" where
  "sub_ok l ps qs sp \<longleftrightarrow> spans_ok sp \<and> (\<forall>p \<in> set sp. l \<le> fst p) \<and>
     (\<forall>x. x \<in> xset sp \<longleftrightarrow> x \<in> xset ps \<and> l \<le> x \<and> x \<notin> xset qs)"

lemma sub_ok_weaken: "sub_ok l ps qs sp \<Longrightarrow> l' \<le> l \<Longrightarrow> (\<And>x. x \<in> xset ps' \<and> l' \<le> x \<and> x \<notin> xset qs' \<longleftrightarrow> x \<in> xset ps \<and> l \<le> x \<and> x \<notin> xset qs)
  \<Longrightarrow> sub_ok l' ps' qs' sp"
  unfolding sub_ok_def by (metis order_trans)

lemma sub_ok_Cons: "sub_ok l ps qs sp \<Longrightarrow> c < d \<Longrightarrow> d < l \<Longrightarrow>
  (\<And>x. x \<in> xset ps' \<and> c \<le> x \<and> x \<notin> xset qs' \<longleftrightarrow> (c \<le> x \<and> x < d) \<or> (x \<in> xset ps \<and> l \<le> x \<and> x \<notin> xset qs))
  \<Longrightarrow> sub_ok c ps' qs' ((c, d) # sp)"
  unfolding sub_ok_def by (auto; force)

lemma sub_ok_next: "sub_ok (next_fst l ps) ps qs (sub (next_fst l ps) ps qs) \<Longrightarrow> sub_ok (next_fst c ps) ps qs (sub (next_fst l ps) ps qs)"
  by (cases ps) (auto simp: next_fst_def sub_ok_def)

lemma next_fst_le: "spans_ok ps \<Longrightarrow> x \<in> xset ps \<Longrightarrow> next_fst c ps \<le> x"
proof (cases ps)
  case (Cons p ps')
  assume "spans_ok ps" and x: "x \<in> xset ps"
  then have "spans_ok (p # ps')" using Cons by simp
  then show ?thesis using xset_above [of p ps' x] x Cons by (auto simp: next_fst_def)
qed simp

lemma next_fst_gap: "spans_ok (p # ps) \<Longrightarrow> snd p < c \<Longrightarrow> snd p < next_fst c ps"
  by (cases ps) (auto simp: next_fst_def)

lemma next_fst_pre: "spans_ok ps \<Longrightarrow> ps \<noteq> [] \<Longrightarrow> fst (hd ps) \<le> next_fst c ps \<and> next_fst c ps < snd (hd ps)"
  by (cases ps) (auto simp: next_fst_def)

lemma sub_correct:
  "spans_ok ps \<Longrightarrow> spans_ok qs \<Longrightarrow> (ps \<noteq> [] \<Longrightarrow> fst (hd ps) \<le> l \<and> l < snd (hd ps)) \<Longrightarrow>
   sub_ok l ps qs (sub l ps qs)"
proof (induction l ps qs rule: sub.induct)
  case (1 l p ps q qs)
  have ok: "spans_ok ps" "spans_ok qs" and q: "fst q < snd q" using 1(7,8) by simp_all
  have l: "fst p \<le> l" "l < snd p" using 1(9) by simp_all
  have A: "x \<in> xset ps \<Longrightarrow> snd p < x" for x using xset_above [OF 1(7)] .
  have Q: "x \<in> xset qs \<Longrightarrow> snd q < x" for x using xset_above [OF 1(8)] .
  have N: "x \<in> xset ps \<Longrightarrow> next_fst c ps \<le> x" for x c using next_fst_le [OF ok(1)] .
  have mem: "x \<in> xset (p # ps) \<longleftrightarrow> (fst p \<le> x \<and> x < snd p) \<or> x \<in> xset ps"
    "x \<in> xset (q # qs) \<longleftrightarrow> (fst q \<le> x \<and> x < snd q) \<or> x \<in> xset qs" for x by simp_all
  have skip: "sub_ok (next_fst c ps) ps (q # qs) (sub (next_fst c' ps) ps (q # qs))"
    if "sub_ok (next_fst c' ps) ps (q # qs) (sub (next_fst c' ps) ps (q # qs))" for c c'
    using sub_ok_next [OF that] .
  have gap: "snd p < next_fst (snd p + 1) ps" using next_fst_gap [OF 1(7)] by simp
  consider (drop) "snd q \<le> l"
    | (cut) "l < snd q" "fst q \<le> l" "snd p \<le> snd q"
    | (trim) "l < snd q" "fst q \<le> l" "snd q < snd p"
    | (emit) "l < fst q" "fst q < snd p" "snd p \<le> snd q"
    | (split) "l < fst q" "fst q < snd p" "snd q < snd p"
    | (whole) "l < fst q" "snd p \<le> fst q" using q by linarith
  then show ?case
  proof cases
    case drop
    have "sub_ok l (p # ps) qs (sub l (p # ps) qs)" using 1(1) [OF drop 1(7) ok(2)] l by simp
    then have "sub_ok l (p # ps) (q # qs) (sub l (p # ps) qs)"
    proof (rule sub_ok_weaken)
      show "x \<in> xset (p # ps) \<and> l \<le> x \<and> x \<notin> xset (q # qs) \<longleftrightarrow> x \<in> xset (p # ps) \<and> l \<le> x \<and> x \<notin> xset qs" for x
        unfolding mem using drop by linarith
    qed simp
    then show ?thesis using drop by simp
  next
    case cut
    have "sub_ok (next_fst (snd q) ps) ps (q # qs) (sub (next_fst (snd q) ps) ps (q # qs))"
      using 1(2) [OF _ _ _ ok(1) 1(8)] next_fst_pre [OF ok(1)] cut by simp
    then have "sub_ok l (p # ps) (q # qs) (sub (next_fst (snd q) ps) ps (q # qs))"
    proof (rule sub_ok_weaken [OF skip [of _ "snd p + 1"]])
      show "x \<in> xset (p # ps) \<and> l \<le> x \<and> x \<notin> xset (q # qs) \<longleftrightarrow>
          x \<in> xset ps \<and> next_fst (snd p + 1) ps \<le> x \<and> x \<notin> xset (q # qs)" for x
        unfolding mem using cut l A [of x] N [of x "snd p + 1"] by linarith
    qed (use gap l in linarith)
    then show ?thesis using cut by simp
  next
    case trim
    have "sub_ok (snd q) (p # ps) qs (sub (snd q) (p # ps) qs)"
      using 1(3) [OF _ _ _ 1(7) ok(2)] trim l by simp
    then have "sub_ok l (p # ps) (q # qs) (sub (snd q) (p # ps) qs)"
    proof (rule sub_ok_weaken)
      show "x \<in> xset (p # ps) \<and> l \<le> x \<and> x \<notin> xset (q # qs) \<longleftrightarrow>
          x \<in> xset (p # ps) \<and> snd q \<le> x \<and> x \<notin> xset qs" for x
        unfolding mem using trim l A [of x] Q [of x] by linarith
    qed (use trim in linarith)
    then show ?thesis using trim by simp
  next
    case emit
    have "sub_ok (next_fst (snd q) ps) ps (q # qs) (sub (next_fst (snd q) ps) ps (q # qs))"
      using 1(4) [OF _ _ _ _ ok(1) 1(8)] next_fst_pre [OF ok(1)] emit q by simp
    then have "sub_ok l (p # ps) (q # qs) ((l, fst q) # sub (next_fst (snd q) ps) ps (q # qs))"
    proof (rule sub_ok_Cons [OF skip [of _ "snd p + 1"]])
      show "x \<in> xset (p # ps) \<and> l \<le> x \<and> x \<notin> xset (q # qs) \<longleftrightarrow> (l \<le> x \<and> x < fst q) \<or>
          (x \<in> xset ps \<and> next_fst (snd p + 1) ps \<le> x \<and> x \<notin> xset (q # qs))" for x
        unfolding mem using emit l A [of x] Q [of x] N [of x "snd p + 1"] q by linarith
    qed (use gap emit in linarith)+
    then show ?thesis using emit q by simp
  next
    case split
    have "sub_ok (snd q) (p # ps) qs (sub (snd q) (p # ps) qs)"
      using 1(5) [OF _ _ _ _ 1(7) ok(2)] split l q by simp
    then have "sub_ok l (p # ps) (q # qs) ((l, fst q) # sub (snd q) (p # ps) qs)"
    proof (rule sub_ok_Cons)
      show "x \<in> xset (p # ps) \<and> l \<le> x \<and> x \<notin> xset (q # qs) \<longleftrightarrow> (l \<le> x \<and> x < fst q) \<or>
          (x \<in> xset (p # ps) \<and> snd q \<le> x \<and> x \<notin> xset qs)" for x
        unfolding mem using split l A [of x] Q [of x] q by linarith
    qed (use split q in linarith)+
    then show ?thesis using split q by simp
  next
    case whole
    have "sub_ok (next_fst l ps) ps (q # qs) (sub (next_fst l ps) ps (q # qs))"
      using 1(6) [OF _ _ _ ok(1) 1(8)] next_fst_pre [OF ok(1)] whole q by simp
    then have "sub_ok l (p # ps) (q # qs) ((l, snd p) # sub (next_fst l ps) ps (q # qs))"
    proof (rule sub_ok_Cons [OF skip [of _ "snd p + 1"]])
      show "x \<in> xset (p # ps) \<and> l \<le> x \<and> x \<notin> xset (q # qs) \<longleftrightarrow> (l \<le> x \<and> x < snd p) \<or>
          (x \<in> xset ps \<and> next_fst (snd p + 1) ps \<le> x \<and> x \<notin> xset (q # qs))" for x
        unfolding mem using whole l A [of x] Q [of x] N [of x "snd p + 1"] q by linarith
    qed (use gap l in linarith)+
    then show ?thesis using whole q l by simp
  qed
next
  case (2 l p ps)
  have ok: "spans_ok ps" and l: "fst p \<le> l" "l < snd p" using 2 by simp_all
  have A: "x \<in> xset ps \<Longrightarrow> snd p < x" for x using xset_above [OF 2(2)] .
  have N: "x \<in> xset ps \<Longrightarrow> next_fst c ps \<le> x" for x c using next_fst_le [OF ok] .
  have "sub_ok (next_fst (snd p + 1) ps) ps [] (sub (next_fst l ps) ps [])"
    using sub_ok_next 2(1) [OF ok] next_fst_pre [OF ok] by simp
  then have "sub_ok l (p # ps) [] ((l, snd p) # sub (next_fst l ps) ps [])"
  proof (rule sub_ok_Cons)
    have mem: "x \<in> xset (p # ps) \<longleftrightarrow> (fst p \<le> x \<and> x < snd p) \<or> x \<in> xset ps" for x by simp
    show "x \<in> xset (p # ps) \<and> l \<le> x \<and> x \<notin> xset [] \<longleftrightarrow> (l \<le> x \<and> x < snd p) \<or>
        (x \<in> xset ps \<and> next_fst (snd p + 1) ps \<le> x \<and> x \<notin> xset [])" for x
      unfolding mem using l A [of x] N [of x "snd p + 1"] by (simp only: xset_simps empty_iff simp_thms) linarith
  qed (use next_fst_gap [OF 2(2)] l in auto)
  then show ?case by simp
qed (simp add: sub_ok_def)

text \<open>The union of two bands.\<close>

definition umerge :: "(int \<times> int) list \<Rightarrow> int \<times> int \<Rightarrow> (int \<times> int) list" where
  "umerge acc p =
     (if acc \<noteq> [] \<and> snd (last acc) \<ge> fst p
      then (if snd (last acc) < snd p then butlast acc @ [(fst (last acc), snd p)] else acc)
      else acc @ [p])"

fun by_left :: "(int \<times> int) list \<Rightarrow> (int \<times> int) list \<Rightarrow> (int \<times> int) list" where
  "by_left (p # ps) (q # qs) = (if fst p < fst q then p # by_left ps (q # qs) else q # by_left (p # ps) qs)"
| "by_left ps [] = ps"
| "by_left [] qs = qs"

lemma mk_band_last: "acc \<noteq> [] \<Longrightarrow> last (mk_band t b acc) = band_rect (fst (last acc)) t (snd (last acc)) b"
  by (simp add: mk_band_def last_map split_beta)

lemma mk_band_butlast: "butlast (mk_band t b acc) = mk_band t b (butlast acc)"
  by (simp add: mk_band_def map_butlast)

lemma MERGERECT_appended:
  assumes "appended reg0 reg t b acc" and "MERGERECT mem reg r t b = Inr reg'"
    and "\<And>r. r \<in> set (rg_rects reg0) \<Longrightarrow> bottom r \<le> t" and "t < b"
  shows "appended reg0 reg' t b (umerge acc (left r, right r))"
proof (cases "acc = []")
  case True
  have "rg_rects reg \<noteq> [] \<Longrightarrow> bottom (last (rg_rects reg)) \<noteq> b"
    using assms(1,4) assms(3) [of "last (rg_rects reg)"] True by (auto simp: appended_def)
  then have "add_rect mem reg (band_rect (left r) t (right r) b) = Inr reg'"
    using assms(2) by (auto simp: MERGERECT_def Let_def split: if_splits)
  from appended_trans [OF assms(1) add_rect_appended [OF this]] show ?thesis
    using True by (simp add: umerge_def)
next
  case False
  have rs: "rg_rects reg = rg_rects reg0 @ mk_band t b acc" and ext: "rg_extents reg = rg_extents reg0"
    and sz: "size_ok reg0 \<Longrightarrow> size_ok reg" using assms(1) by (simp_all add: appended_def)
  have l: "last (rg_rects reg) = band_rect (fst (last acc)) t (snd (last acc)) b"
    "butlast (rg_rects reg) = rg_rects reg0 @ mk_band t b (butlast acc)"
    using False by (simp_all add: rs mk_band_last mk_band_butlast butlast_append)
  show ?thesis
  proof (cases "snd (last acc) \<ge> left r")
    case True
    show ?thesis
    proof (cases "snd (last acc) < right r")
      case less: True
      have "reg' = reg\<lparr>rg_rects := rg_rects reg0 @ mk_band t b (butlast acc) @ [band_rect (fst (last acc)) t (right r) b]\<rparr>"
        using assms(2) True less l False rs by (auto simp: MERGERECT_def Let_def band_rect_def)
      moreover have "length (butlast acc) + 1 = length acc" using False by simp
      ultimately show ?thesis
        using sz ext True less False rs by (simp add: appended_def umerge_def size_ok_def)
    next
      case ge: False
      then have "reg' = reg" using assms(2) True l False rs by (auto simp: MERGERECT_def Let_def)
      then show ?thesis using assms(1) True ge False by (simp add: umerge_def)
    qed
  next
    case gt: False
    then have "add_rect mem reg (band_rect (left r) t (right r) b) = Inr reg'"
      using assms(2) l by (auto simp: MERGERECT_def Let_def split: if_splits)
    from appended_trans [OF assms(1) add_rect_appended [OF this]] show ?thesis
      using False gt by (simp add: umerge_def)
  qed
qed

lemma union_overlapping_appended:
  "union_overlapping mem reg r1 r2 t b = Inr reg' \<Longrightarrow> appended reg0 reg t b acc \<Longrightarrow>
   (\<And>r. r \<in> set (rg_rects reg0) \<Longrightarrow> bottom r \<le> t) \<Longrightarrow> t < b \<Longrightarrow>
   appended reg0 reg' t b (foldl umerge acc (by_left (spans r1) (spans r2)))"
proof (induction mem reg r1 r2 t b arbitrary: acc rule: union_overlapping.induct)
  case (1 mem reg r1 rs1 r2 rs2 t b)
  show ?case
  proof (cases "left r1 < left r2")
    case True
    then obtain reg1 where reg1: "MERGERECT mem reg r1 t b = Inr reg1"
      "union_overlapping mem reg1 rs1 (r2 # rs2) t b = Inr reg'"
      using 1(3) by (auto split: sum.splits)
    then show ?thesis
      using 1(1) [OF True reg1 MERGERECT_appended [OF 1(4) reg1(1) 1(5,6)] 1(5,6)] True by simp
  next
    case False
    then obtain reg1 where reg1: "MERGERECT mem reg r2 t b = Inr reg1"
      "union_overlapping mem reg1 (r1 # rs1) rs2 t b = Inr reg'"
      using 1(3) by (auto split: sum.splits)
    then show ?thesis
      using 1(2) [OF False reg1 MERGERECT_appended [OF 1(4) reg1(1) 1(5,6)] 1(5,6)] False by simp
  qed
next
  case (2 mem reg r1 rs1 t b)
  then obtain reg1 where reg1: "MERGERECT mem reg r1 t b = Inr reg1"
    "union_overlapping mem reg1 rs1 [] t b = Inr reg'" by (auto split: sum.splits)
  have "by_left ps [] = ps" for ps by (cases ps) auto
  then show ?case
    using 2(1) [OF reg1 MERGERECT_appended [OF 2(3) reg1(1) 2(4,5)] 2(4,5)] by simp
next
  case (3 mem reg r2 rs2 t b)
  then obtain reg1 where reg1: "MERGERECT mem reg r2 t b = Inr reg1"
    "union_overlapping mem reg1 [] rs2 t b = Inr reg'" by (auto split: sum.splits)
  have "by_left [] ps = ps" for ps by (cases ps) auto
  then show ?case
    using 3(1) [OF reg1 MERGERECT_appended [OF 3(3) reg1(1) 3(4,5)] 3(4,5)] by simp
qed auto

lemma spans_sorted_fst: "spans_ok ps \<Longrightarrow> sorted_wrt (\<lambda>p q. fst p \<le> fst q) ps"
  by (induction ps) force+

lemma by_left_props:
  "spans_ok ps \<Longrightarrow> spans_ok qs \<Longrightarrow>
   set (by_left ps qs) = set ps \<union> set qs \<and> sorted_wrt (\<lambda>p q. fst p \<le> fst q) (by_left ps qs)"
proof (induction ps qs rule: by_left.induct)
  case (1 p ps q qs)
  have "\<forall>x \<in> set ps. fst p \<le> fst x" "\<forall>x \<in> set qs. fst q \<le> fst x" using 1(3,4) by fastforce+
  then show ?case using 1 by force
next
  case (3 q qs)
  then show ?case using spans_sorted_fst [OF 3(2)] by simp
qed (simp add: spans_sorted_fst)

lemma umerge_fold:
  "spans_ok acc \<Longrightarrow> sorted_wrt (\<lambda>p q. fst p \<le> fst q) ps \<Longrightarrow> (\<forall>p \<in> set ps. fst p < snd p) \<Longrightarrow>
   (acc \<noteq> [] \<Longrightarrow> \<forall>p \<in> set ps. fst (last acc) \<le> fst p) \<Longrightarrow>
   spans_ok (foldl umerge acc ps) \<and> xset (foldl umerge acc ps) = xset acc \<union> xset ps"
proof (induction ps arbitrary: acc)
  case (Cons p ps)
  have step: "spans_ok (umerge acc p) \<and> xset (umerge acc p) = xset acc \<union> {fst p ..< snd p} \<and>
      umerge acc p \<noteq> [] \<and> fst (last (umerge acc p)) \<le> fst p"
  proof (cases acc rule: rev_cases)
    case Nil
    then show ?thesis using Cons.prems(3) by (simp add: umerge_def)
  next
    case (snoc acc' q)
    have "fst q \<le> fst p" "fst q < snd q" "fst p < snd p" "\<forall>x \<in> set acc'. snd x < fst q" "spans_ok acc'"
      using Cons.prems snoc by (auto simp: spans_ok_append)
    moreover have "{fst q ..< snd q} \<union> {fst p ..< snd p} = {fst q ..< max (snd q) (snd p)}"
      if "fst p \<le> snd q" using that \<open>fst q \<le> fst p\<close> by auto
    ultimately show ?thesis
      using snoc by (auto simp: umerge_def spans_ok_append max_def Un_assoc less_trans split: if_splits)
  qed
  then have "spans_ok (foldl umerge (umerge acc p) ps) \<and>
      xset (foldl umerge (umerge acc p) ps) = xset (umerge acc p) \<union> xset ps"
    using Cons.prems(2,3) by (intro Cons.IH) auto
  then show ?case using step by auto
qed simp


section \<open>Coalescing bands\<close>

definition canonical :: "rectangle list \<Rightarrow> bool" where
  "canonical rs \<longleftrightarrow> (\<forall>r \<in> set rs. row rs (top r - 1) \<noteq> row rs (top r))"

lemma same_spans:
  "list_all2 (\<lambda>p c. left p = left c \<and> right p = right c) (mk_band t b sp) (mk_band t' b' sp') \<longleftrightarrow> sp = sp'"
proof (induction sp arbitrary: sp')
  case (Cons p sp)
  then show ?case by (cases sp') (auto simp: prod_eq_iff)
qed auto

lemma merge_bands: "map2 (\<lambda>p c. p\<lparr>bottom := bottom c\<rparr>) (mk_band t b sp) (mk_band t' b' sp) = mk_band t b' sp"
  by (induction sp) (auto simp: band_rect_def)

lemma band_takeWhile:
  "(\<And>r. r \<in> set rest \<Longrightarrow> top r \<noteq> t) \<Longrightarrow> takeWhile (\<lambda>r. top r = t) (mk_band t b sp @ rest) = mk_band t b sp"
proof (induction sp)
  case Nil
  then show ?case by (cases rest) auto
qed simp

lemma coalesce_region_band:
  assumes rs: "rg_rects reg = A @ mk_band t b sp @ mk_band t' b' sp' @ rest" and "sp' \<noteq> []"
    and "\<And>r. r \<in> set rest \<Longrightarrow> top r \<noteq> t'"
  shows "coalesce_region reg (length A) (length A + length sp) =
    (if sp = sp' \<and> b = t'
     then (reg\<lparr>rg_rects := A @ mk_band t b' sp @ rest\<rparr>,
           if rest = [] then length A else last_band_start (rg_rects reg))
     else (reg, if rest = [] then length A + length sp else last_band_start (rg_rects reg)))"
proof -
  let ?cur = "mk_band t' b' sp'"
  have d: "drop (length A + length sp) (rg_rects reg) = ?cur @ rest" by (simp add: rs)
  have n: "rg_rects reg ! (length A + length sp) = hd ?cur"
    using assms(2) by (simp add: rs nth_append hd_conv_nth)
  have hd: "top (hd ?cur) = t'" using assms(2) by (cases sp') auto
  have cur: "takeWhile (\<lambda>r. top r = top (rg_rects reg ! (length A + length sp)))
      (drop (length A + length sp) (rg_rects reg)) = ?cur"
    unfolding d n hd using assms(3) by (rule band_takeWhile)
  have rest: "drop (length A + length sp + length ?cur) (rg_rects reg) = rest" by (simp add: rs)
  have prev: "take (length A + length sp - length A) (drop (length A) (rg_rects reg)) = mk_band t b sp"
    by (simp add: rs)
  have A: "take (length A) (rg_rects reg) = A" by (simp add: rs)
  have "bottom (hd (mk_band t b sp)) = b" if "sp = sp'" using that assms(2) by (cases sp') auto
  then have cond: "length ?cur = length (mk_band t b sp) \<and> length ?cur \<noteq> 0 \<and>
      bottom (hd (mk_band t b sp)) = top (hd ?cur) \<and>
      list_all2 (\<lambda>p c. left p = left c \<and> right p = right c) (mk_band t b sp) ?cur \<longleftrightarrow> sp = sp' \<and> b = t'"
    unfolding same_spans hd mk_band_simps(5) using assms(2) by auto
  have "map2 (\<lambda>p c. p\<lparr>bottom := bottom c\<rparr>) (mk_band t b sp) ?cur = mk_band t b' sp" if "sp = sp'"
    using that merge_bands by simp
  then show ?thesis
    unfolding coalesce_region_def Let_def cur prev rest A cond by (cases "sp = sp' \<and> b = t'") (auto simp: merge_bands)
qed

definition out_ok :: "region \<Rightarrow> nat \<Rightarrow> int \<Rightarrow> bool" where
  "out_ok reg prev y \<longleftrightarrow>
     (\<exists>A t b sp. rg_rects reg = A @ mk_band t b sp \<and> prev = length A \<and> spans_ok sp \<and> t < b \<and>
        (\<forall>r \<in> set A. bottom r \<le> t) \<and> (sp = [] \<longrightarrow> A = [])) \<and>
     banded (rg_rects reg) \<and> (\<forall>r \<in> set (rg_rects reg). bottom r \<le> y) \<and> canonical (rg_rects reg)"

lemma out_okI:
  assumes "rg_rects reg = A @ mk_band t b sp" and "spans_ok sp" and "sp \<noteq> []" and "t < b"
    and "\<forall>r \<in> set A. bottom r \<le> t" and "banded (rg_rects reg)" and "\<forall>r \<in> set (rg_rects reg). bottom r \<le> y"
    and "canonical (rg_rects reg)"
  shows "out_ok reg (length A) y"
  unfolding out_ok_def using assms by blast

lemma out_ok_mono: "out_ok reg prev y \<Longrightarrow> y \<le> y' \<Longrightarrow> out_ok reg prev y'"
  unfolding out_ok_def by fastforce

lemma row_above: "(\<And>r. r \<in> set rs \<Longrightarrow> bottom r \<le> y) \<Longrightarrow> row rs y = {}"
  by (force simp: row_def point_in_rect_def)

lemma row_below: "(\<And>r. r \<in> set rs \<Longrightarrow> y < top r) \<Longrightarrow> row rs y = {}"
  by (force simp: row_def point_in_rect_def)

lemma out_ok_row: "out_ok reg prev y \<Longrightarrow> y \<le> x \<Longrightarrow> row (rg_rects reg) x = {}"
  by (rule row_above) (force simp: out_ok_def)

lemma canonical_append:
  assumes "canonical rs" and "spans_ok sp" and "\<And>r. r \<in> set rs \<Longrightarrow> bottom r \<le> t" and "t < b"
    and "sp \<noteq> [] \<Longrightarrow> row rs (t - 1) \<noteq> xset sp" and "banded rs"
  shows "canonical (rs @ mk_band t b sp)"
  unfolding canonical_def
proof
  fix r assume r: "r \<in> set (rs @ mk_band t b sp)"
  show "row (rs @ mk_band t b sp) (top r - 1) \<noteq> row (rs @ mk_band t b sp) (top r)"
  proof (cases "r \<in> set rs")
    case True
    then have "top r < t" using assms(3,6) by (force simp: banded_def is_rect_empty_def)
    then show ?thesis using assms(1) True by (simp add: canonical_def)
  next
    case False
    then have "top r = t" and "sp \<noteq> []" using r mk_band_elem by auto
    moreover have "row rs t = {}" using assms(3) by (rule row_above)
    ultimately show ?thesis using assms(4,5) by simp
  qed
qed

lemma before_below: "(\<And>r. r \<in> set A \<Longrightarrow> bottom r \<le> t) \<Longrightarrow> r \<in> set A \<Longrightarrow> r' \<in> set (mk_band t b sp) \<Longrightarrow> before r r'"
  by (auto simp: before_def dest!: mk_band_elem)

lemma coalesce_new_ok:
  assumes ok: "out_ok reg prev y" and app: "appended reg reg1 t' b' sp'" and sp': "spans_ok sp'"
    and le': "sp' \<noteq> [] \<Longrightarrow> t' < b' \<and> y \<le> t' \<and> b' \<le> y'" and yy': "y \<le> y'"
  obtains reg2 prev2 where "coalesce_new prev (length (rg_rects reg)) reg1 = (reg2, prev2)"
    and "out_ok reg2 prev2 y'" and "\<And>x. row (rg_rects reg2) x = row (rg_rects reg1) x"
    and "rg_extents reg2 = rg_extents reg" and "size_ok reg \<Longrightarrow> size_ok reg2"
proof -
  let ?R = "rg_rects reg"
  obtain A t b sp where A: "?R = A @ mk_band t b sp" "prev = length A" "spans_ok sp" "t < b" "\<forall>r \<in> set A. bottom r \<le> t" "sp = [] \<longrightarrow> A = []"
    and R: "banded ?R" "\<forall>r \<in> set ?R. bottom r \<le> y" "canonical ?R"
    using ok unfolding out_ok_def by blast
  have R1: "rg_rects reg1 = ?R @ mk_band t' b' sp'" and ext: "rg_extents reg1 = rg_extents reg"
    and sz: "size_ok reg \<Longrightarrow> size_ok reg1" using app by (simp_all add: appended_def)
  have top: "top r < t" if "r \<in> set A" for r
    using that A(5) R(1) A(1) by (force simp: banded_append banded_def is_rect_empty_def)
  consider (none) "sp' = []" | (merge) "sp' \<noteq> []" "sp = sp'" "b = t'" | (add) "sp' \<noteq> []" "\<not> (sp = sp' \<and> b = t')" by blast
  then show thesis
  proof cases
    case none
    then show ?thesis
      using that [of reg1 prev] ok out_ok_mono [of reg prev y y'] R1 ext sz yy'
      by (simp add: coalesce_new_def out_ok_def)
  next
    case merge
    let ?new = "A @ mk_band t b' sp"
    have le: "t' < b'" "y \<le> t'" "b' \<le> y'" using le' merge by simp_all
    have c: "coalesce_new prev (length ?R) reg1 = (reg1\<lparr>rg_rects := ?new\<rparr>, prev)"
      using coalesce_region_band [of reg1 A t b sp t' b' sp' "[]"] merge A(1,2) R1 by (simp add: coalesce_new_def)
    have row: "row ?new x = row (rg_rects reg1) x" for x
      using R1 A(1,4) merge le by auto
    have old: "row ?new x = row ?R x" if "x < t'" for x using row [of x] R1 that by simp
    have "canonical ?new"
      unfolding canonical_def
    proof
      fix r assume r: "r \<in> set ?new"
      have "\<exists>r' \<in> set ?R. top r' = top r"
      proof (cases "r \<in> set A")
        case False
        then have "top r = t" using r mk_band_elem by auto
        moreover obtain p sp0 where "sp = p # sp0" using merge by (cases sp) auto
        ultimately show ?thesis using A(1) by auto
      qed (use A in auto)
      then obtain r' where r': "r' \<in> set ?R" "top r' = top r" by blast
      have "top r < t'" using r top A(4) merge mk_band_elem by fastforce
      then show "row ?new (top r - 1) \<noteq> row ?new (top r)"
        using R(3) r' old [of "top r"] old [of "top r - 1"] by (force simp only: canonical_def)
    qed
    moreover have "banded ?new"
      using R(1) A banded_mk_band [of t b' sp] before_below [of A t] merge le by (auto simp: banded_append)
    moreover have "\<forall>r \<in> set ?new. bottom r \<le> y'" using A(4,5) merge le by (auto dest!: mk_band_elem)
    ultimately have "out_ok (reg1\<lparr>rg_rects := ?new\<rparr>) prev y'"
      using A merge le by (auto intro!: out_okI [of _ A t b' sp])
    moreover have "size_ok reg1 \<Longrightarrow> size_ok (reg1\<lparr>rg_rects := ?new\<rparr>)" by (simp add: size_ok_def R1 A(1))
    ultimately show ?thesis using that [OF c] row ext sz by simp
  next
    case add
    have le: "t' < b'" "y \<le> t'" "b' \<le> y'" using le' add by simp_all
    have c: "coalesce_new prev (length ?R) reg1 = (reg1, length ?R)"
      using coalesce_region_band [of reg1 A t b sp t' b' sp' "[]"] add A(1,2) R1 by (auto simp: coalesce_new_def)
    have "row ?R (t' - 1) \<noteq> xset sp'"
    proof
      assume eq: "row ?R (t' - 1) = xset sp'"
      have "sp \<noteq> []"
      proof
        assume "sp = []"
        then have "row ?R (t' - 1) = {}" using A(1,6) by simp
        then show False using eq add(1) xset_empty [OF sp'] by simp
      qed
      then have "b \<le> t'" using R(2) A(1) le by (cases sp) auto
      moreover have "row A (t' - 1) = {}" using A(4,5) \<open>b \<le> t'\<close> by (intro row_above) force
      ultimately have "xset sp = xset sp' \<and> b = t'"
        using eq A(1,4) add(1) xset_empty [OF sp'] by (auto split: if_splits)
      then show False using spans_unique [OF A(3) sp'] add by blast
    qed
    then have "canonical (rg_rects reg1)"
      using canonical_append [OF R(3) sp', of t' b'] R le unfolding R1 by force
    moreover have "banded (rg_rects reg1)"
      unfolding R1 banded_append using R banded_mk_band [OF le(1) sp'] le before_below [of ?R t' _ _ b' sp'] by force
    moreover have "\<forall>r \<in> set (rg_rects reg1). bottom r \<le> y'" using R(2) le unfolding R1 by (auto dest!: mk_band_elem)
    ultimately have "out_ok reg1 (length ?R) y'"
      using R1 sp' le R(2) add(1) by (intro out_okI [of _ ?R t' b' sp']) auto
    then show ?thesis using that [OF c] ext sz by simp
  qed
qed

end
