(* ===== verification/Region_Ops.thy ===== *)
theory Region_Ops
  imports Region_Bands
begin

text \<open>
  Correctness of the region operations as operations on sets of pixels. The contract
  between \<^verbatim>\<open>region_op\<close> and the band functions it receives is a locale, interpreted on
  the functions of intersection, difference and union.
\<close>


section \<open>Combining two regions\<close>

text \<open>The rows of a banded list, by its first band.\<close>

lemma row_first:
  assumes "banded rs" and "rs \<noteq> []"
  shows "x < bottom (hd rs) \<Longrightarrow> row rs x = (if top (hd rs) \<le> x then xset (spans (first_band rs)) else {})"
    and "bottom (hd rs) \<le> x \<Longrightarrow> row rs x = row (after_band rs) x"
proof -
  note b = banded_first [OF assms]
  have r: "row rs x = row (first_band rs) x \<union> row (after_band rs) x"
    using row_simps(3) [of "first_band rs" "after_band rs" x] band_split [of rs] by simp
  have f: "row (first_band rs) x =
      (if top (hd rs) \<le> x \<and> x < bottom (hd rs) then xset (spans (first_band rs)) else {})"
    by (subst b(1)) (rule row_mk_band)
  have a: "row (after_band rs) x = {}" if "x < bottom (hd rs)"
    using b(4) that by (intro row_below) force
  show "row rs x = (if top (hd rs) \<le> x then xset (spans (first_band rs)) else {})" if "x < bottom (hd rs)"
    using r f a [OF that] that by simp
  show "row rs x = row (after_band rs) x" if "bottom (hd rs) \<le> x" using r f that by simp
qed

text \<open>The rest of a source below the line \<open>y\<close> that the operation has reached.\<close>

definition src_ok :: "int \<Rightarrow> rectangle list \<Rightarrow> bool" where
  "src_ok y rs \<longleftrightarrow> banded rs \<and> (rs \<noteq> [] \<longrightarrow> y < bottom (hd rs))"

definition next_src :: "int \<Rightarrow> rectangle list \<Rightarrow> rectangle list" where
  "next_src y rs = (if bottom (hd rs) = y then after_band rs else rs)"

lemma next_src_ok:
  assumes "src_ok y rs" and "rs \<noteq> []" and "y' \<le> bottom (hd rs)"
  shows "src_ok y' (next_src y' rs)" and "y' \<le> x \<Longrightarrow> row (next_src y' rs) x = row rs x"
    and "bottom (hd rs) = y' \<Longrightarrow> next_src y' rs \<noteq> [] \<Longrightarrow> y' \<le> top (hd (next_src y' rs))"
proof -
  have b: "banded rs" using assms(1) by (simp add: src_ok_def)
  note bf = banded_first [OF b assms(2)]
  have hd: "hd (after_band rs) \<in> set (after_band rs)" if "after_band rs \<noteq> []" using that by simp
  have "y' < bottom (hd (after_band rs))" if "after_band rs \<noteq> []" "bottom (hd rs) = y'"
    using bf(4) [OF hd [OF that(1)]] bf(5) hd [OF that(1)] that(2) by (force simp: banded_def is_rect_empty_def)
  then show "src_ok y' (next_src y' rs)" using b bf(5) assms by (auto simp: src_ok_def next_src_def)
  show "row (next_src y' rs) x = row rs x" if "y' \<le> x"
    using row_first(2) [OF b assms(2)] that by (simp add: next_src_def)
  show "y' \<le> top (hd (next_src y' rs))" if "bottom (hd rs) = y'" "next_src y' rs \<noteq> []"
    using bf(4) hd that by (simp add: next_src_def)
qed

lemma next_src_subset: "set (next_src y rs) \<subseteq> set rs"
  by (auto simp: next_src_def after_band_def dest: set_dropWhileD)

text \<open>What a function for the part of a band beside the other region does.\<close>

definition writes_band :: "(nat \<Rightarrow> bool) \<Rightarrow> non_overlap_func \<Rightarrow> bool" where
  "writes_band mem f \<longleftrightarrow>
     (\<forall>reg rs t b reg'. f reg rs t b = Inr reg' \<longrightarrow> appended reg reg' t b (spans rs)) \<and>
     ((\<forall>n. mem n) \<longrightarrow> (\<forall>reg rs t b. \<exists>reg'. f reg rs t b = Inr reg'))"

text \<open>
  The contract between \<^verbatim>\<open>region_op\<close> and the functions it is given: on a common band
  the overlap function writes the spans of \<open>F\<close> of the two sets of columns; the other two
  functions are present when \<open>F\<close> keeps what only one of the regions has.
\<close>

locale band_operation =
  fixes mem :: "nat \<Rightarrow> bool"
    and overlap :: overlap_func
    and non1 :: "non_overlap_func option"
    and non2 :: "non_overlap_func option"
    and F :: "int set \<Rightarrow> int set \<Rightarrow> int set"
  assumes overlap_writes: "overlap reg r1 r2 t b = Inr reg' \<Longrightarrow> r1 \<noteq> [] \<Longrightarrow> r2 \<noteq> [] \<Longrightarrow>
      spans_ok (spans r1) \<Longrightarrow> spans_ok (spans r2) \<Longrightarrow> t < b \<Longrightarrow> (\<And>r. r \<in> set (rg_rects reg) \<Longrightarrow> bottom r \<le> t) \<Longrightarrow>
      \<exists>sp. appended reg reg' t b sp \<and> spans_ok sp \<and> xset sp = F (xset (spans r1)) (xset (spans r2))"
    and overlap_succeeds: "(\<And>n. mem n) \<Longrightarrow> \<exists>reg'. overlap reg r1 r2 t b = Inr reg'"
    and non1_writes: "non1 = Some f \<Longrightarrow> writes_band mem f"
    and non2_writes: "non2 = Some f \<Longrightarrow> writes_band mem f"
    and F_left: "F X {} = (if non1 = None then {} else X)"
    and F_right: "F {} X = (if non2 = None then {} else X)"
begin

lemma F_empty: "F {} {} = {}"
  using F_left [of "{}"] by simp

lemma call_non_overlap_writes:
  assumes call: "call_non_overlap f reg (first_band r) (max (top (hd r)) y) (min (bottom (hd r)) u) = Inr reg1"
    and f: "\<And>g. f = Some g \<Longrightarrow> writes_band mem g" and r: "src_ok y r" "r \<noteq> []"
    and u: "top (hd r) < u" "y \<le> u"
  obtains t b sp where "appended reg reg1 t b sp" and "spans_ok sp"
    and "sp = [] \<or> (t < b \<and> y \<le> t \<and> b \<le> u \<and> b \<le> bottom (hd r))"
    and "\<And>x. y \<le> x \<Longrightarrow> x < u \<Longrightarrow> x < bottom (hd r) \<Longrightarrow>
      (if t \<le> x \<and> x < b then xset sp else {}) = (if f = None then {} else row r x)"
proof -
  let ?t = "max (top (hd r)) y" and ?b = "min (bottom (hd r)) u"
  have b: "banded r" "y < bottom (hd r)" using r by (simp_all add: src_ok_def)
  note bf = banded_first [OF b(1) r(2)]
  have row: "row r x = (if top (hd r) \<le> x then xset (spans (first_band r)) else {})" if "x < bottom (hd r)" for x
    using row_first(1) [OF b(1) r(2) that] .
  show thesis
  proof (cases f)
    case None
    then show ?thesis using call that [of ?t ?b "[]"] by (simp add: call_non_overlap_def)
  next
    case (Some g)
    show ?thesis
    proof (cases "?t = ?b")
      case True
      then have "reg1 = reg" using call Some by (simp add: call_non_overlap_def)
      moreover have "row r x = {}" if "y \<le> x" "x < u" "x < bottom (hd r)" for x
        using row [OF that(3)] True that by auto
      ultimately show ?thesis using that [of ?t ?b "[]"] Some by simp
    next
      case False
      then have "appended reg reg1 ?t ?b (spans (first_band r))"
        using call f [OF Some] Some by (simp add: call_non_overlap_def writes_band_def)
      moreover have "?t < ?b" using False u b(2) bf(3) by linarith
      moreover have "(if ?t \<le> x \<and> x < ?b then xset (spans (first_band r)) else {}) = row r x"
        if "y \<le> x" "x < u" "x < bottom (hd r)" for x
        using row [OF that(3)] that by auto
      ultimately show ?thesis using that [of ?t ?b] bf(2) Some by simp
    qed
  qed
qed

text \<open>One round: the output is right up to the new line.\<close>

definition progress :: "region \<Rightarrow> int \<Rightarrow> rectangle list \<Rightarrow> rectangle list \<Rightarrow>
    region \<Rightarrow> nat \<Rightarrow> int \<Rightarrow> rectangle list \<Rightarrow> rectangle list \<Rightarrow> bool" where
  "progress reg y r1 r2 reg' prev' y' r1' r2' \<longleftrightarrow>
     out_ok reg' prev' y' \<and> y \<le> y' \<and> rg_extents reg' = rg_extents reg \<and> (size_ok reg \<longrightarrow> size_ok reg') \<and>
     src_ok y' r1' \<and> src_ok y' r2' \<and> set r1' \<subseteq> set r1 \<and> set r2' \<subseteq> set r2 \<and>
     (\<forall>x. row (rg_rects reg') x = (if x < y then row (rg_rects reg) x
        else if x < y' then F (row r1 x) (row r2 x) else {})) \<and>
     (\<forall>x \<ge> y'. row r1' x = row r1 x \<and> row r2' x = row r2 x)"

definition fresh :: "int \<Rightarrow> rectangle list \<Rightarrow> rectangle list \<Rightarrow> bool" where
  "fresh y r1 r2 \<longleftrightarrow> (r1 \<noteq> [] \<and> r2 \<noteq> [] \<longrightarrow> y \<le> top (hd r1) \<or> y \<le> top (hd r2))"

lemma progress_trans:
  assumes "progress reg y r1 r2 reg1 prev1 y1 s1 s2" and "progress reg1 y1 s1 s2 reg2 prev2 y2 t1 t2"
  shows "progress reg y r1 r2 reg2 prev2 y2 t1 t2"
  using assms unfolding progress_def by (auto; force)

lemma above_writes:
  assumes above: "(if top (hd r1) < top (hd r2)
      then call_non_overlap non1 reg (first_band r1) (max (top (hd r1)) y) (min (bottom (hd r1)) (top (hd r2)))
      else if top (hd r2) < top (hd r1)
      then call_non_overlap non2 reg (first_band r2) (max (top (hd r2)) y) (min (bottom (hd r2)) (top (hd r1)))
      else Inr reg) = Inr reg1"
    and src: "src_ok y r1" "src_ok y r2" "r1 \<noteq> []" "r2 \<noteq> []" and fresh: "fresh y r1 r2"
    and u: "u = min (max (top (hd r1)) (top (hd r2))) (min (bottom (hd r1)) (bottom (hd r2)))"
  obtains t b sp where "appended reg reg1 t b sp" and "spans_ok sp"
    and "sp \<noteq> [] \<Longrightarrow> t < b \<and> y \<le> t \<and> b \<le> u"
    and "\<And>x. y \<le> x \<Longrightarrow> x < u \<Longrightarrow> (if t \<le> x \<and> x < b then xset sp else {}) = F (row r1 x) (row r2 x)"
proof -
  have b: "banded r1" "banded r2" using src by (simp_all add: src_ok_def)
  note ne = banded_first(3) [OF b(1) src(3)] banded_first(3) [OF b(2) src(4)]
  note rows = row_first(1) [OF b(1) src(3)] row_first(1) [OF b(2) src(4)]
  consider (less) "top (hd r1) < top (hd r2)" | (greater) "top (hd r2) < top (hd r1)" | (equal) "top (hd r1) = top (hd r2)"
    by linarith
  then show thesis
  proof cases
    case less
    have "y \<le> top (hd r2)" using fresh src less by (auto simp: fresh_def)
    moreover have "call_non_overlap non1 reg (first_band r1) (max (top (hd r1)) y) (min (bottom (hd r1)) (top (hd r2))) = Inr reg1"
      using above less by simp
    ultimately obtain t b sp where w: "appended reg reg1 t b sp" "spans_ok sp"
      "sp = [] \<or> (t < b \<and> y \<le> t \<and> b \<le> top (hd r2) \<and> b \<le> bottom (hd r1))"
      and rw: "\<And>x. y \<le> x \<Longrightarrow> x < top (hd r2) \<Longrightarrow> x < bottom (hd r1) \<Longrightarrow>
        (if t \<le> x \<and> x < b then xset sp else {}) = (if non1 = None then {} else row r1 x)"
      using call_non_overlap_writes [of non1 reg r1 y "top (hd r2)" reg1] non1_writes src less by blast
    show ?thesis
    proof (rule that [OF w(1,2)])
      show "t < b \<and> y \<le> t \<and> b \<le> u" if "sp \<noteq> []" using w(3) that u less ne by auto
      show "(if t \<le> x \<and> x < b then xset sp else {}) = F (row r1 x) (row r2 x)" if "y \<le> x" "x < u" for x
      proof -
        have "x < top (hd r2)" "x < bottom (hd r1)" "x < bottom (hd r2)" using that u less by auto
        then show ?thesis using rw [of x] rows(2) [of x] that F_left by simp
      qed
    qed
  next
    case greater
    have "y \<le> top (hd r1)" using fresh src greater by (auto simp: fresh_def)
    moreover have "call_non_overlap non2 reg (first_band r2) (max (top (hd r2)) y) (min (bottom (hd r2)) (top (hd r1))) = Inr reg1"
      using above greater by simp
    ultimately obtain t b sp where w: "appended reg reg1 t b sp" "spans_ok sp"
      "sp = [] \<or> (t < b \<and> y \<le> t \<and> b \<le> top (hd r1) \<and> b \<le> bottom (hd r2))"
      and rw: "\<And>x. y \<le> x \<Longrightarrow> x < top (hd r1) \<Longrightarrow> x < bottom (hd r2) \<Longrightarrow>
        (if t \<le> x \<and> x < b then xset sp else {}) = (if non2 = None then {} else row r2 x)"
      using call_non_overlap_writes [of non2 reg r2 y "top (hd r1)" reg1] non2_writes src greater by blast
    show ?thesis
    proof (rule that [OF w(1,2)])
      show "t < b \<and> y \<le> t \<and> b \<le> u" if "sp \<noteq> []" using w(3) that u greater ne by auto
      show "(if t \<le> x \<and> x < b then xset sp else {}) = F (row r1 x) (row r2 x)" if "y \<le> x" "x < u" for x
      proof -
        have "x < top (hd r1)" "x < bottom (hd r1)" "x < bottom (hd r2)" using that u greater by auto
        then show ?thesis using rw [of x] rows(1) [of x] that F_right by simp
      qed
    qed
  next
    case equal
    then have "reg1 = reg" using above by simp
    show ?thesis
    proof (rule that [of _ _ "[]"])
      show "(if t \<le> x \<and> x < b then xset [] else {}) = F (row r1 x) (row r2 x)" if "y \<le> x" "x < u" for x t b
        using rows [of x] that u equal F_empty by simp
    qed (simp_all add: \<open>reg1 = reg\<close>)
  qed
qed

lemma common_writes:
  assumes out: "out_ok reg prev y" and src: "banded r1" "banded r2" "r1 \<noteq> []" "r2 \<noteq> []"
    and ytop: "ytop = max (top (hd r1)) (top (hd r2))" and ybot: "ybot = min (bottom (hd r1)) (bottom (hd r2))"
    and y: "y \<le> ytop" "y \<le> ybot"
    and ov: "(if ybot > ytop then overlap reg (first_band r1) (first_band r2) ytop ybot else Inr reg) = Inr reg'"
  obtains sp where "appended reg reg' ytop ybot sp" and "spans_ok sp"
    and "sp \<noteq> [] \<Longrightarrow> ytop < ybot"
    and "\<And>x. ytop \<le> x \<Longrightarrow> x < ybot \<Longrightarrow> xset sp = F (row r1 x) (row r2 x)"
proof (cases "ybot > ytop")
  case True
  then have call: "overlap reg (first_band r1) (first_band r2) ytop ybot = Inr reg'" using ov by simp
  have "bottom r \<le> ytop" if "r \<in> set (rg_rects reg)" for r using out that y(1) by (force simp: out_ok_def)
  then obtain sp where "appended reg reg' ytop ybot sp" "spans_ok sp"
      "xset sp = F (xset (spans (first_band r1))) (xset (spans (first_band r2)))"
    using overlap_writes [OF call _ _ banded_first(2) [OF src(1,3)] banded_first(2) [OF src(2,4)] True] src by auto
  moreover have "row r1 x = xset (spans (first_band r1)) \<and> row r2 x = xset (spans (first_band r2))"
    if "ytop \<le> x" "x < ybot" for x
    using row_first(1) [OF src(1,3), of x] row_first(1) [OF src(2,4), of x] that ytop ybot by simp
  ultimately show ?thesis using that True by metis
next
  case False
  then show ?thesis using that [of "[]"] ov by simp
qed

lemma step_progress:
  assumes step: "region_op_step overlap non1 non2 reg prev y r1 r2 = Inr (reg', prev', y', r1', r2')"
    and out: "out_ok reg prev y" and src: "src_ok y r1" "src_ok y r2" "r1 \<noteq> []" "r2 \<noteq> []" and fresh: "fresh y r1 r2"
  shows "progress reg y r1 r2 reg' prev' y' r1' r2' \<and> fresh y' r1' r2'"
proof -
  let ?ytop = "max (top (hd r1)) (top (hd r2))" and ?ybot = "min (bottom (hd r1)) (bottom (hd r2))"
  define u where "u = min ?ytop ?ybot"
  let ?above = "if top (hd r1) < top (hd r2)
      then call_non_overlap non1 reg (first_band r1) (max (top (hd r1)) y) (min (bottom (hd r1)) (top (hd r2)))
      else if top (hd r2) < top (hd r1)
      then call_non_overlap non2 reg (first_band r2) (max (top (hd r2)) y) (min (bottom (hd r2)) (top (hd r1)))
      else Inr reg"
  have b: "banded r1" "banded r2" "y < bottom (hd r1)" "y < bottom (hd r2)" using src by (simp_all add: src_ok_def)
  have y: "y \<le> ?ytop" "y \<le> ?ybot" using fresh src b by (auto simp: fresh_def)
  obtain reg1 where reg1: "?above = Inr reg1"
  proof (cases ?above)
    case (Inl e)
    then show ?thesis using step unfolding region_op_step_def Let_def Inl sum.case by simp
  qed
  obtain t b' sp where w1: "appended reg reg1 t b' sp" "spans_ok sp" "sp \<noteq> [] \<Longrightarrow> t < b' \<and> y \<le> t \<and> b' \<le> u"
    and r1: "\<And>x. y \<le> x \<Longrightarrow> x < u \<Longrightarrow> (if t \<le> x \<and> x < b' then xset sp else {}) = F (row r1 x) (row r2 x)"
    using above_writes [OF reg1 src fresh u_def] by blast
  have yu: "y \<le> u" using y by (simp add: u_def)
  have ule: "u \<le> ?ytop" "u \<le> ?ybot" by (simp_all only: u_def min.cobounded1 min.cobounded2)
  obtain reg2 prev2 where c1: "coalesce_new prev (length (rg_rects reg)) reg1 = (reg2, prev2)"
    and out2: "out_ok reg2 prev2 u" and row2: "\<And>x. row (rg_rects reg2) x = row (rg_rects reg1) x"
    and ext2: "rg_extents reg2 = rg_extents reg" and sz2: "size_ok reg \<Longrightarrow> size_ok reg2"
    using coalesce_new_ok [OF out w1(1,2) _ yu] w1(3) by blast
  let ?ov = "if ?ybot > ?ytop then overlap reg2 (first_band r1) (first_band r2) ?ytop ?ybot else Inr reg2"
  obtain reg3 where reg3: "?ov = Inr reg3"
  proof (cases ?ov)
    case (Inl e)
    then show ?thesis using step unfolding region_op_step_def Let_def reg1 sum.case c1 prod.case Inl by simp
  qed
  obtain sp2 where w2: "appended reg2 reg3 ?ytop ?ybot sp2" "spans_ok sp2" "sp2 \<noteq> [] \<Longrightarrow> ?ytop < ?ybot"
    and r2: "\<And>x. ?ytop \<le> x \<Longrightarrow> x < ?ybot \<Longrightarrow> xset sp2 = F (row r1 x) (row r2 x)"
    by (rule common_writes [OF out2 b(1,2) src(3,4) refl refl ule reg3]) (rule that)
  obtain reg4 prev4 where c2: "coalesce_new prev2 (length (rg_rects reg2)) reg3 = (reg4, prev4)"
    and out4: "out_ok reg4 prev4 ?ybot" and row4: "\<And>x. row (rg_rects reg4) x = row (rg_rects reg3) x"
    and ext4: "rg_extents reg4 = rg_extents reg2" and sz4: "size_ok reg2 \<Longrightarrow> size_ok reg4"
    using coalesce_new_ok [OF out2 w2(1,2) _ ule(2)] w2(3) ule(1) by blast
  have res4: "reg' = reg4" "prev' = prev4"
    using step unfolding region_op_step_def Let_def reg1 sum.case c1 prod.case reg3 c2 by simp_all
  have res: "reg' = reg4" "prev' = prev4" "y' = ?ybot" "r1' = next_src ?ybot r1" "r2' = next_src ?ybot r2"
    using res4 region_op_step_rest [OF step] by (simp_all only: next_src_def)
  have row: "row (rg_rects reg') x = (if x < y then row (rg_rects reg) x
      else if x < y' then F (row r1 x) (row r2 x) else {})" for x
  proof -
    have "row (rg_rects reg') x = row (rg_rects reg) x \<union> (if t \<le> x \<and> x < b' then xset sp else {})
        \<union> (if ?ytop \<le> x \<and> x < ?ybot then xset sp2 else {})"
      using row4 [of x] row2 [of x] w1(1) w2(1) res(1) by (simp add: appended_def)
    moreover have "row (rg_rects reg) x = {}" if "y \<le> x" using out_ok_row [OF out that] .
    moreover have "(if t \<le> x \<and> x < b' then xset sp else {}) = {}" if "x < y \<or> u \<le> x"
      using that w1(3) by (cases "sp = []") auto
    moreover have "x < u \<longleftrightarrow> x < ?ytop \<and> x < ?ybot" by (auto simp: u_def)
    ultimately show ?thesis using r1 [of x] r2 [of x] res(3) y yu by (cases "x < y"; cases "x < u") auto
  qed
  note n1 = next_src_ok [OF src(1,3), of ?ybot] and n2 = next_src_ok [OF src(2,4), of ?ybot]
  have "progress reg y r1 r2 reg' prev' y' r1' r2'"
    unfolding progress_def using out4 res row n1(1,2) n2(1,2) y(2) ext2 ext4 sz2 sz4 next_src_subset by simp
  moreover have "fresh y' r1' r2'"
    unfolding fresh_def res using n1(3) n2(3) by (auto simp: min_def)
  ultimately show ?thesis by simp
qed

lemma loop_progress:
  assumes "region_op_loop overlap non1 non2 reg prev y r1 r2 = Inr (reg', prev', y', r1', r2')"
    and "out_ok reg prev y" and "src_ok y r1" and "src_ok y r2" and "fresh y r1 r2"
  shows "progress reg y r1 r2 reg' prev' y' r1' r2' \<and> (r1' = [] \<or> r2' = [])"
  using assms
proof (induction "length r1 + length r2" arbitrary: reg prev y r1 r2 rule: less_induct)
  case less
  show ?case
  proof (cases "r1 \<noteq> [] \<and> r2 \<noteq> []")
    case True
    then obtain reg1 prev1 y1 s1 s2 where step: "region_op_step overlap non1 non2 reg prev y r1 r2 = Inr (reg1, prev1, y1, s1, s2)"
      and loop: "region_op_loop overlap non1 non2 reg1 prev1 y1 s1 s2 = Inr (reg', prev', y', r1', r2')"
      using less.prems(1) by (subst (asm) region_op_loop.simps) (auto split: sum.splits prod.splits)
    have p: "progress reg y r1 r2 reg1 prev1 y1 s1 s2" "fresh y1 s1 s2"
      using step_progress [OF step less.prems(2,3,4)] True less.prems(5) by blast+
    have "length s1 + length s2 < length r1 + length r2" using region_op_step_shorter [OF step] True by blast
    then have "progress reg1 y1 s1 s2 reg' prev' y' r1' r2' \<and> (r1' = [] \<or> r2' = [])"
      using less.hyps loop p by (auto simp: progress_def)
    then show ?thesis using progress_trans [OF p(1)] by blast
  next
    case False
    then show ?thesis
      using less.prems out_ok_row [OF less.prems(2)] by (subst (asm) region_op_loop.simps) (auto simp: progress_def)
  qed
qed

lemma step_succeeds:
  assumes "\<And>n. mem n"
  shows "\<exists>x. region_op_step overlap non1 non2 reg prev y r1 r2 = Inr x"
proof -
  have non: "\<exists>reg'. call_non_overlap f reg rs t b = Inr reg'" if "\<And>g. f = Some g \<Longrightarrow> writes_band mem g" for f reg rs t b
    using that assms by (auto simp: call_non_overlap_def writes_band_def split: option.splits)
  let ?ytop = "max (top (hd r1)) (top (hd r2))" and ?ybot = "min (bottom (hd r1)) (bottom (hd r2))"
  obtain reg1 where reg1: "(if top (hd r1) < top (hd r2)
      then call_non_overlap non1 reg (first_band r1) (max (top (hd r1)) y) (min (bottom (hd r1)) (top (hd r2)))
      else if top (hd r2) < top (hd r1)
      then call_non_overlap non2 reg (first_band r2) (max (top (hd r2)) y) (min (bottom (hd r2)) (top (hd r1)))
      else Inr reg) = Inr reg1"
  proof -
    obtain a1 where a1: "call_non_overlap non1 reg (first_band r1) (max (top (hd r1)) y) (min (bottom (hd r1)) (top (hd r2))) = Inr a1"
      using non non1_writes by blast
    obtain a2 where a2: "call_non_overlap non2 reg (first_band r2) (max (top (hd r2)) y) (min (bottom (hd r2)) (top (hd r1))) = Inr a2"
      using non non2_writes by blast
    show ?thesis
      using that [of a1] that [of a2] that [of reg]
      by (cases "top (hd r1) < top (hd r2)"; cases "top (hd r2) < top (hd r1)")
        (simp_all only: a1 a2 if_True if_False simp_thms)
  qed
  obtain reg2 prev2 where c1: "coalesce_new prev (length (rg_rects reg)) reg1 = (reg2, prev2)" by fastforce
  obtain reg3 where reg3: "(if ?ybot > ?ytop then overlap reg2 (first_band r1) (first_band r2) ?ytop ?ybot else Inr reg2) = Inr reg3"
  proof -
    obtain reg0 where o: "overlap reg2 (first_band r1) (first_band r2) ?ytop ?ybot = Inr reg0"
      using overlap_succeeds [OF assms] by blast
    show ?thesis using that [of reg0] that [of reg2] by (cases "?ybot > ?ytop") (simp_all only: o if_True if_False simp_thms)
  qed
  obtain reg4 prev4 where c2: "coalesce_new prev2 (length (rg_rects reg2)) reg3 = (reg4, prev4)" by fastforce
  show ?thesis unfolding region_op_step_def Let_def reg1 sum.case c1 prod.case reg3 c2 by blast
qed

lemma loop_succeeds:
  assumes "\<And>n. mem n"
  shows "\<exists>x. region_op_loop overlap non1 non2 reg prev y r1 r2 = Inr x"
proof (induction "length r1 + length r2" arbitrary: reg prev y r1 r2 rule: less_induct)
  case less
  show ?case
  proof (cases "r1 \<noteq> [] \<and> r2 \<noteq> []")
    case True
    obtain reg1 prev1 y1 s1 s2 where step: "region_op_step overlap non1 non2 reg prev y r1 r2 = Inr (reg1, prev1, y1, s1, s2)"
      using step_succeeds [OF assms, of reg prev y r1 r2] by (metis prod.exhaust)
    have "length s1 + length s2 < length r1 + length r2" using region_op_step_shorter [OF step] True by blast
    from less [OF this] show ?thesis
      using True step region_op_loop.simps [of overlap non1 non2 reg prev y r1 r2] by simp
  qed (auto simp: region_op_loop.simps [of overlap non1 non2 reg prev y r1 r2])
qed

end

text \<open>The bands that remain of one source are copied, the first one from line \<open>y\<close> on.\<close>

definition clip :: "int \<Rightarrow> rectangle list \<Rightarrow> rectangle list" where
  "clip y rs = map (\<lambda>r. r\<lparr>top := max (top r) y\<rparr>) rs"

lemma clip_append: "clip y (rs @ rs') = clip y rs @ clip y rs'"
  by (simp add: clip_def)

lemma clip_mk_band: "clip y (mk_band t b sp) = mk_band (max t y) b sp"
  by (induction sp) (auto simp: clip_def band_rect_def)

lemma clip_id: "(\<And>r. r \<in> set rs \<Longrightarrow> y \<le> top r) \<Longrightarrow> clip y rs = rs"
  unfolding clip_def by (rule map_idI) (simp add: max_absorb1)

lemma clip_split:
  assumes "src_ok y rs" and "rs \<noteq> []"
  shows "clip y rs = mk_band (max (top (hd rs)) y) (bottom (hd rs)) (spans (first_band rs)) @ after_band rs"
proof -
  have b: "banded rs" "y < bottom (hd rs)" using assms by (simp_all add: src_ok_def)
  note bf = banded_first [OF b(1) assms(2)]
  have "clip y (after_band rs) = after_band rs" using bf(4) b(2) by (intro clip_id) force
  moreover have "clip y (first_band rs) = mk_band (max (top (hd rs)) y) (bottom (hd rs)) (spans (first_band rs))"
    by (subst bf(1)) (rule clip_mk_band)
  ultimately show ?thesis using clip_append [of y "first_band rs" "after_band rs"] band_split [of rs] by simp
qed

lemma tail_appends:
  assumes "region_op_tail f y reg rs = Inr reg'" and "writes_band mem f" and "src_ok y rs"
  shows "rg_rects reg' = rg_rects reg @ clip y rs \<and> rg_extents reg' = rg_extents reg \<and> (size_ok reg \<longrightarrow> size_ok reg')"
  using assms
proof (induction "length rs" arbitrary: reg rs rule: less_induct)
  case less
  show ?case
  proof (cases "rs = []")
    case True
    then show ?thesis using less.prems(1) by (subst (asm) region_op_tail.simps) (simp add: clip_def)
  next
    case False
    then obtain reg1 where f: "f reg (first_band rs) (max (top (hd rs)) y) (bottom (hd rs)) = Inr reg1"
      and t: "region_op_tail f y reg1 (after_band rs) = Inr reg'"
      using less.prems(1) by (subst (asm) region_op_tail.simps) (auto split: sum.splits)
    have b: "banded rs" "y < bottom (hd rs)" using less.prems(3) False by (simp_all add: src_ok_def)
    note bf = banded_first [OF b(1) False]
    have tops: "y \<le> top r" if "r \<in> set (after_band rs)" for r using bf(4) [OF that] b(2) by simp
    have "src_ok y (after_band rs)"
      using bf(5) tops by (cases "after_band rs") (force simp: src_ok_def is_rect_empty_def)+
    then have "rg_rects reg' = rg_rects reg1 @ after_band rs \<and> rg_extents reg' = rg_extents reg1 \<and> (size_ok reg1 \<longrightarrow> size_ok reg')"
      using less.hyps [OF after_band_shorter [OF False] t less.prems(2)] clip_id [OF tops] by simp
    moreover have "appended reg reg1 (max (top (hd rs)) y) (bottom (hd rs)) (spans (first_band rs))"
      using f less.prems(2) by (simp add: writes_band_def)
    ultimately show ?thesis using clip_split [OF less.prems(3) False] by (simp add: appended_def)
  qed
qed

lemma tail_succeeds:
  assumes "\<And>n. mem n" and "writes_band mem f"
  shows "\<exists>reg'. region_op_tail f y reg rs = Inr reg'"
proof (induction "length rs" arbitrary: reg rs rule: less_induct)
  case less
  show ?case
  proof (cases "rs = []")
    case False
    obtain reg1 where "f reg (first_band rs) (max (top (hd rs)) y) (bottom (hd rs)) = Inr reg1"
      using assms unfolding writes_band_def by blast
    then show ?thesis
      using less [OF after_band_shorter [OF False], of reg1] False region_op_tail.simps [of f y reg rs] by simp
  qed (simp add: region_op_tail.simps [of f y reg "[]"])
qed


lemma final_coalesce:
  assumes out: "out_ok reg prev y" and src: "src_ok y rs" "rs \<noteq> []"
    and rects: "rg_rects reg' = rg_rects reg @ clip y rs" "rg_extents reg' = rg_extents reg" and sz: "size_ok reg'"
  obtains L where "rg_rects (fst (coalesce_new prev (length (rg_rects reg)) reg')) = L @ after_band rs"
    and "banded L" and "canonical L" and "\<And>r. r \<in> set L \<Longrightarrow> bottom r \<le> bottom (hd rs)"
    and "\<And>x. row L x = row (rg_rects reg) x \<union>
      (if y \<le> x \<and> x < bottom (hd rs) then row rs x else {})"
    and "size_ok (fst (coalesce_new prev (length (rg_rects reg)) reg'))"
    and "rg_extents (fst (coalesce_new prev (length (rg_rects reg)) reg')) = rg_extents reg"
proof -
  let ?t = "max (top (hd rs)) y" and ?b = "bottom (hd rs)" and ?sp = "spans (first_band rs)"
  have b: "banded rs" "y < ?b" using src by (simp_all add: src_ok_def)
  note bf = banded_first [OF b(1) src(2)]
  obtain A t b' sp where A: "rg_rects reg = A @ mk_band t b' sp" "prev = length A"
    using out unfolding out_ok_def by blast
  have sp: "?sp \<noteq> []" using src(2) by simp
  let ?reg1 = "reg\<lparr>rg_rects := rg_rects reg @ mk_band ?t ?b ?sp, rg_size := rg_size reg + length (mk_band ?t ?b ?sp)\<rparr>"
  have app: "appended reg ?reg1 ?t ?b ?sp" by (simp add: appended_def size_ok_def)
  obtain reg2 prev2 where c: "coalesce_new prev (length (rg_rects reg)) ?reg1 = (reg2, prev2)"
    and out2: "out_ok reg2 prev2 ?b" and row2: "\<And>x. row (rg_rects reg2) x = row (rg_rects ?reg1) x"
    using coalesce_new_ok [OF out app bf(2)] b(2) bf(3) by (metis max_less_iff_conj max.cobounded2 less_imp_le order_refl)
  have full: "rg_rects reg' = A @ mk_band t b' sp @ mk_band ?t ?b ?sp @ after_band rs"
    using rects(1) clip_split [OF src] A(1) by simp
  have short: "rg_rects ?reg1 = A @ mk_band t b' sp @ mk_band ?t ?b ?sp @ []" using A(1) by simp
  have tops: "top r \<noteq> ?t" if "r \<in> set (after_band rs)" for r using bf(4) [OF that] bf(3) b(2) by auto
  have n: "length (rg_rects reg) = length A + length sp" by (simp add: A(1))
  have ne: "length (rg_rects reg') \<noteq> length (rg_rects reg)" "length (rg_rects ?reg1) \<noteq> length (rg_rects reg)"
    using sp by (simp_all add: full n)
  have c1: "coalesce_new prev (length (rg_rects reg)) reg' = coalesce_region reg' (length A) (length A + length sp)"
    using ne(1) by (simp add: coalesce_new_def A(2) n)
  have c2: "coalesce_new prev (length (rg_rects reg)) ?reg1 = coalesce_region ?reg1 (length A) (length A + length sp)"
    using ne(2) by (simp only: coalesce_new_def A(2) n if_True not_False_eq_True)
  have e1: "rg_rects (fst (coalesce_region reg' (length A) (length A + length sp))) =
      (if sp = ?sp \<and> b' = ?t then A @ mk_band t ?b sp @ after_band rs else rg_rects reg')"
    by (subst coalesce_region_band [OF full sp tops]) auto
  have e2: "rg_rects (fst (coalesce_region ?reg1 (length A) (length A + length sp))) =
      (if sp = ?sp \<and> b' = ?t then A @ mk_band t ?b sp else rg_rects ?reg1)"
    by (subst coalesce_region_band [OF short sp]) auto
  have "reg2 = fst (coalesce_region ?reg1 (length A) (length A + length sp))" using c unfolding c2 by (metis fst_conv)
  then have "rg_rects reg2 = (if sp = ?sp \<and> b' = ?t then A @ mk_band t ?b sp else rg_rects ?reg1)" using e2 by (simp only:)
  then have eq: "rg_rects (fst (coalesce_new prev (length (rg_rects reg)) reg')) = rg_rects reg2 @ after_band rs"
    unfolding c1 e1 by (auto simp: full A(1))
  moreover have "row (rg_rects reg2) x = row (rg_rects reg) x \<union> (if y \<le> x \<and> x < ?b then row rs x else {})" for x
    using row2 [of x] row_first(1) [OF b(1) src(2), of x] by auto
  moreover have "size_ok (fst (coalesce_new prev (length (rg_rects reg)) reg'))"
    "rg_extents (fst (coalesce_new prev (length (rg_rects reg)) reg')) = rg_extents reg"
    using sz rects(2) unfolding c1 by (subst coalesce_region_band [OF full sp tops], auto simp: size_ok_def full)+
  ultimately show thesis using that [of "rg_rects reg2"] out2 by (auto simp: out_ok_def)
qed

lemma tail_correct:
  assumes out: "out_ok reg prev y" and src: "src_ok y rs"
    and rects: "rg_rects reg' = rg_rects reg @ clip y rs" "rg_extents reg' = rg_extents reg" and sz: "size_ok reg'"
    and can: "can \<Longrightarrow> \<forall>r \<in> set rs. y < top r \<longrightarrow> row rs (top r - 1) \<noteq> row rs (top r)"
  defines "res \<equiv> fst (coalesce_new prev (length (rg_rects reg)) reg')"
  shows "banded (rg_rects res) \<and> size_ok res \<and> rg_extents res = rg_extents reg \<and>
    (\<forall>x. row (rg_rects res) x = (if x < y then row (rg_rects reg) x else row rs x)) \<and> (can \<longrightarrow> canonical (rg_rects res))"
proof (cases "rs = []")
  case True
  then have "rg_rects reg' = rg_rects reg" using rects by (simp add: clip_def)
  then have "res = reg'" by (simp add: res_def coalesce_new_def)
  then show ?thesis using True out rects sz \<open>rg_rects reg' = rg_rects reg\<close> out_ok_row [OF out] by (auto simp: out_ok_def)
next
  case False
  obtain L where L: "rg_rects res = L @ after_band rs" "banded L" "canonical L" "\<And>r. r \<in> set L \<Longrightarrow> bottom r \<le> bottom (hd rs)"
    and rowL: "\<And>x. row L x = row (rg_rects reg) x \<union> (if y \<le> x \<and> x < bottom (hd rs) then row rs x else {})"
    and rest: "size_ok res" "rg_extents res = rg_extents reg"
    by (rule final_coalesce [OF out src False rects sz, folded res_def]) (rule that)
  have b: "banded rs" "y < bottom (hd rs)" using src False by (simp_all add: src_ok_def)
  note bf = banded_first [OF b(1) False]
  have after: "row (after_band rs) x = {}" if "x < bottom (hd rs)" for x
    using bf(4) that by (intro row_below) force
  have row: "row (rg_rects res) x = (if x < y then row (rg_rects reg) x else row rs x)" for x
    using rowL [of x] after [of x] row_first(2) [OF b(1) False, of x] out_ok_row [OF out, of x] b(2)
    unfolding L(1) by (cases "x < y"; cases "x < bottom (hd rs)") auto
  have band: "banded (rg_rects res)"
    unfolding L(1) banded_append using L(2,4) bf(4,5) by (fastforce simp: before_def)
  have "canonical (rg_rects res)" if can
    unfolding canonical_def
  proof
    fix r assume "r \<in> set (rg_rects res)"
    then consider "r \<in> set L" | "r \<in> set (after_band rs)" unfolding L(1) by auto
    then show "row (rg_rects res) (top r - 1) \<noteq> row (rg_rects res) (top r)"
    proof cases
      case 1
      then have "top r < bottom (hd rs)" using L(2,4) by (force simp: banded_def is_rect_empty_def)
      then show ?thesis using 1 L(3) after unfolding L(1) canonical_def by simp
    next
      case 2
      then have "y < top r" "r \<in> set rs"
        using bf(4) [OF 2] b(2) by (auto simp: after_band_def dest: set_dropWhileD)
      then show ?thesis using assms(6) that by (simp add: row)
    qed
  qed
  then show ?thesis using row band rest by blast
qed

definition region_tail :: "non_overlap_func option \<Rightarrow> non_overlap_func option \<Rightarrow> rectangle list \<Rightarrow> rectangle list \<Rightarrow> rectangle list" where
  "region_tail non1 non2 s1 s2 =
     (if s1 \<noteq> [] then (if non1 = None then [] else s1) else (if non2 = None then [] else s2))"

context band_operation
begin

lemma region_tail_writes:
  assumes call: "(if s1 \<noteq> [] then (case non1 of Some f \<Rightarrow> region_op_tail f y reg s1 | None \<Rightarrow> Inr reg)
      else (case non2 of Some f \<Rightarrow> region_op_tail f y reg s2 | None \<Rightarrow> Inr reg)) = Inr reg'"
    and src: "src_ok y s1" "src_ok y s2" and one: "s1 = [] \<or> s2 = []"
  defines "rs \<equiv> region_tail non1 non2 s1 s2"
  shows "rg_rects reg' = rg_rects reg @ clip y rs \<and> rg_extents reg' = rg_extents reg \<and> (size_ok reg \<longrightarrow> size_ok reg') \<and>
    src_ok y rs \<and> (\<forall>x. row rs x = F (row s1 x) (row s2 x))"
proof -
  have nil: "src_ok y []" "clip y [] = []" by (simp_all add: src_ok_def clip_def)
  show ?thesis
  proof (cases "s1 = []")
    case True
    show ?thesis
    proof (cases non2)
      case None
      then show ?thesis using call True nil F_right by (simp add: rs_def region_tail_def)
    next
      case (Some f)
      then show ?thesis
        using call True src F_right tail_appends [of f y reg s2 reg'] non2_writes [OF Some] by (simp add: rs_def region_tail_def)
    qed
  next
    case False
    then have "s2 = []" using one by simp
    show ?thesis
    proof (cases non1)
      case None
      then show ?thesis using call False nil F_left \<open>s2 = []\<close> by (simp add: rs_def region_tail_def)
    next
      case (Some f)
      then show ?thesis
        using call False \<open>s2 = []\<close> src F_left tail_appends [of f y reg s1 reg'] non1_writes [OF Some]
        by (simp add: rs_def region_tail_def)
    qed
  qed
qed

lemma region_op_correct:
  assumes op: "region_op mem newReg reg1 reg2 overlap non1 non2 = Inr reg"
    and src: "banded (rg_rects reg1)" "banded (rg_rects reg2)" "rg_rects reg1 \<noteq> []" "rg_rects reg2 \<noteq> []"
    and ext: "top (rg_extents reg1) = top (hd (rg_rects reg1))" "top (rg_extents reg2) = top (hd (rg_rects reg2))"
  shows "banded (rg_rects reg) \<and> size_ok reg \<and>
    (\<forall>y. row (rg_rects reg) y = F (row (rg_rects reg1) y) (row (rg_rects reg2) y)) \<and>
    (canonical (rg_rects reg1) \<and> canonical (rg_rects reg2) \<longrightarrow> canonical (rg_rects reg))"
proof -
  let ?r1 = "rg_rects reg1" and ?r2 = "rg_rects reg2"
  define y0 where "y0 = (if top (rg_extents reg1) < top (rg_extents reg2) then top (rg_extents reg1) else top (rg_extents reg2))"
  define new where "new = newReg\<lparr>rg_size := max (length ?r1) (length ?r2) * 2, rg_rects := []\<rparr>"
  have "0 < length ?r1" using src(3) by simp
  then have sz: "size_ok new" by (simp add: size_ok_def new_def Suc_le_eq less_max_iff_disj)
  obtain regL prev y s1 s2 where loop: "region_op_loop overlap non1 non2 new 0 y0 ?r1 ?r2 = Inr (regL, prev, y, s1, s2)"
    using op by (auto simp: region_op_def Let_def y0_def new_def split: sum.splits prod.splits if_splits)
  obtain regT where tail: "(if s1 \<noteq> [] then (case non1 of Some f \<Rightarrow> region_op_tail f y regL s1 | None \<Rightarrow> Inr regL)
      else (case non2 of Some f \<Rightarrow> region_op_tail f y regL s2 | None \<Rightarrow> Inr regL)) = Inr regT"
    and fin: "rg_rects reg = rg_rects (fst (coalesce_new prev (length (rg_rects regL)) regT))"
    "size_ok (fst (coalesce_new prev (length (rg_rects regL)) regT)) \<Longrightarrow> size_ok reg"
  proof (cases "if s1 \<noteq> [] then (case non1 of Some f \<Rightarrow> region_op_tail f y regL s1 | None \<Rightarrow> Inr regL)
      else (case non2 of Some f \<Rightarrow> region_op_tail f y regL s2 | None \<Rightarrow> Inr regL)")
    case (Inl e)
    then show ?thesis
      using op unfolding region_op_def Let_def y0_def [symmetric] new_def [symmetric] loop sum.case prod.case Inl
      by (simp split: if_splits)
  next
    case (Inr regT)
    show ?thesis
      by (rule that [OF Inr])
        (use op in \<open>unfold region_op_def Let_def y0_def [symmetric] new_def [symmetric] loop sum.case prod.case Inr,
           auto simp: size_ok_def split: if_splits\<close>)
  qed
  have low: "y0 \<le> top (hd ?r1)" "y0 \<le> top (hd ?r2)" using ext by (auto simp: y0_def)
  have "src_ok y0 ?r1" "src_ok y0 ?r2" "fresh y0 ?r1 ?r2" "out_ok new 0 y0"
    using banded_first(3) [OF src(1,3)] banded_first(3) [OF src(2,4)] src low
    by (auto simp: src_ok_def fresh_def out_ok_def new_def canonical_def intro: exI [of _ 0] exI [of _ 1])
  then have p: "progress new y0 ?r1 ?r2 regL prev y s1 s2" and one: "s1 = [] \<or> s2 = []"
    using loop_progress [OF loop] by blast+
  have pd: "out_ok regL prev y" "y0 \<le> y" "size_ok regL" "src_ok y s1" "src_ok y s2" "set s1 \<subseteq> set ?r1" "set s2 \<subseteq> set ?r2"
    and rowL: "\<And>x. row (rg_rects regL) x = (if x < y0 then row (rg_rects new) x else if x < y then F (row ?r1 x) (row ?r2 x) else {})"
    and rest: "\<And>x. y \<le> x \<Longrightarrow> row s1 x = row ?r1 x \<and> row s2 x = row ?r2 x"
    using p sz unfolding progress_def by blast+
  define rs where "rs = region_tail non1 non2 s1 s2"
  have t: "rg_rects regT = rg_rects regL @ clip y rs" "rg_extents regT = rg_extents regL" "size_ok regT" "src_ok y rs"
    "\<And>x. row rs x = F (row s1 x) (row s2 x)"
    using region_tail_writes [OF tail pd(4,5) one] pd(3) unfolding rs_def by blast+
  have can: "\<forall>r \<in> set rs. y < top r \<longrightarrow> row rs (top r - 1) \<noteq> row rs (top r)" if "canonical ?r1 \<and> canonical ?r2"
  proof (intro ballI impI)
    fix r assume r: "r \<in> set rs" "y < top r"
    have "rs = s1 \<or> rs = s2" using r(1) by (auto simp: rs_def region_tail_def split: if_splits)
    then show "row rs (top r - 1) \<noteq> row rs (top r)"
      using that r rest [of "top r - 1"] rest [of "top r"] pd(6,7) by (force simp: canonical_def)
  qed
  note tc = tail_correct [OF pd(1) t(4,1,2,3) can]
  have "row (rg_rects reg) x = F (row ?r1 x) (row ?r2 x)" for x
  proof -
    have "row ?r1 x = {}" "row ?r2 x = {}" if "x < y0"
      using that low row_first(1) [OF src(1,3), of x] row_first(1) [OF src(2,4), of x]
        banded_first(3) [OF src(1,3)] banded_first(3) [OF src(2,4)] by simp_all
    then show ?thesis using tc fin(1) rowL [of x] t(5) [of x] rest [of x] F_empty pd(2) by (auto simp: new_def)
  qed
  moreover have "banded (rg_rects reg)" "size_ok reg"
    "canonical ?r1 \<and> canonical ?r2 \<Longrightarrow> canonical (rg_rects reg)"
    using tc fin by (simp_all only: simp_thms)
  ultimately show ?thesis by simp
qed

end


context band_operation
begin

lemma region_op_succeeds:
  assumes "\<And>n. mem n"
  shows "\<exists>reg. region_op mem newReg reg1 reg2 overlap non1 non2 = Inr reg"
proof -
  define y0 where "y0 = (if top (rg_extents reg1) < top (rg_extents reg2) then top (rg_extents reg1) else top (rg_extents reg2))"
  define new where "new = newReg\<lparr>rg_size := max (length (rg_rects reg1)) (length (rg_rects reg2)) * 2, rg_rects := []\<rparr>"
  obtain regL prev y s1 s2 where loop: "region_op_loop overlap non1 non2 new 0 y0 (rg_rects reg1) (rg_rects reg2) = Inr (regL, prev, y, s1, s2)"
    using loop_succeeds [OF assms, of new 0 y0 "rg_rects reg1" "rg_rects reg2"] by (metis prod.exhaust)
  have t: "\<exists>reg'. (case f of Some g \<Rightarrow> region_op_tail g y regL s | None \<Rightarrow> Inr regL) = Inr reg'"
    if "\<And>g. f = Some g \<Longrightarrow> writes_band mem g" for f s
    using tail_succeeds [OF assms] that by (cases f) auto
  obtain regT where tail: "(if s1 \<noteq> [] then (case non1 of Some f \<Rightarrow> region_op_tail f y regL s1 | None \<Rightarrow> Inr regL)
      else (case non2 of Some f \<Rightarrow> region_op_tail f y regL s2 | None \<Rightarrow> Inr regL)) = Inr regT"
    using t [of non1 s1] t [of non2 s2] non1_writes non2_writes by (cases "s1 \<noteq> []") auto
  show ?thesis
    unfolding region_op_def Let_def y0_def [symmetric] new_def [symmetric] loop sum.case prod.case tail
    using assms by simp
qed

end

section \<open>The three operations\<close>

lemma subtract_non_overlapping_writes:
  "subtract_non_overlapping mem reg rs t b = Inr reg' \<Longrightarrow> appended reg reg' t b (spans rs)"
proof (induction rs arbitrary: reg)
  case (Cons r rs)
  then obtain reg1 where "add_rect mem reg (band_rect (left r) t (right r) b) = Inr reg1"
    "subtract_non_overlapping mem reg1 rs t b = Inr reg'" by (auto split: sum.splits)
  then show ?case using Cons.IH appended_Cons [OF add_rect_appended] by simp
qed simp

lemma mem_always: "(\<And>n. mem n) \<Longrightarrow> mem = (\<lambda>_. True)"
  by auto

lemma add_rect_always: "\<exists>reg'. add_rect (\<lambda>_. True) reg r = Inr reg'"
  by (rule add_rect_succeeds) simp

lemma subtract_non_overlapping_always: "\<exists>reg'. subtract_non_overlapping (\<lambda>_. True) reg rs t b = Inr reg'"
proof (induction rs arbitrary: reg)
  case (Cons r rs)
  then show ?case using add_rect_always [of reg "band_rect (left r) t (right r) b"] by auto
qed simp

lemma union_non_overlapping_same: "union_non_overlapping mem reg rs t b = subtract_non_overlapping mem reg rs t b"
  by (induction rs arbitrary: reg) (auto split: sum.splits)

lemma subtract_non_overlapping_band: "writes_band mem (subtract_non_overlapping mem)"
proof -
  have "\<exists>reg'. subtract_non_overlapping mem reg rs t b = Inr reg'" if "\<forall>n. mem n" for reg rs t b
    using subtract_non_overlapping_always [of reg rs t b] mem_always [of mem] that by simp
  then show ?thesis unfolding writes_band_def using subtract_non_overlapping_writes by blast
qed

lemma union_non_overlapping_band: "writes_band mem (union_non_overlapping mem)"
  using subtract_non_overlapping_band [of mem] unfolding writes_band_def union_non_overlapping_same .

lemma intersect_overlapping_always: "mem = (\<lambda>_. True) \<Longrightarrow> \<exists>reg'. intersect_overlapping mem reg r1 r2 t b = Inr reg'"
proof (induction mem reg r1 r2 t b rule: intersect_overlapping.induct)
  case (1 mem reg r1 rs1 r2 rs2 t b)
  let ?l = "max (left r1) (left r2)" and ?r = "min (right r1) (right r2)"
  obtain reg1 where reg1: "(if ?l < ?r then add_rect mem reg (band_rect ?l t ?r b) else Inr reg) = Inr reg1"
    using add_rect_always [of reg "band_rect ?l t ?r b"] 1(4) by (cases "?l < ?r") auto
  show ?case
    using 1(1) [OF refl refl reg1 _ 1(4)] 1(2) [OF refl refl reg1 _ _ 1(4)] 1(3) [OF refl refl reg1 _ _ 1(4)]
    unfolding intersect_overlapping.simps(1) Let_def reg1 sum.case by (auto split: if_split)
qed auto

lemma subtract_loop_always: "mem = (\<lambda>_. True) \<Longrightarrow> \<exists>reg'. subtract_loop mem reg l r1 r2 t b = Inr reg'"
proof (induction mem reg l r1 r2 t b rule: subtract_loop.induct)
  case (1 mem reg l r1 rs1 r2 rs2 t b)
  obtain reg1 where a1: "add_rect (\<lambda>_. True) reg (band_rect l t (left r2) b) = Inr reg1" using add_rect_always by blast
  obtain reg2 where a2: "add_rect (\<lambda>_. True) reg (band_rect l t (right r1) b) = Inr reg2" using add_rect_always by blast
  show ?case using 1 a1 a2 by simp
next
  case (2 mem reg l r1 rs1 t b)
  obtain reg2 where a2: "add_rect (\<lambda>_. True) reg (band_rect l t (right r1) b) = Inr reg2" using add_rect_always by blast
  show ?case using 2 a2 by simp
qed auto

lemma MERGERECT_always: "\<exists>reg'. MERGERECT (\<lambda>_. True) reg r t b = Inr reg'"
  using add_rect_always by (simp add: MERGERECT_def Let_def)

lemma union_overlapping_always: "mem = (\<lambda>_. True) \<Longrightarrow> \<exists>reg'. union_overlapping mem reg r1 r2 t b = Inr reg'"
proof (induction mem reg r1 r2 t b rule: union_overlapping.induct)
  case (1 mem reg r1 rs1 r2 rs2 t b)
  obtain reg1 where a1: "MERGERECT (\<lambda>_. True) reg r1 t b = Inr reg1" using MERGERECT_always by blast
  obtain reg2 where a2: "MERGERECT (\<lambda>_. True) reg r2 t b = Inr reg2" using MERGERECT_always by blast
  show ?case using 1 a1 a2 by simp
next
  case (2 mem reg r1 rs1 t b)
  obtain reg1 where "MERGERECT (\<lambda>_. True) reg r1 t b = Inr reg1" using MERGERECT_always by blast
  then show ?case using 2 by simp
next
  case (3 mem reg r2 rs2 t b)
  obtain reg1 where "MERGERECT (\<lambda>_. True) reg r2 t b = Inr reg1" using MERGERECT_always by blast
  then show ?case using 3 by simp
qed auto

lemmas overlapping_succeeds =
  intersect_overlapping_always [OF mem_always] subtract_loop_always [OF mem_always] union_overlapping_always [OF mem_always]

interpretation isect_op: band_operation mem "intersect_overlapping mem" None None "(\<inter>)" for mem
proof
  fix reg r1 r2 t b reg'
  assume "intersect_overlapping mem reg r1 r2 t b = Inr reg'" "spans_ok (spans r1)" "spans_ok (spans r2)"
  then show "\<exists>sp. appended reg reg' t b sp \<and> spans_ok sp \<and> xset sp = xset (spans r1) \<inter> xset (spans r2)"
    using intersect_overlapping_appended isect_correct by blast
qed (simp_all add: overlapping_succeeds)

interpretation sub_op: band_operation mem "subtract_overlapping mem" "Some (subtract_non_overlapping mem)" None "(-)" for mem
proof
  fix reg r1 r2 t b reg'
  assume a: "subtract_overlapping mem reg r1 r2 t b = Inr reg'" "r1 \<noteq> []" "spans_ok (spans r1)" "spans_ok (spans r2)"
  then have "sub_ok (left (hd r1)) (spans r1) (spans r2) (sub (left (hd r1)) (spans r1) (spans r2))"
    by (intro sub_correct) (cases r1; simp)+
  moreover have "x \<in> xset (spans r1) \<Longrightarrow> left (hd r1) \<le> x" for x
    using next_fst_le [OF a(3), of x 0] a(2) by (simp add: next_left_def)
  ultimately have "spans_ok (sub (left (hd r1)) (spans r1) (spans r2))"
    "xset (sub (left (hd r1)) (spans r1) (spans r2)) = xset (spans r1) - xset (spans r2)"
    by (auto simp: sub_ok_def)
  then show "\<exists>sp. appended reg reg' t b sp \<and> spans_ok sp \<and> xset sp = xset (spans r1) - xset (spans r2)"
    using subtract_loop_appended a(1) unfolding subtract_overlapping_def by blast
qed (auto simp: subtract_overlapping_def overlapping_succeeds subtract_non_overlapping_band)

interpretation union_op: band_operation mem "union_overlapping mem" "Some (union_non_overlapping mem)"
  "Some (union_non_overlapping mem)" "(\<union>)" for mem
proof
  fix reg r1 r2 t b reg'
  assume a: "union_overlapping mem reg r1 r2 t b = Inr reg'" "spans_ok (spans r1)" "spans_ok (spans r2)" "t < b"
    "\<And>r. r \<in> set (rg_rects reg) \<Longrightarrow> bottom r \<le> t"
  let ?l = "by_left (spans r1) (spans r2)"
  have l: "set ?l = set (spans r1) \<union> set (spans r2)" "sorted_wrt (\<lambda>p q. fst p \<le> fst q) ?l"
    using by_left_props [OF a(2,3)] by blast+
  have "xset ?l = xset (spans r1) \<union> xset (spans r2)" using l(1) by (auto simp: xset_def)
  moreover have "\<forall>p \<in> set ?l. fst p < snd p" using l(1) a(2,3) by (auto simp: spans_ok_def)
  ultimately have "spans_ok (foldl umerge [] ?l)" "xset (foldl umerge [] ?l) = xset (spans r1) \<union> xset (spans r2)"
    using umerge_fold [of "[]" ?l] l(2) by simp_all
  then show "\<exists>sp. appended reg reg' t b sp \<and> spans_ok sp \<and> xset sp = xset (spans r1) \<union> xset (spans r2)"
    using union_overlapping_appended [OF a(1) appended_refl a(5,4)] by blast
qed (auto simp: overlapping_succeeds union_non_overlapping_band)


section \<open>Regions as sets of pixels\<close>

definition pixels :: "region \<Rightarrow> (int \<times> int) set" where
  "pixels reg = {(x, y). x \<in> row (rg_rects reg) y}"

definition extents_ok :: "rectangle \<Rightarrow> rectangle list \<Rightarrow> bool" where
  "extents_ok e rs \<longleftrightarrow>
     (if rs = [] then e = empty_rect
      else (\<forall>y. \<forall>x \<in> row rs y. left e \<le> x \<and> x < right e \<and> top e \<le> y \<and> y < bottom e) \<and>
        (\<exists>y. left e \<in> row rs y) \<and> (\<exists>y. right e - 1 \<in> row rs y) \<and>
        row rs (top e) \<noteq> {} \<and> row rs (bottom e - 1) \<noteq> {})"

definition region_ok :: "region \<Rightarrow> bool" where
  "region_ok reg \<longleftrightarrow> size_ok reg \<and> banded (rg_rects reg) \<and> extents_ok (rg_extents reg) (rg_rects reg)"

lemma rowI: "r \<in> set rs \<Longrightarrow> left r \<le> x \<Longrightarrow> x < right r \<Longrightarrow> top r \<le> y \<Longrightarrow> y < bottom r \<Longrightarrow> x \<in> row rs y"
  by (auto simp: row_def point_in_rect_def)

lemma row_nonempty: "banded rs \<Longrightarrow> r \<in> set rs \<Longrightarrow> left r \<in> row rs (top r)"
  by (rule rowI [of r]) (auto simp: banded_def is_rect_empty_def)

lemma extents_top:
  assumes "banded rs" and "rs \<noteq> []" and "extents_ok e rs"
  shows "top e = top (hd rs)"
proof -
  have "left (hd rs) \<in> row rs (top (hd rs))" using row_nonempty assms(1,2) by simp
  then have "top e \<le> top (hd rs)" using assms(2,3) unfolding extents_ok_def by (simp split: if_splits)
  moreover have "\<not> top e < top (hd rs)"
  proof
    assume "top e < top (hd rs)"
    then have "row rs (top e) = {}"
      using row_first(1) [OF assms(1,2), of "top e"] banded_first(3) [OF assms(1,2)] by simp
    then show False using assms(2,3) by (simp add: extents_ok_def)
  qed
  ultimately show ?thesis by simp
qed

lemma extents_single:
  assumes "\<not> is_rect_empty r" and "extents_ok e [r]"
  shows "left e = left r \<and> top e = top r \<and> right e = right r \<and> bottom e = bottom r"
proof -
  have ne: "left r < right r" "top r < bottom r" using assms(1) by (simp_all add: is_rect_empty_def)
  have all: "left e \<le> x \<and> x < right e \<and> top e \<le> y \<and> y < bottom e"
    if "left r \<le> x" "x < right r" "top r \<le> y" "y < bottom r" for x y
    using assms(2) that by (auto simp: extents_ok_def point_in_rect_def)
  have "left r \<le> left e" "right e - 1 < right r" "top r \<le> top e" "bottom e - 1 < bottom r"
    using assms(2) by (auto simp: extents_ok_def point_in_rect_def)
  then show ?thesis using all [of "left r" "top r"] all [of "right r - 1" "bottom r - 1"] ne by linarith
qed

lemma row_single: "row [r] y = (if top r \<le> y \<and> y < bottom r then {left r ..< right r} else {})"
  by (auto simp: point_in_rect_def)

text \<open>The extents that \<^verbatim>\<open>set_region_extents\<close> computes.\<close>

definition widen :: "rectangle \<Rightarrow> rectangle \<Rightarrow> rectangle" where
  "widen p ext = (let ext1 = (if left p < left ext then ext\<lparr>left := left p\<rparr> else ext)
     in if right p > right ext1 then ext1\<lparr>right := right p\<rparr> else ext1)"

lemma widen_fold:
  "left (fold widen ps e) \<le> left e \<and> (\<forall>p \<in> set ps. left (fold widen ps e) \<le> left p) \<and>
   (left (fold widen ps e) = left e \<or> (\<exists>p \<in> set ps. left (fold widen ps e) = left p)) \<and>
   right e \<le> right (fold widen ps e) \<and> (\<forall>p \<in> set ps. right p \<le> right (fold widen ps e)) \<and>
   (right (fold widen ps e) = right e \<or> (\<exists>p \<in> set ps. right (fold widen ps e) = right p)) \<and>
   top (fold widen ps e) = top e \<and> bottom (fold widen ps e) = bottom e"
proof (induction ps arbitrary: e)
  case (Cons p ps)
  have w: "left (widen p e) = min (left p) (left e)" "right (widen p e) = max (right p) (right e)"
    "top (widen p e) = top e" "bottom (widen p e) = bottom e"
    by (simp_all add: widen_def Let_def)
  show ?case using Cons [of "widen p e"] w by (auto simp: min_def max_def split: if_splits)
qed simp

lemma last_band:
  assumes "banded rs" and "r \<in> set rs"
  shows "bottom r \<le> bottom (last rs)"
proof -
  obtain rs' l where rs: "rs = rs' @ [l]" using assms(2) by (cases rs rule: rev_cases) auto
  then have "r = l \<or> before r l" "\<not> is_rect_empty l" using assms by (auto simp: banded_append)
  then show ?thesis using rs by (auto simp: before_def is_rect_empty_def)
qed

lemma set_region_extents_ok:
  assumes "banded (rg_rects reg)"
  shows "extents_ok (rg_extents (set_region_extents reg)) (rg_rects reg)"
    and "rg_rects (set_region_extents reg) = rg_rects reg" and "rg_size (set_region_extents reg) = rg_size reg"
proof -
  show "rg_rects (set_region_extents reg) = rg_rects reg" "rg_size (set_region_extents reg) = rg_size reg"
    by (simp_all add: set_region_extents_def Let_def split: list.splits)
  show "extents_ok (rg_extents (set_region_extents reg)) (rg_rects reg)"
  proof (cases "rg_rects reg")
    case Nil
    then show ?thesis by (simp add: set_region_extents_def extents_ok_def empty_rect_def)
  next
    case (Cons r rs)
    let ?R = "rg_rects reg"
    define e0 where "e0 = \<lparr>left = left r, top = top r, right = right (last ?R), bottom = bottom (last ?R)\<rparr>"
    define e where "e = fold widen ?R e0"
    have ext: "rg_extents (set_region_extents reg) = e"
      by (simp add: set_region_extents_def Cons e_def e0_def widen_def [abs_def] Let_def)
    have in_R: "r \<in> set ?R" "last ?R \<in> set ?R" using Cons by auto
    note w = widen_fold [where ps = ?R and e = e0, folded e_def]
    have lr: "p \<in> set ?R \<Longrightarrow> left e \<le> left p \<and> right p \<le> right e" for p using w by blast
    have tb: "p \<in> set ?R \<Longrightarrow> top e \<le> top p \<and> bottom p \<le> bottom e" for p
      using w last_band [OF assms] assms Cons by (auto simp: e0_def before_def is_rect_empty_def)
    obtain pl pr where pl: "pl \<in> set ?R" "left pl = left e" and pr: "pr \<in> set ?R" "right pr = right e"
      using w in_R by (metis (no_types, lifting) e0_def rectangle.select_convs(1,3))
    have ne: "p \<in> set ?R \<Longrightarrow> left p < right p \<and> top p < bottom p" for p
      using assms by (auto simp: banded_def is_rect_empty_def)
    have "left e \<in> row ?R (top pl)" using pl ne [OF pl(1)] by (intro rowI [of pl]) auto
    moreover have "right e - 1 \<in> row ?R (top pr)" using pr ne [OF pr(1)] by (intro rowI [of pr]) auto
    moreover have "left r \<in> row ?R (top e)"
      using in_R(1) ne [OF in_R(1)] w by (intro rowI [of r]) (auto simp: e0_def)
    moreover have "left (last ?R) \<in> row ?R (bottom e - 1)"
      using in_R(2) ne [OF in_R(2)] w by (intro rowI [of "last ?R"]) (auto simp: e0_def)
    moreover have "left e \<le> x \<and> x < right e \<and> top e \<le> y \<and> y < bottom e" if "x \<in> row ?R y" for x y
      using that lr tb by (force simp: row_def point_in_rect_def)
    ultimately show ?thesis unfolding ext extents_ok_def using Cons by auto
  qed
qed


definition computes :: "(nat \<Rightarrow> bool) \<Rightarrow> heap \<Rightarrow> rgn \<Rightarrow> ntstatus \<times> heap \<Rightarrow> (int \<times> int) set \<Rightarrow> bool \<Rightarrow> bool" where
  "computes mem h dst res P c \<longleftrightarrow>
     ((\<forall>n. mem n) \<longrightarrow> fst res = STATUS_SUCCESS) \<and> (\<forall>p. p \<noteq> dst \<longrightarrow> snd res p = h p) \<and>
     (fst res = STATUS_SUCCESS \<longrightarrow> region_ok (snd res dst) \<and> pixels (snd res dst) = P \<and>
        (c \<longrightarrow> canonical (rg_rects (snd res dst))))"

lemma computes_copy:
  assumes "region_ok (h src)" and "size_ok (h dst)"
  shows "computes mem h dst (copy_region mem h dst src) (pixels (h src)) (canonical (rg_rects (h src)))"
  using assms by (auto simp: computes_def copy_region_def Let_def region_ok_def size_ok_def pixels_def)

lemma pixels_eq: "pixels reg = P \<longleftrightarrow> (\<forall>y. row (rg_rects reg) y = {x. (x, y) \<in> P})"
  by (auto simp: pixels_def)

lemma EXTENTCHECK_disjoint:
  assumes "region_ok reg1" and "region_ok reg2" and "\<not> EXTENTCHECK (rg_extents reg1) (rg_extents reg2)"
  shows "pixels reg1 \<inter> pixels reg2 = {}"
proof (rule ccontr)
  assume "pixels reg1 \<inter> pixels reg2 \<noteq> {}"
  then obtain x y where "x \<in> row (rg_rects reg1) y" "x \<in> row (rg_rects reg2) y" by (auto simp: pixels_def)
  moreover from this have "rg_rects reg1 \<noteq> []" "rg_rects reg2 \<noteq> []" by auto
  ultimately show False using assms unfolding region_ok_def extents_ok_def EXTENTCHECK_def by fastforce
qed

lemma pixels_Nil: "rg_rects reg = [] \<Longrightarrow> pixels reg = {}"
  by (simp add: pixels_def)

lemma region_ok_source:
  assumes "region_ok reg" and "rg_rects reg \<noteq> []"
  shows "banded (rg_rects reg)" and "top (rg_extents reg) = top (hd (rg_rects reg))"
  using assms extents_top [of "rg_rects reg" "rg_extents reg"] by (simp_all add: region_ok_def)

lemma region_ok_extents: "banded (rg_rects reg) \<Longrightarrow> size_ok reg \<Longrightarrow> region_ok (set_region_extents reg)"
  using set_region_extents_ok [of reg] by (simp add: region_ok_def size_ok_def)

lemma intersect_region_computes:
  assumes ok: "region_ok (h src1)" "region_ok (h src2)" and sz: "size_ok (h dst)"
  shows "computes mem h dst (intersect_region mem h dst src1 src2) (pixels (h src1) \<inter> pixels (h src2))
    (canonical (rg_rects (h src1)) \<and> canonical (rg_rects (h src2)))"
proof (cases "rg_rects (h src1) = [] \<or> rg_rects (h src2) = [] \<or> \<not> EXTENTCHECK (rg_extents (h src1)) (rg_extents (h src2))")
  case True
  then have "pixels (h src1) \<inter> pixels (h src2) = {}"
    using EXTENTCHECK_disjoint [OF ok] pixels_Nil by blast
  then show ?thesis
    using True sz by (simp add: computes_def intersect_region_def region_ok_def extents_ok_def size_ok_def pixels_def
        empty_rect_def canonical_def)
next
  case False
  note src = region_ok_source [OF ok(1)] region_ok_source [OF ok(2)]
  show ?thesis
  proof (cases "region_op mem (h dst) (h src1) (h src2) (intersect_overlapping mem) None None")
    case (Inl reg)
    then have "\<not> (\<forall>n. mem n)" using isect_op.region_op_succeeds [of mem "h dst" "h src1" "h src2"] by auto
    then show ?thesis using Inl False by (simp add: computes_def intersect_region_def)
  next
    case (Inr reg)
    then have "banded (rg_rects reg) \<and> size_ok reg \<and>
        (\<forall>y. row (rg_rects reg) y = row (rg_rects (h src1)) y \<inter> row (rg_rects (h src2)) y) \<and>
        (canonical (rg_rects (h src1)) \<and> canonical (rg_rects (h src2)) \<longrightarrow> canonical (rg_rects reg))"
      using isect_op.region_op_correct [OF Inr] src False by blast
    then show ?thesis
      using Inr False region_ok_extents [of reg] set_region_extents_ok(2) [of reg]
      by (auto simp: computes_def intersect_region_def pixels_def)
  qed
qed

lemma subtract_region_computes:
  assumes ok: "region_ok (h src1)" "region_ok (h src2)" and sz: "size_ok (h dst)"
  shows "computes mem h dst (subtract_region mem h dst src1 src2) (pixels (h src1) - pixels (h src2))
    (canonical (rg_rects (h src1)) \<and> canonical (rg_rects (h src2)))"
proof (cases "rg_rects (h src1) = [] \<or> rg_rects (h src2) = [] \<or> \<not> EXTENTCHECK (rg_extents (h src1)) (rg_extents (h src2))")
  case True
  then have "pixels (h src1) - pixels (h src2) = pixels (h src1)"
    using EXTENTCHECK_disjoint [OF ok] pixels_Nil by blast
  then show ?thesis using True computes_copy [OF ok(1) sz, of mem] by (auto simp: computes_def subtract_region_def)
next
  case False
  note src = region_ok_source [OF ok(1)] region_ok_source [OF ok(2)]
  show ?thesis
  proof (cases "region_op mem (h dst) (h src1) (h src2) (subtract_overlapping mem) (Some (subtract_non_overlapping mem)) None")
    case (Inl reg)
    then have "\<not> (\<forall>n. mem n)" using sub_op.region_op_succeeds [of mem "h dst" "h src1" "h src2"] by auto
    then show ?thesis using Inl False by (simp add: computes_def subtract_region_def)
  next
    case (Inr reg)
    then have "banded (rg_rects reg) \<and> size_ok reg \<and>
        (\<forall>y. row (rg_rects reg) y = row (rg_rects (h src1)) y - row (rg_rects (h src2)) y) \<and>
        (canonical (rg_rects (h src1)) \<and> canonical (rg_rects (h src2)) \<longrightarrow> canonical (rg_rects reg))"
      using sub_op.region_op_correct [OF Inr] src False by blast
    then show ?thesis
      using Inr False region_ok_extents [of reg] set_region_extents_ok(2) [of reg]
      by (auto simp: computes_def subtract_region_def pixels_def)
  qed
qed

lemma covers_pixels:
  assumes "region_ok reg1" and "region_ok reg2" and "covers reg1 reg2"
  shows "pixels reg2 \<subseteq> pixels reg1"
proof -
  obtain r where r: "rg_rects reg1 = [r]" using assms(3) by (auto simp: covers_def length_Suc_conv)
  have e: "left (rg_extents reg1) = left r \<and> top (rg_extents reg1) = top r \<and>
      right (rg_extents reg1) = right r \<and> bottom (rg_extents reg1) = bottom r"
    using assms(1) r extents_single [of r] by (simp add: region_ok_def)
  show ?thesis
  proof
    fix p assume "p \<in> pixels reg2"
    then obtain x y where p: "p = (x, y)" "x \<in> row (rg_rects reg2) y" by (auto simp: pixels_def)
    then have "rg_rects reg2 \<noteq> []" by auto
    then have "left (rg_extents reg2) \<le> x \<and> x < right (rg_extents reg2) \<and> top (rg_extents reg2) \<le> y \<and> y < bottom (rg_extents reg2)"
      using assms(2) p(2) by (simp add: region_ok_def extents_ok_def)
    then show "p \<in> pixels reg1" using assms(3) e p(1) by (auto simp: pixels_def r row_single covers_def simp del: row_simps)
  qed
qed

lemma extents_ok_union:
  assumes "extents_ok e1 rs1" and "extents_ok e2 rs2" and "rs1 \<noteq> []" and "rs2 \<noteq> []"
    and row: "\<And>y. row rs y = row rs1 y \<union> row rs2 y"
  shows "extents_ok \<lparr>left = min (left e1) (left e2), top = min (top e1) (top e2),
    right = max (right e1) (right e2), bottom = max (bottom e1) (bottom e2)\<rparr> rs"
proof -
  have a1: "x \<in> row rs1 y \<Longrightarrow> left e1 \<le> x \<and> x < right e1 \<and> top e1 \<le> y \<and> y < bottom e1" for x y
    using assms(1,3) by (simp add: extents_ok_def)
  have a2: "x \<in> row rs2 y \<Longrightarrow> left e2 \<le> x \<and> x < right e2 \<and> top e2 \<le> y \<and> y < bottom e2" for x y
    using assms(2,4) by (simp add: extents_ok_def)
  have b1: "\<exists>y. left e1 \<in> row rs1 y" "\<exists>y. right e1 - 1 \<in> row rs1 y" "row rs1 (top e1) \<noteq> {}" "row rs1 (bottom e1 - 1) \<noteq> {}"
    using assms(1,3) by (simp_all add: extents_ok_def)
  have b2: "\<exists>y. left e2 \<in> row rs2 y" "\<exists>y. right e2 - 1 \<in> row rs2 y" "row rs2 (top e2) \<noteq> {}" "row rs2 (bottom e2 - 1) \<noteq> {}"
    using assms(2,4) by (simp_all add: extents_ok_def)
  have "rs \<noteq> []" using b1(3) row [of "top e1"] by auto
  moreover have "\<exists>y. min (left e1) (left e2) \<in> row rs y" using b1(1) b2(1) by (auto simp: row min_def)
  moreover have "\<exists>y. max (right e1) (right e2) - 1 \<in> row rs y" using b1(2) b2(2) by (auto simp: row max_def)
  moreover have "row rs (min (top e1) (top e2)) \<noteq> {}" using b1(3) b2(3) by (auto simp: row min_def)
  moreover have "row rs (max (bottom e1) (bottom e2) - 1) \<noteq> {}" using b1(4) b2(4) by (auto simp: row max_def)
  moreover have "min (left e1) (left e2) \<le> x \<and> x < max (right e1) (right e2) \<and>
      min (top e1) (top e2) \<le> y \<and> y < max (bottom e1) (bottom e2)" if "x \<in> row rs y" for x y
    using that a1 [of x y] a2 [of x y] unfolding row by auto
  ultimately show ?thesis unfolding extents_ok_def by simp
qed

lemma union_region_computes:
  assumes ok: "region_ok (h src1)" "region_ok (h src2)" and sz: "size_ok (h dst)"
  shows "computes mem h dst (union_region mem h dst src1 src2) (pixels (h src1) \<union> pixels (h src2))
    (canonical (rg_rects (h src1)) \<and> canonical (rg_rects (h src2)))"
proof -
  have copy1: "computes mem h dst (copy_region mem h dst src1) (pixels (h src1) \<union> pixels (h src2))
      (canonical (rg_rects (h src1)) \<and> canonical (rg_rects (h src2)))" if "pixels (h src2) \<subseteq> pixels (h src1)"
    using computes_copy [OF ok(1) sz, of mem] Un_absorb2 [OF that] by (auto simp: computes_def)
  have copy2: "computes mem h dst (copy_region mem h dst src2) (pixels (h src1) \<union> pixels (h src2))
      (canonical (rg_rects (h src1)) \<and> canonical (rg_rects (h src2)))" if "pixels (h src1) \<subseteq> pixels (h src2)"
    using computes_copy [OF ok(2) sz, of mem] Un_absorb1 [OF that] by (auto simp: computes_def)
  consider (same) "src1 = src2" | (nil1) "src1 \<noteq> src2" "rg_rects (h src1) = []"
    | (nil2) "src1 \<noteq> src2" "rg_rects (h src1) \<noteq> []" "rg_rects (h src2) = []"
    | (cov1) "src1 \<noteq> src2" "rg_rects (h src1) \<noteq> []" "rg_rects (h src2) \<noteq> []" "covers (h src1) (h src2)"
    | (cov2) "src1 \<noteq> src2" "rg_rects (h src1) \<noteq> []" "rg_rects (h src2) \<noteq> []" "\<not> covers (h src1) (h src2)" "covers (h src2) (h src1)"
    | (op) "src1 \<noteq> src2" "rg_rects (h src1) \<noteq> []" "rg_rects (h src2) \<noteq> []" "\<not> covers (h src1) (h src2)" "\<not> covers (h src2) (h src1)"
    by blast
  then show ?thesis
  proof cases
    case same
    then show ?thesis using copy1 by (simp add: union_region_def)
  next
    case nil1
    then show ?thesis using copy2 pixels_Nil by (simp add: union_region_def)
  next
    case nil2
    then show ?thesis using copy1 pixels_Nil by (simp add: union_region_def)
  next
    case cov1
    then show ?thesis using copy1 covers_pixels ok by (simp add: union_region_def)
  next
    case cov2
    then show ?thesis using copy2 covers_pixels ok by (simp add: union_region_def)
  next
    case op
    note src = region_ok_source [OF ok(1) op(2)] region_ok_source [OF ok(2) op(3)]
    show ?thesis
    proof (cases "region_op mem (h dst) (h src1) (h src2) (union_overlapping mem)
        (Some (union_non_overlapping mem)) (Some (union_non_overlapping mem))")
      case (Inl reg)
      then have "\<not> (\<forall>n. mem n)" using union_op.region_op_succeeds [of mem "h dst" "h src1" "h src2"] by auto
      then show ?thesis using Inl op by (simp add: computes_def union_region_def)
    next
      case (Inr reg)
      have c: "banded (rg_rects reg) \<and> size_ok reg \<and>
          (\<forall>y. row (rg_rects reg) y = row (rg_rects (h src1)) y \<union> row (rg_rects (h src2)) y) \<and>
          (canonical (rg_rects (h src1)) \<and> canonical (rg_rects (h src2)) \<longrightarrow> canonical (rg_rects reg))"
        using union_op.region_op_correct [OF Inr src(1,3) op(2,3) src(2,4)] .
      then have "extents_ok \<lparr>left = min (left (rg_extents (h src1))) (left (rg_extents (h src2))),
          top = min (top (rg_extents (h src1))) (top (rg_extents (h src2))),
          right = max (right (rg_extents (h src1))) (right (rg_extents (h src2))),
          bottom = max (bottom (rg_extents (h src1))) (bottom (rg_extents (h src2)))\<rparr> (rg_rects reg)"
        using ok op(2,3) by (intro extents_ok_union) (auto simp: region_ok_def)
      then show ?thesis
        using Inr op c by (auto simp: computes_def union_region_def Let_def pixels_def region_ok_def size_ok_def)
    qed
  qed
qed


section \<open>Uniqueness of canonical regions\<close>

lemma canonical_after:
  assumes "banded rs" and "rs \<noteq> []" and "canonical rs"
  shows "canonical (after_band rs)"
  unfolding canonical_def
proof
  fix r assume r: "r \<in> set (after_band rs)"
  note bf = banded_first [OF assms(1,2)]
  have rs: "r \<in> set rs" using r by (auto simp: after_band_def dest: set_dropWhileD)
  have top: "bottom (hd rs) \<le> top r" using bf(4) [OF r] .
  have same: "row (after_band rs) x = row rs x" if "bottom (hd rs) \<le> x" for x
    using row_first(2) [OF assms(1,2) that] by simp
  show "row (after_band rs) (top r - 1) \<noteq> row (after_band rs) (top r)"
  proof (cases "bottom (hd rs) \<le> top r - 1")
    case True
    then show ?thesis using same top assms(3) rs by (simp add: canonical_def)
  next
    case False
    then have "row (after_band rs) (top r - 1) = {}" using bf(4) by (intro row_below) force
    then show ?thesis using row_nonempty [OF bf(5) r] by auto
  qed
qed

lemma row_top_least:
  assumes "banded rs" and "rs \<noteq> []"
  shows "row rs (top (hd rs)) \<noteq> {}" and "x < top (hd rs) \<Longrightarrow> row rs x = {}"
proof -
  note bf = banded_first [OF assms]
  show "row rs (top (hd rs)) \<noteq> {}" using row_nonempty [OF assms(1)] assms(2) by (metis empty_iff hd_in_set)
  show "row rs x = {}" if "x < top (hd rs)" using row_first(1) [OF assms, of x] that bf(3) by simp
qed

lemma canonical_bottom:
  assumes "banded rs" and "rs \<noteq> []" and "canonical rs"
  shows "row rs (bottom (hd rs)) \<noteq> row rs (bottom (hd rs) - 1)"
proof -
  note bf = banded_first [OF assms(1,2)]
  have last: "row rs (bottom (hd rs) - 1) = xset (spans (first_band rs))"
    using row_first(1) [OF assms(1,2), of "bottom (hd rs) - 1"] bf(3) by simp
  have ne: "xset (spans (first_band rs)) \<noteq> {}" using xset_empty [OF bf(2)] assms(2) by simp
  show ?thesis
  proof (cases "\<exists>r \<in> set (after_band rs). top r = bottom (hd rs)")
    case True
    then obtain r where "r \<in> set rs" "top r = bottom (hd rs)" by (auto simp: after_band_def dest: set_dropWhileD)
    then show ?thesis using assms(3) by (auto simp: canonical_def)
  next
    case False
    then have "row (after_band rs) (bottom (hd rs)) = {}" using bf(4) by (intro row_below) force
    then show ?thesis using row_first(2) [OF assms(1,2), of "bottom (hd rs)"] last ne by simp
  qed
qed

lemma canonical_unique:
  assumes "banded rs" and "banded rs'" and "canonical rs" and "canonical rs'" and "\<And>y. row rs y = row rs' y"
  shows "rs = rs'"
  using assms
proof (induction "length rs" arbitrary: rs rs' rule: less_induct)
  case less
  note b = less.prems(1,2) and c = less.prems(3,4) and eq = less.prems(5)
  show ?case
  proof (cases "rs = [] \<or> rs' = []")
    case True
    then show ?thesis using row_top_least(1) [OF b(1)] row_top_least(1) [OF b(2)] eq by (metis row_simps(1))
  next
    case False
    then have ne: "rs \<noteq> []" "rs' \<noteq> []" by simp_all
    note bf = banded_first [OF b(1) ne(1)] and bf' = banded_first [OF b(2) ne(2)]
    have top: "top (hd rs) = top (hd rs')"
      using row_top_least [OF b(1) ne(1)] row_top_least [OF b(2) ne(2)] eq by (metis linorder_neqE_linordered_idom)
    have sp: "spans (first_band rs) = spans (first_band rs')"
      using row_first(1) [OF b(1) ne(1) bf(3)] row_first(1) [OF b(2) ne(2) bf'(3)] eq top
      by (intro spans_unique bf(2) bf'(2)) simp
    have mid: "row rs x = xset (spans (first_band rs))" if "top (hd rs) \<le> x" "x < bottom (hd rs) \<or> x < bottom (hd rs')" for x
      using row_first(1) [OF b(1) ne(1), of x] row_first(1) [OF b(2) ne(2), of x] that eq [of x] sp top by auto
    have bot: "bottom (hd rs) = bottom (hd rs')"
    proof (rule linorder_cases [of "bottom (hd rs)" "bottom (hd rs')"])
      assume "bottom (hd rs) < bottom (hd rs')"
      then show ?thesis
        using canonical_bottom [OF b(1) ne(1) c(1)] mid [of "bottom (hd rs)"] mid [of "bottom (hd rs) - 1"] bf(3) by simp
    next
      assume "bottom (hd rs') < bottom (hd rs)"
      then show ?thesis
        using canonical_bottom [OF b(2) ne(2) c(2)] mid [of "bottom (hd rs')"] mid [of "bottom (hd rs') - 1"] bf'(3) top
        by (simp add: eq)
    qed
    have "first_band rs = first_band rs'" using bf(1) bf'(1) sp top bot by metis
    moreover have "after_band rs = after_band rs'"
    proof (rule less.hyps)
      show "length (after_band rs) < length rs" by (rule after_band_shorter [OF ne(1)])
      show "row (after_band rs) y = row (after_band rs') y" for y
      proof (cases "bottom (hd rs) \<le> y")
        case True
        then show ?thesis using row_first(2) [OF b(1) ne(1) True] row_first(2) [OF b(2) ne(2), of y] bot eq by simp
      next
        case False
        have "row (after_band rs) y = {}" "row (after_band rs') y = {}"
          using bf(4) bf'(4) False bot by (intro row_below; force)+
        then show ?thesis by simp
      qed
    qed (use bf(5) bf'(5) canonical_after b ne c in auto)
    ultimately show ?thesis using band_split by metis
  qed
qed

lemma extents_unique:
  assumes "extents_ok e rs" and "extents_ok e' rs" and "rs \<noteq> []"
  shows "is_rect_equal e e'"
proof -
  have all: "x \<in> row rs y \<Longrightarrow> left e \<le> x \<and> x < right e \<and> top e \<le> y \<and> y < bottom e" for x y
    using assms(1,3) by (simp add: extents_ok_def)
  have all': "x \<in> row rs y \<Longrightarrow> left e' \<le> x \<and> x < right e' \<and> top e' \<le> y \<and> y < bottom e'" for x y
    using assms(2,3) by (simp add: extents_ok_def)
  obtain y1 y2 x3 x4 where "left e \<in> row rs y1" "right e - 1 \<in> row rs y2" "x3 \<in> row rs (top e)" "x4 \<in> row rs (bottom e - 1)"
    using assms(1,3) unfolding extents_ok_def by (simp split: if_splits) blast
  note h = all' [OF this(1)] all' [OF this(2)] all' [OF this(3)] all' [OF this(4)]
  obtain y1 y2 x3 x4 where "left e' \<in> row rs y1" "right e' - 1 \<in> row rs y2" "x3 \<in> row rs (top e')" "x4 \<in> row rs (bottom e' - 1)"
    using assms(2,3) unfolding extents_ok_def by (simp split: if_splits) blast
  note h' = all [OF this(1)] all [OF this(2)] all [OF this(3)] all [OF this(4)]
  show ?thesis unfolding is_rect_equal_def using h h' by linarith
qed

lemma is_rect_equal_eq [simp]: "is_rect_equal r r' \<longleftrightarrow> r = r'"
  by (cases r; cases r') (auto simp: is_rect_equal_def)

section \<open>Points, rectangles and request data\<close>

lemma point_in_rects_row: "banded rs \<Longrightarrow> point_in_rects rs x y \<longleftrightarrow> x \<in> row rs y"
proof (induction rs)
  case (Cons p ps)
  have ne: "left p < right p" "top p < bottom p" using Cons.prems by (simp_all add: is_rect_empty_def)
  have below: "row ps y = {}" if "y < top p"
    using Cons.prems that ne by (intro row_below) (force simp: before_def)
  have right: "x \<notin> row ps y" if "top p \<le> y" "y < bottom p" "x < left p"
  proof
    assume "x \<in> row ps y"
    then obtain r where "r \<in> set ps" "left r \<le> x" "top r \<le> y" by (auto simp: row_def point_in_rect_def)
    then show False using Cons.prems that ne by (force simp: before_def)
  qed
  show ?case using Cons below right by (auto simp: point_in_rect_def not_le)
qed simp

lemma rect_in_rects_row:
  assumes "banded rs" and "\<not> is_rect_empty rect"
  shows "rect_in_rects rs rect \<longleftrightarrow> (\<exists>y. row rs y \<inter> row [rect] y \<noteq> {})"
  using assms(1)
proof (induction rs)
  case (Cons p ps)
  have ne: "left p < right p" "top p < bottom p" "left rect < right rect" "top rect < bottom rect"
    using Cons.prems assms(2) by (simp_all add: is_rect_empty_def)
  have below: "row ps y \<inter> row [rect] y = {}" if "bottom rect \<le> top p" for y
  proof -
    have "row ps y = {}" if "y < bottom rect" using Cons.prems that ne \<open>bottom rect \<le> top p\<close>
      by (intro row_below) (force simp: before_def)
    then show ?thesis by (auto simp: point_in_rect_def)
  qed
  have meet: "(\<exists>y. row [p] y \<inter> row [rect] y \<noteq> {}) \<longleftrightarrow>
      top p < bottom rect \<and> top rect < bottom p \<and> left p < right rect \<and> left rect < right p"
  proof
    assume "top p < bottom rect \<and> top rect < bottom p \<and> left p < right rect \<and> left rect < right p"
    then have "max (left p) (left rect) \<in> row [p] (max (top p) (top rect)) \<inter> row [rect] (max (top p) (top rect))"
      using ne by (auto simp: point_in_rect_def)
    then show "\<exists>y. row [p] y \<inter> row [rect] y \<noteq> {}" by blast
  qed (auto simp: point_in_rect_def)
  have split: "(\<exists>y. row (p # ps) y \<inter> row [rect] y \<noteq> {}) \<longleftrightarrow>
      (\<exists>y. row [p] y \<inter> row [rect] y \<noteq> {}) \<or> (\<exists>y. row ps y \<inter> row [rect] y \<noteq> {})" by auto
  have IH: "rect_in_rects ps rect \<longleftrightarrow> (\<exists>y. row ps y \<inter> row [rect] y \<noteq> {})" using Cons by simp
  show ?case unfolding split meet using below IH by (auto simp del: row_simps)
qed simp

lemma create_region_ok:
  assumes "create_region_from_req_data mem data sz = Inr reg"
  shows "region_ok reg" and "rg_rects reg = (if sz div RECT_SIZE = 1 \<and> data ! 0 = empty_rect then [] else take (sz div RECT_SIZE) data)"
proof -
  define nb where "nb = (if sz div RECT_SIZE = 1 \<and> data ! 0 = empty_rect then 0 else sz div RECT_SIZE)"
  define reg0 where "reg0 = \<lparr>rg_size = max nb RGN_DEFAULT_RECTS, rg_rects = take nb data, rg_extents = empty_rect\<rparr>"
  have reg: "reg = set_region_extents reg0" and v: "validate_rectangles (take nb data)"
    using assms by (auto simp: create_region_from_req_data_def Let_def nb_def reg0_def split: if_splits)
  have "banded (rg_rects reg0)" using v by (simp add: validate_rectangles_banded reg0_def)
  moreover have "size_ok reg0" by (auto simp: size_ok_def reg0_def)
  ultimately show "region_ok reg" using region_ok_extents reg by simp
  show "rg_rects reg = (if sz div RECT_SIZE = 1 \<and> data ! 0 = empty_rect then [] else take (sz div RECT_SIZE) data)"
    using set_region_extents_ok(2) [OF \<open>banded (rg_rects reg0)\<close>] unfolding reg by (simp add: reg0_def nb_def)
qed

lemma region_ok_rect: "\<not> is_rect_empty r \<Longrightarrow> 2 \<le> rg_size reg \<Longrightarrow> region_ok (set_region_rect reg r)"
  using set_region_extents_ok(1) [of "set_region_rect reg r"]
  by (simp add: set_region_rect_def region_ok_def size_ok_def extents_ok_def is_rect_empty_def point_in_rect_def)
    (metis order_refl zle_diff1_eq)


section \<open>Properties\<close>

definition sample_region :: "rectangle \<Rightarrow> region" where
  "sample_region r = set_region_rect \<lparr>rg_size = RGN_DEFAULT_RECTS, rg_rects = [], rg_extents = empty_rect\<rparr> r"

definition sample_heap :: heap where
  "sample_heap = (\<lambda>_. sample_region empty_rect)
     (0 := sample_region (band_rect 0 0 10 10), 3 := sample_region (band_rect 5 5 15 15))"

lemma sample_region_ok: "\<not> is_rect_empty r \<Longrightarrow> region_ok (sample_region r)"
  unfolding sample_region_def by (rule region_ok_rect) simp_all

lemma sample_region_canonical: "\<not> is_rect_empty r \<Longrightarrow> canonical (rg_rects (sample_region r))"
  by (auto simp: sample_region_def set_region_rect_def canonical_def point_in_rect_def is_rect_empty_def)

lemma sample_region_pixels:
  "\<not> is_rect_empty r \<Longrightarrow> pixels (sample_region r) = {left r ..< right r} \<times> {top r ..< bottom r}"
  by (auto simp: sample_region_def set_region_rect_def pixels_def point_in_rect_def)

lemma sample_heap_simps [simp]:
  "sample_heap 0 = sample_region (band_rect 0 0 10 10)" "sample_heap 3 = sample_region (band_rect 5 5 15 15)"
  "sample_heap 4 = sample_region empty_rect"
  by (simp_all add: sample_heap_def)

lemma sample_rects_ok: "\<not> is_rect_empty (band_rect 0 0 10 10)" "\<not> is_rect_empty (band_rect 5 5 15 15)"
  by (simp_all add: is_rect_empty_def)

lemma sample_size_ok: "size_ok (sample_region r)"
  by (simp add: sample_region_def size_ok_def set_region_rect_def)

lemma sample_heap_ok:
  "region_ok (sample_heap 0)" "region_ok (sample_heap 3)"
  "pixels (sample_heap 0) = {0 ..< 10} \<times> {0 ..< 10}" "pixels (sample_heap 3) = {5 ..< 15} \<times> {5 ..< 15}"
  "size_ok (sample_heap 0)" "size_ok (sample_heap 4)"
  "canonical (rg_rects (sample_heap 0))" "canonical (rg_rects (sample_heap 3))"
  unfolding sample_heap_simps using sample_rects_ok
  by (simp_all only: sample_region_ok sample_region_pixels sample_region_canonical sample_size_ok band_rect_simps simp_thms)

text \<open>
  (C5) Intersection of regions. Whatever pointers the destination and the sources are, the
  destination becomes a well-formed region (banded, inside its array, with tight extents)
  with exactly the pixels that both sources had, no other region changes, and the call
  fails only for lack of memory.
\<close>

theorem intersect_region_correct:
  assumes "region_ok (h src1)" and "region_ok (h src2)" and "size_ok (h dst)"
    and "intersect_region mem h dst src1 src2 = (st, h')"
  shows "((\<forall>n. mem n) \<longrightarrow> st = STATUS_SUCCESS) \<and> (\<forall>p. p \<noteq> dst \<longrightarrow> h' p = h p) \<and>
    (st = STATUS_SUCCESS \<longrightarrow> region_ok (h' dst) \<and> pixels (h' dst) = pixels (h src1) \<inter> pixels (h src2))"
  using intersect_region_computes [OF assms(1-3), of mem] assms(4) by (simp add: computes_def)

theorem intersect_region_correct_witness:
  "\<exists>h'. intersect_region (\<lambda>_. True) sample_heap 0 0 3 = (STATUS_SUCCESS, h') \<and> pixels (h' 0) = {5 ..< 10} \<times> {5 ..< 10}"
proof -
  obtain st h' where r: "intersect_region (\<lambda>_. True) sample_heap 0 0 3 = (st, h')" by fastforce
  have "({0 ..< 10} \<times> {0 ..< 10}) \<inter> ({5 ..< 15} \<times> {5 ..< 15}) = {5 ..< 10 :: int} \<times> {5 ..< 10 :: int}" by auto
  then show ?thesis
    using intersect_region_correct [OF sample_heap_ok(1,2,5) r] r sample_heap_ok(3,4) by simp
qed

text \<open>
  (C6) Difference of regions: the destination becomes a well-formed region with the pixels of
  the first source that the second one does not have, also when it is one of the sources.
\<close>

theorem subtract_region_correct:
  assumes "region_ok (h src1)" and "region_ok (h src2)" and "size_ok (h dst)"
    and "subtract_region mem h dst src1 src2 = (st, h')"
  shows "((\<forall>n. mem n) \<longrightarrow> st = STATUS_SUCCESS) \<and> (\<forall>p. p \<noteq> dst \<longrightarrow> h' p = h p) \<and>
    (st = STATUS_SUCCESS \<longrightarrow> region_ok (h' dst) \<and> pixels (h' dst) = pixels (h src1) - pixels (h src2))"
  using subtract_region_computes [OF assms(1-3), of mem] assms(4) by (simp add: computes_def)

theorem subtract_region_correct_witness:
  "\<exists>h'. subtract_region (\<lambda>_. True) sample_heap 4 0 3 = (STATUS_SUCCESS, h') \<and>
    pixels (h' 4) = {0 ..< 10} \<times> {0 ..< 10} - {5 ..< 15} \<times> {5 ..< 15}"
proof -
  obtain st h' where r: "subtract_region (\<lambda>_. True) sample_heap 4 0 3 = (st, h')" by fastforce
  then show ?thesis
    using subtract_region_correct [OF sample_heap_ok(1,2,6) r] r sample_heap_ok(3,4) by simp
qed

text \<open>
  (C7) Union of regions: the destination becomes a well-formed region with the pixels of both
  sources, in the general case and in each of the shortcuts for empty sources and for a
  rectangle that covers the other region.
\<close>

theorem union_region_correct:
  assumes "region_ok (h src1)" and "region_ok (h src2)" and "size_ok (h dst)"
    and "union_region mem h dst src1 src2 = (st, h')"
  shows "((\<forall>n. mem n) \<longrightarrow> st = STATUS_SUCCESS) \<and> (\<forall>p. p \<noteq> dst \<longrightarrow> h' p = h p) \<and>
    (st = STATUS_SUCCESS \<longrightarrow> region_ok (h' dst) \<and> pixels (h' dst) = pixels (h src1) \<union> pixels (h src2))"
  using union_region_computes [OF assms(1-3), of mem] assms(4) by (simp add: computes_def)

theorem union_region_correct_witness:
  "\<exists>h'. union_region (\<lambda>_. True) sample_heap 4 0 3 = (STATUS_SUCCESS, h') \<and>
    pixels (h' 4) = {0 ..< 10} \<times> {0 ..< 10} \<union> {5 ..< 15} \<times> {5 ..< 15}"
proof -
  obtain st h' where r: "union_region (\<lambda>_. True) sample_heap 4 0 3 = (st, h')" by fastforce
  then show ?thesis
    using union_region_correct [OF sample_heap_ok(1,2,6) r] r sample_heap_ok(3,4) by simp
qed

text \<open>
  (C8) Exclusive or. The composition of two differences and a union through a temporary
  region gives the pixels that exactly one source has, even when the destination is a
  source that the second difference overwrites; only the destination and the temporary
  region change.
\<close>

theorem xor_region_correct:
  assumes ok: "region_ok (h src1)" "region_ok (h src2)" "size_ok (h dst)"
    and tmp: "tmp \<noteq> dst" "tmp \<noteq> src1" "tmp \<noteq> src2"
    and xor: "xor_region mem tmp h dst src1 src2 = (st, h')"
  shows "((\<forall>n. mem n) \<longrightarrow> st = STATUS_SUCCESS) \<and> (\<forall>p. p \<noteq> dst \<and> p \<noteq> tmp \<longrightarrow> h' p = h p) \<and>
    (st = STATUS_SUCCESS \<longrightarrow> region_ok (h' dst) \<and>
      pixels (h' dst) = (pixels (h src1) - pixels (h src2)) \<union> (pixels (h src2) - pixels (h src1)))"
proof (cases "create_empty_region mem")
  case (Inl e)
  then show ?thesis using xor by (auto simp: xor_region_def create_empty_region_def split: if_splits)
next
  case (Inr reg)
  let ?h0 = "h(tmp := reg)"
  obtain st1 h1 where s1: "subtract_region mem ?h0 tmp src1 src2 = (st1, h1)" by fastforce
  obtain st2 h2 where s2: "subtract_region mem h1 dst src2 src1 = (st2, h2)" by fastforce
  have "size_ok (?h0 tmp)" using Inr by (auto simp: create_empty_region_def size_ok_def split: if_splits)
  then have c1: "computes mem ?h0 tmp (st1, h1) (pixels (h src1) - pixels (h src2))
      (canonical (rg_rects (?h0 src1)) \<and> canonical (rg_rects (?h0 src2)))"
    using subtract_region_computes [of ?h0 src1 src2 tmp mem] ok tmp s1 by simp
  then have h1: "h1 p = h p" if "p \<noteq> tmp" for p using that by (simp add: computes_def)
  have c2: "computes mem h1 dst (st2, h2) (pixels (h src2) - pixels (h src1))
      (canonical (rg_rects (h1 src2)) \<and> canonical (rg_rects (h1 src1)))"
    using subtract_region_computes [of h1 src2 src1 dst mem] ok tmp h1 s2 by simp
  have c3: "computes mem h2 dst (union_region mem h2 dst dst tmp)
      ((pixels (h src2) - pixels (h src1)) \<union> (pixels (h src1) - pixels (h src2)))
      (canonical (rg_rects (h2 dst)) \<and> canonical (rg_rects (h2 tmp)))" if "st1 = STATUS_SUCCESS" "st2 = STATUS_SUCCESS"
  proof -
    have "region_ok (h2 dst)" "pixels (h2 dst) = pixels (h src2) - pixels (h src1)"
      "region_ok (h2 tmp)" "pixels (h2 tmp) = pixels (h src1) - pixels (h src2)"
      using c1 c2 that tmp by (simp_all add: computes_def)
    then show ?thesis using union_region_computes [of h2 dst tmp dst mem] by (simp add: region_ok_def)
  qed
  show ?thesis
    using xor Inr s1 s2 c1 c2 c3 by (auto simp: xor_region_def computes_def split: if_splits)
qed

theorem xor_region_correct_witness:
  "\<exists>h'. xor_region (\<lambda>_. True) 9 sample_heap 3 0 3 = (STATUS_SUCCESS, h') \<and>
    pixels (h' 3) = ({0 ..< 10} \<times> {0 ..< 10} - {5 ..< 15} \<times> {5 ..< 15}) \<union> ({5 ..< 15} \<times> {5 ..< 15} - {0 ..< 10} \<times> {0 ..< 10})"
proof -
  obtain st h' where r: "xor_region (\<lambda>_. True) 9 sample_heap 3 0 3 = (st, h')" by fastforce
  have "size_ok (sample_heap 3)" using sample_heap_ok(2) by (simp add: region_ok_def)
  from xor_region_correct [OF sample_heap_ok(1,2) this _ _ _ r] show ?thesis using r sample_heap_ok(3,4) by simp
qed

text \<open>
  (C19) Equality of regions. For regions without two touching bands of the same spans, which
  the set operations produce from such regions, comparing the lists of rectangles decides
  equality of the sets of pixels.
\<close>

theorem is_region_equal_pixels:
  assumes "region_ok reg1" and "region_ok reg2" and "canonical (rg_rects reg1)" and "canonical (rg_rects reg2)"
  shows "is_region_equal reg1 reg2 \<longleftrightarrow> pixels reg1 = pixels reg2"
proof -
  have all: "list_all2 is_rect_equal xs ys \<longleftrightarrow> xs = ys" for xs ys
  proof -
    have "is_rect_equal = (=)" by (intro ext) simp
    then show ?thesis by (simp only: list.rel_eq)
  qed
  have iff: "is_region_equal reg1 reg2 \<longleftrightarrow> rg_rects reg1 = rg_rects reg2"
  proof (cases "rg_rects reg1 = rg_rects reg2")
    case True
    then have "rg_rects reg1 \<noteq> [] \<Longrightarrow> is_rect_equal (rg_extents reg1) (rg_extents reg2)"
      using assms(1,2) extents_unique unfolding region_ok_def by metis
    then show ?thesis using True unfolding is_region_equal_def all by simp
  next
    case False
    then have "length (rg_rects reg1) = length (rg_rects reg2) \<Longrightarrow> length (rg_rects reg1) \<noteq> 0" by auto
    then show ?thesis using False unfolding is_region_equal_def all
      by (cases "length (rg_rects reg1) = length (rg_rects reg2)") simp_all
  qed
  have px: "(x, y) \<in> pixels reg \<longleftrightarrow> x \<in> row (rg_rects reg) y" for x y reg by (simp add: pixels_def)
  have "rg_rects reg1 = rg_rects reg2" if "pixels reg1 = pixels reg2"
  proof (rule canonical_unique)
    show "row (rg_rects reg1) y = row (rg_rects reg2) y" for y using px that by blast
  qed (use assms in \<open>simp_all add: region_ok_def\<close>)
  then show ?thesis unfolding iff by (auto simp: pixels_def)
qed

theorem is_region_equal_pixels_witness:
  "\<not> is_region_equal (sample_heap 0) (sample_heap 3)"
proof -
  have "(0, 0) \<in> pixels (sample_heap 0)" "(0, 0) \<notin> pixels (sample_heap 3)"
    unfolding sample_heap_ok(3,4) by simp_all
  then show ?thesis using is_region_equal_pixels [OF sample_heap_ok(1,2,7,8)] by blast
qed

text \<open>
  (C20) The results of the set operations are in that form: on canonical sources every
  operation leaves a canonical destination.
\<close>

theorem region_operations_canonical:
  assumes "region_ok (h src1)" and "region_ok (h src2)" and "size_ok (h dst)"
    and "canonical (rg_rects (h src1))" and "canonical (rg_rects (h src2))"
    and "(st, h') \<in> {intersect_region mem h dst src1 src2, subtract_region mem h dst src1 src2,
      union_region mem h dst src1 src2}" and "st = STATUS_SUCCESS"
  shows "canonical (rg_rects (h' dst))"
proof -
  have "\<exists>P. computes mem h dst (st, h') P (canonical (rg_rects (h src1)) \<and> canonical (rg_rects (h src2)))"
    using intersect_region_computes [OF assms(1-3), of mem] subtract_region_computes [OF assms(1-3), of mem]
      union_region_computes [OF assms(1-3), of mem] assms(6) by (metis insertE singletonD)
  then show ?thesis using assms(4,5,7) by (auto simp: computes_def)
qed

theorem region_operations_canonical_witness:
  "\<exists>h'. union_region (\<lambda>_. True) sample_heap 4 0 3 = (STATUS_SUCCESS, h') \<and> canonical (rg_rects (h' 4))"
proof -
  obtain st h' where r: "union_region (\<lambda>_. True) sample_heap 4 0 3 = (st, h')" by fastforce
  have "st = STATUS_SUCCESS"
    using union_region_computes [OF sample_heap_ok(1,2,6), of "\<lambda>_. True"] r by (simp add: computes_def)
  then show ?thesis
    using region_operations_canonical [OF sample_heap_ok(1,2,6,7,8), of st h' "\<lambda>_. True"] r by simp
qed

text \<open>
  (C21) Hit tests. The scans with early exits over the bands decide membership of a point and,
  for a rectangle that is not empty, whether it shares a pixel with the region.
\<close>

theorem region_hit_tests:
  assumes "region_ok reg" and "\<not> is_rect_empty rect"
  shows "(point_in_region reg x y \<longleftrightarrow> (x, y) \<in> pixels reg) \<and>
    (rect_in_region reg rect \<longleftrightarrow> pixels reg \<inter> {left rect ..< right rect} \<times> {top rect ..< bottom rect} \<noteq> {})"
proof -
  have "rect_in_region reg rect \<longleftrightarrow> (\<exists>y. row (rg_rects reg) y \<inter> row [rect] y \<noteq> {})"
    using rect_in_rects_row assms by (simp add: rect_in_region_def region_ok_def)
  also have "\<dots> \<longleftrightarrow> pixels reg \<inter> {left rect ..< right rect} \<times> {top rect ..< bottom rect} \<noteq> {}"
    by (force simp: pixels_def point_in_rect_def)
  finally show ?thesis
    using point_in_rects_row assms(1) by (simp add: point_in_region_def region_ok_def pixels_def)
qed

theorem region_hit_tests_witness:
  "point_in_region (sample_heap 0) 3 4 \<and> rect_in_region (sample_heap 0) (band_rect 5 5 15 15)"
proof -
  have "\<not> is_rect_empty (band_rect 5 5 15 15)" by (simp add: is_rect_empty_def)
  moreover have "(3, 4) \<in> pixels (sample_heap 0)" "(5, 5) \<in> pixels (sample_heap 0)" unfolding sample_heap_ok(3) by simp_all
  ultimately show ?thesis
    using region_hit_tests [OF sample_heap_ok(1), of "band_rect 5 5 15 15" 3 4] by fastforce
qed

text \<open>
  (C22) Data from a client becomes a region exactly when its rectangles are not empty and
  properly banded (or a single zero rectangle stands for the empty region), and the region
  is then well-formed.
\<close>

theorem create_region_from_req_data_valid:
  assumes "\<And>n. mem n" and "sz = length data * RECT_SIZE" and "data \<noteq> [empty_rect]"
  shows "(case create_region_from_req_data mem data sz of
      Inl st \<Rightarrow> st = STATUS_INVALID_PARAMETER \<and> \<not> banded data
    | Inr reg \<Rightarrow> banded data \<and> rg_rects reg = data \<and> region_ok reg)"
proof (cases "create_region_from_req_data mem data sz")
  case (Inl st)
  have "\<not> (length data = 1 \<and> data ! 0 = empty_rect)" using assms(3) by (cases data) auto
  then show ?thesis
    using Inl assms(1,2) validate_rectangles_banded [of data]
    by (auto simp: create_region_from_req_data_def Let_def split: if_splits)
next
  case (Inr reg)
  have "\<not> (length data = 1 \<and> data ! 0 = empty_rect)" using assms(3) by (cases data) auto
  then show ?thesis
    using Inr create_region_ok [OF Inr] assms(2) by (auto simp: region_ok_def)
qed

theorem create_region_from_req_data_valid_witness:
  "create_region_from_req_data (\<lambda>_. True) [band_rect 0 0 10 10, band_rect 5 5 15 15] 32 = Inl STATUS_INVALID_PARAMETER"
proof -
  have "\<not> banded [band_rect 0 0 10 10, band_rect 5 5 15 15]" by (simp add: before_def)
  then show ?thesis
    using create_region_from_req_data_valid [of "\<lambda>_. True" 32 "[band_rect 0 0 10 10, band_rect 5 5 15 15]"]
    by (auto split: sum.splits)
qed

text \<open>
  (C23) Round trip. The data that a region gives to a client, in either form of the query,
  creates a region with the same rectangles again; the empty region travels as a single
  zero rectangle.
\<close>

theorem region_data_roundtrip:
  assumes "region_ok reg" and "get_region_data mem reg max_size = (total_sz, Inr data)" and "\<And>n. mem' n"
  shows "get_region_data_and_free mem reg max_size = (total_sz, Inr data) \<and>
    (\<exists>reg'. create_region_from_req_data mem' data total_sz = Inr reg' \<and> region_ok reg' \<and> rg_rects reg' = rg_rects reg)"
proof -
  have d: "data = (if rg_rects reg = [] then [empty_rect] else rg_rects reg)" "total_sz = length data * RECT_SIZE"
    "total_sz \<le> max_size" "mem total_sz"
    using assms(2) by (auto simp: get_region_data_def Let_def split: if_splits)
  have free: "get_region_data_and_free mem reg max_size = (total_sz, Inr data)"
    using d by (cases "rg_rects reg = []") (simp_all add: get_region_data_and_free_def)
  have b: "banded (rg_rects reg)" using assms(1) by (simp add: region_ok_def)
  have ne: "rg_rects reg \<noteq> [empty_rect]" using b by (auto simp: is_rect_empty_def empty_rect_def)
  obtain reg' where c: "create_region_from_req_data mem' data total_sz = Inr reg'"
  proof (cases "rg_rects reg = []")
    case True
    then show ?thesis using that assms(3) d by (simp add: create_region_from_req_data_def Let_def)
  next
    case False
    then have "\<not> (length data = 1 \<and> data ! 0 = empty_rect)" using ne d(1) by (auto simp: length_Suc_conv)
    then show ?thesis
      using that assms(3) d False b validate_rectangles_banded [of "rg_rects reg"]
      by (auto simp: create_region_from_req_data_def Let_def)
  qed
  have "rg_rects reg' = rg_rects reg"
    using create_region_ok(2) [OF c] d ne by (cases "rg_rects reg") (auto split: if_splits)
  then show ?thesis using free c create_region_ok(1) [OF c] by blast
qed

theorem region_data_roundtrip_witness:
  "\<exists>reg'. create_region_from_req_data (\<lambda>_. True) [band_rect 0 0 10 10] 16 = Inr reg' \<and> region_ok reg'"
proof -
  have "get_region_data (\<lambda>_. True) (sample_heap 0) 64 = (16, Inr [band_rect 0 0 10 10])"
    by (simp add: get_region_data_def sample_region_def set_region_rect_def is_rect_empty_def)
  from region_data_roundtrip [OF sample_heap_ok(1) this, of "\<lambda>_. True"] show ?thesis by auto
qed


text \<open>
  Scaling by the same factor leaves small non-negative coordinates alone, but a
  negative coordinate becomes a large positive one, because the division is unsigned.
\<close>

theorem scale_dpi_negative:
  "scale_dpi 1000 96 96 = 1000 \<and> scale_dpi (- 96) 96 96 = 44739146"
  by (simp add: scale_dpi_def to_int32_def)

end
