(* ===== verification/User_Handles.thy ===== *)
theory User_Handles
  imports Prelude
begin

text \<open>
  The table of user handles (\<^verbatim>\<open>server/user.c\<close>): windows, hooks and client handles are
  identified by 32-bit values with an index in the low word and a generation counter in the
  high word. Free entries are linked through their pointer field. The interface is the one
  of the process handle tables, and the table is another interpretation of it.
\<close>

abbreviation "FIRST_USER_HANDLE \<equiv> 0x0020 :: nat"
abbreviation "LAST_USER_HANDLE \<equiv> 0xffef :: nat"
abbreviation "MAX_USER_HANDLES \<equiv> 0x7fe8 :: nat"

section \<open>Model\<close>

datatype user_object = USER_WINDOW | USER_HOOK | USER_CLIENT

text \<open>The pointer of an entry: an object, or the next free entry.\<close>

datatype user_ptr = Object nat | Entry "nat option"

record user_handle =
  uh_ptr :: user_ptr
  uh_type :: "user_object option"
  uh_generation :: u16

record user_table =
  ut_handles :: "user_handle list"
  ut_freelist :: "nat option"
  ut_allocated :: nat

definition handle_index :: "u32 \<Rightarrow> nat" where
  "handle_index handle = unat (drop_bit 1 ((handle AND 0xffff) - 0x20))"

definition handle_generation :: "u32 \<Rightarrow> u16" where
  "handle_generation handle = ucast (drop_bit 16 handle)"

definition handle_to_entry :: "user_table \<Rightarrow> u32 \<Rightarrow> nat option" where
  "handle_to_entry t handle =
     (let index = handle_index handle; generation = handle_generation handle
      in if index \<ge> length (ut_handles t) then None
         else if uh_type (ut_handles t ! index) = None then None
         else if generation = uh_generation (ut_handles t ! index) \<or> generation = 0 \<or> generation = 0xffff
         then Some index
         else None)"

definition make_handle :: "nat \<Rightarrow> u16 \<Rightarrow> u32" where
  "make_handle index generation = push_bit 1 (of_nat index) + 0x20 + push_bit 16 (ucast generation)"

definition entry_to_handle :: "user_table \<Rightarrow> nat \<Rightarrow> u32" where
  "entry_to_handle t index = make_handle index (uh_generation (ut_handles t ! index))"

text \<open>A new entry is not initialised apart from its generation; the fields are set by the caller.\<close>

definition new_entry :: user_handle where
  "new_entry = \<lparr>uh_ptr = Entry None, uh_type = None, uh_generation = 0\<rparr>"

definition alloc_user_entry :: "(nat \<Rightarrow> bool) \<Rightarrow> user_table \<Rightarrow> (nat \<times> user_table) option" where
  "alloc_user_entry mem_ok t =
     (case ut_freelist t of
        Some i \<Rightarrow> Some (i, t\<lparr>ut_freelist := (case uh_ptr (ut_handles t ! i) of Entry n \<Rightarrow> n | Object _ \<Rightarrow> None)\<rparr>)
      | None \<Rightarrow>
          if length (ut_handles t) \<ge> ut_allocated t then
            (let growth = max 32 (ut_allocated t div 2);
                 new_size = min (ut_allocated t + growth) MAX_USER_HANDLES
             in if new_size \<le> ut_allocated t then None
                else if \<not> mem_ok new_size then None
                else Some (length (ut_handles t),
                           t\<lparr>ut_handles := ut_handles t @ [new_entry], ut_allocated := new_size\<rparr>))
          else Some (length (ut_handles t), t\<lparr>ut_handles := ut_handles t @ [new_entry]\<rparr>))"

definition free_user_entry :: "user_table \<Rightarrow> nat \<Rightarrow> user_ptr \<times> user_table" where
  "free_user_entry t i =
     (uh_ptr (ut_handles t ! i),
      t\<lparr>ut_handles := (ut_handles t)[i := (ut_handles t ! i)\<lparr>uh_ptr := Entry (ut_freelist t), uh_type := None\<rparr>],
        ut_freelist := Some i\<rparr>)"

definition next_generation :: "u16 \<Rightarrow> u16" where
  "next_generation g = (if g + 1 \<ge> 0xffff then 1 else g + 1)"

definition alloc_user_handle :: "(nat \<Rightarrow> bool) \<Rightarrow> user_table \<Rightarrow> nat \<Rightarrow> user_object \<Rightarrow> u32 \<times> user_table" where
  "alloc_user_handle mem_ok t ptr ty =
     (case alloc_user_entry mem_ok t of
        None \<Rightarrow> (0, t)
      | Some (i, t1) \<Rightarrow>
          (let t2 = t1\<lparr>ut_handles := (ut_handles t1)[i := \<lparr>uh_ptr = Object ptr, uh_type = Some ty,
                 uh_generation = next_generation (uh_generation (ut_handles t1 ! i))\<rparr>]\<rparr>
           in (entry_to_handle t2 i, t2)))"

definition get_user_object :: "user_table \<Rightarrow> u32 \<Rightarrow> user_object \<Rightarrow> user_ptr option" where
  "get_user_object t handle ty =
     (case handle_to_entry t handle of
        None \<Rightarrow> None
      | Some i \<Rightarrow> if uh_type (ut_handles t ! i) \<noteq> Some ty then None else Some (uh_ptr (ut_handles t ! i)))"

definition get_user_full_handle :: "user_table \<Rightarrow> u32 \<Rightarrow> u32" where
  "get_user_full_handle t handle =
     (if drop_bit 16 handle \<noteq> 0 then handle
      else case handle_to_entry t handle of None \<Rightarrow> handle | Some i \<Rightarrow> entry_to_handle t i)"

definition get_user_object_handle :: "user_table \<Rightarrow> u32 \<Rightarrow> user_object \<Rightarrow> (user_ptr \<times> u32) option" where
  "get_user_object_handle t handle ty =
     (case handle_to_entry t handle of
        None \<Rightarrow> None
      | Some i \<Rightarrow>
          if uh_type (ut_handles t ! i) \<noteq> Some ty then None
          else Some (uh_ptr (ut_handles t ! i), entry_to_handle t i))"

definition free_user_handle :: "user_table \<Rightarrow> u32 \<Rightarrow> user_ptr result \<times> user_table" where
  "free_user_handle t handle =
     (case handle_to_entry t handle of
        None \<Rightarrow> (Inl STATUS_INVALID_HANDLE, t)
      | Some i \<Rightarrow> (case free_user_entry t i of (p, t') \<Rightarrow> (Inr p, t')))"

text \<open>The type \<open>None\<close> stands for 0, which matches every entry, even a free one.\<close>

definition next_user_handle :: "user_table \<Rightarrow> u32 \<Rightarrow> user_object option \<Rightarrow> (user_ptr \<times> u32) option" where
  "next_user_handle t handle ty =
     (let n = length (ut_handles t)
      in if handle \<noteq> 0 \<and> handle_index handle \<ge> n then None
         else (let start = (if handle = 0 then 0 else handle_index handle + 1);
                   i = scan (\<lambda>i. ty = None \<or> uh_type (ut_handles t ! i) = ty) start n
               in if i < n then Some (uh_ptr (ut_handles t ! i), entry_to_handle t i) else None))"

fun free_process_entries :: "nat \<Rightarrow> nat list \<Rightarrow> user_table \<Rightarrow> user_table" where
  "free_process_entries process [] t = t"
| "free_process_entries process (i # is) t =
     free_process_entries process is
       (if uh_type (ut_handles t ! i) = Some USER_CLIENT \<and> uh_ptr (ut_handles t ! i) = Object process
        then snd (free_user_entry t i) else t)"

definition free_process_user_handles :: "user_table \<Rightarrow> nat \<Rightarrow> user_table" where
  "free_process_user_handles t process = free_process_entries process [0..<length (ut_handles t)] t"

definition alloc_user_handle_req :: "(nat \<Rightarrow> bool) \<Rightarrow> user_table \<Rightarrow> nat \<Rightarrow> u32 \<times> user_table" where
  "alloc_user_handle_req mem_ok t process = alloc_user_handle mem_ok t process USER_CLIENT"

definition free_user_handle_req :: "user_table \<Rightarrow> u32 \<Rightarrow> ntstatus \<times> user_table" where
  "free_user_handle_req t handle =
     (case handle_to_entry t handle of
        None \<Rightarrow> (STATUS_INVALID_HANDLE, t)
      | Some i \<Rightarrow>
          if uh_type (ut_handles t ! i) = Some USER_CLIENT then (STATUS_SUCCESS, snd (free_user_entry t i))
          else (STATUS_INVALID_HANDLE, t))"

section \<open>Handle values\<close>

lemma make_handle_unat:
  assumes "i < MAX_USER_HANDLES"
  shows "unat (make_handle i g) = 2 * i + 32 + 65536 * unat g"
proof -
  have "make_handle i g = of_nat (2 * i + 32 + 65536 * unat g)"
    by (simp add: make_handle_def push_bit_eq_mult)
  moreover have "unat g < 65536" using unsigned_less [of g, where ?'a = nat] by simp
  then have "2 * i + 32 + 65536 * unat g < 2 ^ LENGTH(32)" using assms by simp
  ultimately show ?thesis by (simp only: unat_of_nat mod_less)
qed

lemma handle_index_make [simp]:
  assumes "i < MAX_USER_HANDLES"
  shows "handle_index (make_handle i g) = i"
proof -
  have "unat (make_handle i g AND 0xffff) = (2 * i + 32 + 65536 * unat g) mod 65536"
  proof -
    have "make_handle i g AND 0xffff = take_bit 16 (make_handle i g)"
      by (simp add: take_bit_eq_mask mask_eq_exp_minus_1)
    then show ?thesis using make_handle_unat [OF assms, of g] by (simp add: take_bit_eq_mod unat_mod)
  qed
  also have "\<dots> = 2 * i + 32" using assms by simp
  finally have m: "unat (make_handle i g AND 0xffff) = 2 * i + 32" .
  then have "unat ((make_handle i g AND 0xffff) - 0x20) = 2 * i"
    by (subst unat_sub) (simp_all add: word_le_nat_alt)
  then show ?thesis by (simp add: handle_index_def drop_bit_eq_div unat_div)
qed

lemma handle_generation_make [simp]:
  assumes "i < MAX_USER_HANDLES"
  shows "handle_generation (make_handle i g) = g"
proof -
  have "unat (drop_bit 16 (make_handle i g)) = unat g"
    using make_handle_unat [OF assms, of g] assms by (simp add: drop_bit_eq_div unat_div)
  then show ?thesis 
    using unsigned_less [of g, where ?'a = nat]
    by (simp add: handle_generation_def word_unat_eq_iff unsigned_ucast_eq take_bit_nat_eq_self)
qed

lemma make_handle_inject: "i < MAX_USER_HANDLES \<Longrightarrow> j < MAX_USER_HANDLES \<Longrightarrow> make_handle i g = make_handle j g' \<longleftrightarrow> i = j \<and> g = g'"
  by (metis handle_index_make handle_generation_make)

lemma next_generation_ok:
  assumes "g \<noteq> 0xffff"
  shows "next_generation g \<noteq> 0 \<and> next_generation g \<noteq> 0xffff"
proof -
  have "g + 1 \<noteq> 0"
  proof
    assume "g + 1 = 0"
    then have "g = - 1" by (simp only: eq_neg_iff_add_eq_0)
    then show False using assms by simp
  qed
  then show ?thesis by (auto simp: next_generation_def not_le)
qed

lemma next_generation_differs: "next_generation g \<noteq> g"
proof (cases "g = 1")
  case True
  then show ?thesis by (simp add: next_generation_def)
qed (simp add: next_generation_def)

section \<open>Invariant\<close>

fun chain :: "user_handle list \<Rightarrow> nat option \<Rightarrow> nat list \<Rightarrow> bool" where
  "chain hs None is \<longleftrightarrow> is = []"
| "chain hs (Some i) [] \<longleftrightarrow> False"
| "chain hs (Some i) (j # js) \<longleftrightarrow> i = j \<and> i < length hs \<and> (\<exists>n. uh_ptr (hs ! i) = Entry n \<and> chain hs n js)"

definition user_ok :: "user_table \<Rightarrow> bool" where
  "user_ok t \<longleftrightarrow>
     length (ut_handles t) \<le> ut_allocated t \<and> ut_allocated t \<le> MAX_USER_HANDLES \<and>
     (\<forall>e \<in> set (ut_handles t). uh_generation e \<noteq> 0 \<and> uh_generation e \<noteq> 0xffff \<and>
        (uh_type e \<noteq> None \<longrightarrow> (\<exists>p. uh_ptr e = Object p))) \<and>
     (\<exists>fl. chain (ut_handles t) (ut_freelist t) fl \<and> distinct fl \<and>
        set fl = {i. i < length (ut_handles t) \<and> uh_type (ut_handles t ! i) = None})"

lemma user_okI:
  assumes "length (ut_handles t) \<le> ut_allocated t" and "ut_allocated t \<le> MAX_USER_HANDLES"
    and "\<forall>e \<in> set (ut_handles t). uh_generation e \<noteq> 0 \<and> uh_generation e \<noteq> 0xffff \<and>
      (uh_type e \<noteq> None \<longrightarrow> (\<exists>p. uh_ptr e = Object p))"
    and "chain (ut_handles t) (ut_freelist t) fl" and "distinct fl"
    and "set fl = {i. i < length (ut_handles t) \<and> uh_type (ut_handles t ! i) = None}"
  shows "user_ok t"
  unfolding user_ok_def using assms by blast

text \<open>What a full handle denotes.\<close>

definition find_user :: "user_table \<Rightarrow> u32 \<Rightarrow> (nat \<times> user_object) option" where
  "find_user t handle =
     (case handle_to_entry t handle of
        None \<Rightarrow> None
      | Some i \<Rightarrow>
          if entry_to_handle t i = handle
          then (case (uh_ptr (ut_handles t ! i), uh_type (ut_handles t ! i)) of
                  (Object p, Some ty) \<Rightarrow> Some (p, ty) | _ \<Rightarrow> None)
          else None)"

definition alloc_user :: "(nat \<Rightarrow> bool) \<Rightarrow> user_table \<Rightarrow> nat \<times> user_object \<Rightarrow> (u32 \<times> user_table) option" where
  "alloc_user mem_ok t v =
     (case alloc_user_handle mem_ok t (fst v) (snd v) of (h, t') \<Rightarrow> if h = 0 then None else Some (h, t'))"

definition free_user :: "user_table \<Rightarrow> u32 \<Rightarrow> user_table" where
  "free_user t h = snd (free_user_handle t h)"

lemma chain_update:
  "chain hs n is \<Longrightarrow> i \<notin> set is \<Longrightarrow> chain (hs[i := e]) n is"
  by (induction hs n "is" rule: chain.induct) auto

lemma chain_append: "chain hs n is \<Longrightarrow> chain (hs @ es) n is"
  by (induction hs n "is" rule: chain.induct) (auto simp: nth_append)

lemma chain_Some: "chain hs (Some i) fl \<Longrightarrow> \<exists>n fl'. i < length hs \<and> uh_ptr (hs ! i) = Entry n \<and> fl = i # fl' \<and> chain hs n fl'"
  by (cases fl) auto

text \<open>The table in terms of its entries: the lookups of a well-formed table.\<close>

lemma handle_to_entry_make:
  assumes "user_ok t" and "i < length (ut_handles t)" and "uh_type (ut_handles t ! i) \<noteq> None"
  shows "handle_to_entry t (entry_to_handle t i) = Some i"
proof -
  have "i < MAX_USER_HANDLES" using assms by (simp add: user_ok_def)
  then show ?thesis using assms by (simp add: handle_to_entry_def entry_to_handle_def Let_def)
qed

lemma find_user_iff:
  assumes "user_ok t"
  shows "find_user t h = Some (p, ty) \<longleftrightarrow> (\<exists>i < length (ut_handles t). uh_type (ut_handles t ! i) = Some ty \<and>
    uh_ptr (ut_handles t ! i) = Object p \<and> h = make_handle i (uh_generation (ut_handles t ! i)))"
proof
  assume "find_user t h = Some (p, ty)"
  then obtain i where i: "handle_to_entry t h = Some i" "entry_to_handle t i = h"
    "uh_ptr (ut_handles t ! i) = Object p" "uh_type (ut_handles t ! i) = Some ty"
    by (auto simp: find_user_def split: option.splits if_splits user_ptr.splits)
  moreover have "i < length (ut_handles t)"
    using i(1) by (auto simp: handle_to_entry_def Let_def split: if_splits)
  ultimately show "\<exists>i < length (ut_handles t). uh_type (ut_handles t ! i) = Some ty \<and>
      uh_ptr (ut_handles t ! i) = Object p \<and> h = make_handle i (uh_generation (ut_handles t ! i))"
    by (auto simp: entry_to_handle_def)
next
  assume "\<exists>i < length (ut_handles t). uh_type (ut_handles t ! i) = Some ty \<and>
      uh_ptr (ut_handles t ! i) = Object p \<and> h = make_handle i (uh_generation (ut_handles t ! i))"
  then obtain i where i: "i < length (ut_handles t)" "uh_type (ut_handles t ! i) = Some ty"
    "uh_ptr (ut_handles t ! i) = Object p" "h = entry_to_handle t i" by (auto simp: entry_to_handle_def)
  then show "find_user t h = Some (p, ty)"
    using handle_to_entry_make [OF assms i(1)] by (simp add: find_user_def)
qed

text \<open>An allocation fills one entry that was free or is new and leaves the others alone.\<close>

definition filled :: "user_table \<Rightarrow> user_table \<Rightarrow> nat \<Rightarrow> nat \<Rightarrow> user_object \<Rightarrow> bool" where
  "filled t t' i p ty \<longleftrightarrow>
     i < length (ut_handles t') \<and> i < MAX_USER_HANDLES \<and>
     uh_ptr (ut_handles t' ! i) = Object p \<and> uh_type (ut_handles t' ! i) = Some ty \<and>
     (i < length (ut_handles t) \<longrightarrow> uh_type (ut_handles t ! i) = None \<and>
        uh_generation (ut_handles t' ! i) = next_generation (uh_generation (ut_handles t ! i))) \<and>
     length (ut_handles t) \<le> length (ut_handles t') \<and>
     (\<forall>j < length (ut_handles t'). j \<noteq> i \<longrightarrow> j < length (ut_handles t) \<and> ut_handles t' ! j = ut_handles t ! j)"

lemma alloc_user_handle_fills:
  assumes ok: "user_ok t" and alloc: "alloc_user_handle mem_ok t p ty = (h, t')" and h: "h \<noteq> 0"
  obtains i where "filled t t' i p ty" and "h = entry_to_handle t' i" and "user_ok t'"
proof -
  let ?hs = "ut_handles t"
  obtain fl where len: "length ?hs \<le> ut_allocated t" "ut_allocated t \<le> MAX_USER_HANDLES"
    and gens: "\<forall>e \<in> set ?hs. uh_generation e \<noteq> 0 \<and> uh_generation e \<noteq> 0xffff \<and> (uh_type e \<noteq> None \<longrightarrow> (\<exists>p. uh_ptr e = Object p))"
    and fl: "chain ?hs (ut_freelist t) fl" "distinct fl" "set fl = {i. i < length ?hs \<and> uh_type (?hs ! i) = None}"
    using ok unfolding user_ok_def by blast
  obtain i t1 where a: "alloc_user_entry mem_ok t = Some (i, t1)"
    and h': "h = entry_to_handle t' i"
    and t': "t' = t1\<lparr>ut_handles := (ut_handles t1)[i := \<lparr>uh_ptr = Object p, uh_type = Some ty,
                 uh_generation = next_generation (uh_generation (ut_handles t1 ! i))\<rparr>]\<rparr>"
    using alloc h by (auto simp: alloc_user_handle_def Let_def split: option.splits)
  show thesis
  proof (cases "ut_freelist t")
    case (Some i')
    then obtain n fl' where f: "i' < length ?hs" "uh_ptr (?hs ! i') = Entry n" "fl = i' # fl'" "chain ?hs n fl'"
      using chain_Some fl(1) by metis
    have t1: "i = i'" "t1 = t\<lparr>ut_freelist := n\<rparr>" using a Some f(2) by (auto simp: alloc_user_entry_def)
    have none: "uh_type (?hs ! i) = None" "i \<notin> set fl'" using fl(2,3) f(1,3) t1 by auto
    let ?e = "\<lparr>uh_ptr = Object p, uh_type = Some ty, uh_generation = next_generation (uh_generation (?hs ! i))\<rparr>"
    have hs': "ut_handles t' = ?hs[i := ?e]" "ut_freelist t' = n" "ut_allocated t' = ut_allocated t"
      using t' t1 by simp_all
    have "uh_generation (?hs ! i) \<noteq> 0xffff" using gens f(1) t1 by auto
    then have gens': "\<forall>e \<in> set (ut_handles t'). uh_generation e \<noteq> 0 \<and> uh_generation e \<noteq> 0xffff \<and> (uh_type e \<noteq> None \<longrightarrow> (\<exists>p. uh_ptr e = Object p))"
      using gens next_generation_ok [of "uh_generation (?hs ! i)"] set_update_subset_insert [of ?hs i ?e]
      unfolding hs' by auto
    have "chain (ut_handles t') (ut_freelist t') fl'" using chain_update [OF f(4) none(2)] hs' by simp
    moreover have "distinct fl'" using fl(2) f(3) by simp
    moreover have "set fl' = {j. j < length (ut_handles t') \<and> uh_type (ut_handles t' ! j) = None}"
    proof -
      have "set fl' = set fl - {i}" using fl(2) f(3) t1(1) by auto
      then have mem: "j \<in> set fl' \<longleftrightarrow> j \<noteq> i \<and> j < length ?hs \<and> uh_type (?hs ! j) = None" for j using fl(3) by blast
      have "j \<in> set fl' \<longleftrightarrow> j < length (ut_handles t') \<and> uh_type (ut_handles t' ! j) = None" for j
        unfolding mem hs' using f(1) t1(1) by (cases "j = i") simp_all
      then show ?thesis by blast
    qed
    ultimately have "user_ok t'" unfolding user_ok_def using gens' len hs' by auto
    moreover have "filled t t' i p ty" using f(1) t1(1) len none unfolding filled_def hs' by simp
    ultimately show ?thesis using that h' by blast
  next
    case None
    then have "fl = []" using fl(1) by simp
    obtain sz where t1: "i = length ?hs" "ut_handles t1 = ?hs @ [new_entry]" "ut_freelist t1 = None"
      "ut_allocated t1 = sz" "length ?hs < sz" "sz \<le> MAX_USER_HANDLES"
    proof (cases "length ?hs \<ge> ut_allocated t")
      case True
      then show ?thesis
        using a None len that by (auto simp: alloc_user_entry_def Let_def split: if_splits)
    next
      case False
      then show ?thesis using a None len that by (auto simp: alloc_user_entry_def)
    qed
    let ?e = "\<lparr>uh_ptr = Object p, uh_type = Some ty, uh_generation = next_generation 0\<rparr>"
    have hs': "ut_handles t' = ?hs @ [?e]" "ut_freelist t' = None" "ut_allocated t' = sz"
      using t' t1 by (simp_all add: new_entry_def)
    have "\<forall>e \<in> set (ut_handles t'). uh_generation e \<noteq> 0 \<and> uh_generation e \<noteq> 0xffff \<and> (uh_type e \<noteq> None \<longrightarrow> (\<exists>p. uh_ptr e = Object p))"
      using gens next_generation_ok [of 0] unfolding hs' by auto
    moreover have "{j. j < length (ut_handles t') \<and> uh_type (ut_handles t' ! j) = None} = {}"
      using fl(3) \<open>fl = []\<close> unfolding hs' by (auto simp: nth_append less_Suc_eq)
    ultimately have "user_ok t'" unfolding user_ok_def using t1(5,6) hs' by (auto intro!: exI [of _ "[]"])
    moreover have "filled t t' i p ty" using t1 unfolding filled_def hs' by (auto simp: nth_append)
    ultimately show ?thesis using that h' by blast
  qed
qed

lemma option_eqI: "(\<And>v. a = Some v \<longleftrightarrow> b = Some v) \<Longrightarrow> a = b"
  by (cases a; cases b) auto

lemma alloc_find_user:
  assumes ok: "user_ok t" and ok': "user_ok t'" and f: "filled t t' i p ty" and h: "h = entry_to_handle t' i"
  shows "find_user t h = None" and "find_user t' = (find_user t)(h \<mapsto> (p, ty))"
proof -
  have i: "i < length (ut_handles t')" "i < MAX_USER_HANDLES" "uh_ptr (ut_handles t' ! i) = Object p" "uh_type (ut_handles t' ! i) = Some ty"
    and free: "i < length (ut_handles t) \<Longrightarrow> uh_type (ut_handles t ! i) = None"
    and others: "\<And>j. j < length (ut_handles t') \<Longrightarrow> j \<noteq> i \<Longrightarrow> j < length (ut_handles t) \<and> ut_handles t' ! j = ut_handles t ! j"
    and len: "length (ut_handles t) \<le> length (ut_handles t')"
    using f unfolding filled_def by blast+
  have small: "j < MAX_USER_HANDLES" if "j < length (ut_handles t')" for j using ok' that by (simp add: user_ok_def)
  have hd: "h = make_handle i (uh_generation (ut_handles t' ! i))" using h by (simp add: entry_to_handle_def)
  show none: "find_user t h = None"
  proof (rule ccontr)
    assume "find_user t h \<noteq> None"
    then obtain q ty' j where "j < length (ut_handles t)" "uh_type (ut_handles t ! j) = Some ty'"
      "h = make_handle j (uh_generation (ut_handles t ! j))"
      using find_user_iff [OF ok] by (metis option.exhaust surj_pair)
    moreover from this have "j = i" using hd i(2) small [of j] len by (simp add: make_handle_inject)
    ultimately show False using free by simp
  qed
  have iff: "find_user t' h' = Some v \<longleftrightarrow> (if h' = h then v = (p, ty) else find_user t h' = Some v)" for h' v
  proof (cases v)
    case (Pair q ty')
    have l: "find_user t' h' = Some v \<longleftrightarrow> (\<exists>j < length (ut_handles t'). uh_type (ut_handles t' ! j) = Some ty' \<and>
        uh_ptr (ut_handles t' ! j) = Object q \<and> h' = make_handle j (uh_generation (ut_handles t' ! j)))"
      unfolding Pair by (rule find_user_iff [OF ok'])
    have r: "find_user t h' = Some v \<longleftrightarrow> (\<exists>j < length (ut_handles t). uh_type (ut_handles t ! j) = Some ty' \<and>
        uh_ptr (ut_handles t ! j) = Object q \<and> h' = make_handle j (uh_generation (ut_handles t ! j)))"
      unfolding Pair by (rule find_user_iff [OF ok])
    show ?thesis
    proof (cases "h' = h")
      case True
      have uniq: "j = i" if "j < length (ut_handles t')" "h = make_handle j (uh_generation (ut_handles t' ! j))" for j
        using that hd i(2) small [OF that(1)] by (simp add: make_handle_inject)
      show ?thesis
      proof
        assume "find_user t' h' = Some v"
        then obtain j where j: "j < length (ut_handles t')" "uh_type (ut_handles t' ! j) = Some ty'"
          "uh_ptr (ut_handles t' ! j) = Object q" "h = make_handle j (uh_generation (ut_handles t' ! j))"
          using l True by auto
        then show "if h' = h then v = (p, ty) else find_user t h' = Some v"
          using uniq [OF j(1,4)] i(3,4) True Pair by simp
      next
        assume "if h' = h then v = (p, ty) else find_user t h' = Some v"
        then have "ty' = ty" "q = p" using True Pair by simp_all
        then show "find_user t' h' = Some v" using l i(1,3,4) hd True by auto
      qed
    next
      case False
      have "find_user t' h' = Some v \<longleftrightarrow> find_user t h' = Some v"
        unfolding l r
      proof (intro iffI; elim exE conjE)
        fix j assume j: "j < length (ut_handles t')" "uh_type (ut_handles t' ! j) = Some ty'"
          "uh_ptr (ut_handles t' ! j) = Object q" "h' = make_handle j (uh_generation (ut_handles t' ! j))"
        then have "j \<noteq> i" using False hd by blast
        then show "\<exists>j < length (ut_handles t). uh_type (ut_handles t ! j) = Some ty' \<and>
            uh_ptr (ut_handles t ! j) = Object q \<and> h' = make_handle j (uh_generation (ut_handles t ! j))"
          using others [OF j(1)] j by auto
      next
        fix j assume j: "j < length (ut_handles t)" "uh_type (ut_handles t ! j) = Some ty'"
          "uh_ptr (ut_handles t ! j) = Object q" "h' = make_handle j (uh_generation (ut_handles t ! j))"
        then have "j \<noteq> i" "j < length (ut_handles t')" using free len by auto
        then show "\<exists>j < length (ut_handles t'). uh_type (ut_handles t' ! j) = Some ty' \<and>
            uh_ptr (ut_handles t' ! j) = Object q \<and> h' = make_handle j (uh_generation (ut_handles t' ! j))"
          using others [of j] j by auto
      qed
      then show ?thesis using False by simp
    qed
  qed
  show "find_user t' = (find_user t)(h \<mapsto> (p, ty))"
  proof
    fix h'
    have "((find_user t)(h \<mapsto> (p, ty))) h' = Some v \<longleftrightarrow> (if h' = h then v = (p, ty) else find_user t h' = Some v)" for v by auto
    then show "find_user t' h' = ((find_user t)(h \<mapsto> (p, ty))) h'" using iff by (intro option_eqI) blast
  qed
qed

lemma find_user_entry:
  assumes "user_ok t" and "find_user t h \<noteq> None"
  obtains i where "handle_to_entry t h = Some i" and "h = make_handle i (uh_generation (ut_handles t ! i))"
    and "i < length (ut_handles t)" and "uh_type (ut_handles t ! i) \<noteq> None"
proof -
  obtain v where v: "find_user t h = Some v" using assms(2) by blast
  obtain p ty where "v = (p, ty)" by (cases v)
  then obtain i where i: "i < length (ut_handles t)" "uh_type (ut_handles t ! i) = Some ty"
    "h = make_handle i (uh_generation (ut_handles t ! i))"
    using find_user_iff [OF assms(1)] v by blast
  then have "handle_to_entry t h = Some i"
    using handle_to_entry_make [OF assms(1) i(1)] by (simp add: entry_to_handle_def)
  then show thesis using that i by simp
qed

lemma free_user_entry_ok:
  assumes ok: "user_ok t" and i: "i < length (ut_handles t)" "uh_type (ut_handles t ! i) \<noteq> None"
  shows "user_ok (snd (free_user_entry t i))"
proof -
  let ?hs = "ut_handles t" and ?e = "(ut_handles t ! i)\<lparr>uh_ptr := Entry (ut_freelist t), uh_type := None\<rparr>"
  obtain fl where len: "length ?hs \<le> ut_allocated t" "ut_allocated t \<le> MAX_USER_HANDLES"
    and gens: "\<forall>e \<in> set ?hs. uh_generation e \<noteq> 0 \<and> uh_generation e \<noteq> 0xffff \<and> (uh_type e \<noteq> None \<longrightarrow> (\<exists>p. uh_ptr e = Object p))"
    and fl: "chain ?hs (ut_freelist t) fl" "distinct fl" "set fl = {i. i < length ?hs \<and> uh_type (?hs ! i) = None}"
    using ok unfolding user_ok_def by blast
  have "i \<notin> set fl" using fl(3) i(2) by simp
  then have "chain (?hs[i := ?e]) (Some i) (i # fl)" using chain_update [OF fl(1)] i(1) by simp
  moreover have "set (i # fl) = {j. j < length (?hs[i := ?e]) \<and> uh_type (?hs[i := ?e] ! j) = None}"
  proof -
    have "j \<in> set (i # fl) \<longleftrightarrow> j < length (?hs[i := ?e]) \<and> uh_type (?hs[i := ?e] ! j) = None" for j
      using fl(3) i(1) by (cases "j = i") simp_all
    then show ?thesis by blast
  qed
  moreover have "\<forall>e \<in> set (?hs[i := ?e]). uh_generation e \<noteq> 0 \<and> uh_generation e \<noteq> 0xffff \<and> (uh_type e \<noteq> None \<longrightarrow> (\<exists>p. uh_ptr e = Object p))"
    using gens i(1) set_update_subset_insert [of ?hs i ?e] by auto
  moreover have "ut_handles (snd (free_user_entry t i)) = ?hs[i := ?e]"
    "ut_freelist (snd (free_user_entry t i)) = Some i" "ut_allocated (snd (free_user_entry t i)) = ut_allocated t"
    by (simp_all add: free_user_entry_def)
  moreover have "distinct (i # fl)" using fl(2) \<open>i \<notin> set fl\<close> by simp
  ultimately show ?thesis
    using len by (intro user_okI [where fl = "i # fl"]) (simp_all only: length_list_update)
qed

lemma free_find_user:
  assumes ok: "user_ok t" and f: "find_user t h \<noteq> None"
  shows "user_ok (free_user t h)" and "find_user (free_user t h) = (find_user t)(h := None)"
proof -
  obtain i where i: "handle_to_entry t h = Some i" "h = make_handle i (uh_generation (ut_handles t ! i))"
    "i < length (ut_handles t)" "uh_type (ut_handles t ! i) \<noteq> None"
    using find_user_entry [OF assms] .
  define t' where "t' = snd (free_user_entry t i)"
  have t': "free_user t h = t'" using i(1) by (simp add: free_user_def free_user_handle_def t'_def split: prod.splits)
  have hs': "ut_handles t' = (ut_handles t)[i := (ut_handles t ! i)\<lparr>uh_ptr := Entry (ut_freelist t), uh_type := None\<rparr>]"
    by (simp add: t'_def free_user_entry_def)
  have ok': "user_ok t'" unfolding t'_def by (rule free_user_entry_ok [OF ok i(3,4)])
  then show "user_ok (free_user t h)" using t' by simp
  have small: "j < MAX_USER_HANDLES" if "j < length (ut_handles t)" for j using ok that by (simp add: user_ok_def)
  have "find_user t' h' = Some v \<longleftrightarrow> ((find_user t)(h := None)) h' = Some v" for h' v
  proof (cases v)
    case (Pair q ty')
    have same: "ut_handles t' ! j = ut_handles t ! j" if "j \<noteq> i" for j using that by (simp add: hs')
    have gone: "uh_type (ut_handles t' ! i) = None" using i(3) by (simp add: hs')
    have len: "length (ut_handles t') = length (ut_handles t)" by (simp add: hs')
    show ?thesis
    proof
      assume "find_user t' h' = Some v"
      then obtain j where j: "j < length (ut_handles t')" "uh_type (ut_handles t' ! j) = Some ty'"
        "uh_ptr (ut_handles t' ! j) = Object q" "h' = make_handle j (uh_generation (ut_handles t' ! j))"
        unfolding Pair find_user_iff [OF ok'] by blast
      then have "j \<noteq> i" using gone by auto
      then have "find_user t h' = Some v" "h' \<noteq> h"
        using j same len i(2,3) small [of j] small [OF i(3)] Pair
        by (auto simp: find_user_iff [OF ok] make_handle_inject)
      then show "((find_user t)(h := None)) h' = Some v" by simp
    next
      assume a: "((find_user t)(h := None)) h' = Some v"
      then have "h' \<noteq> h" and "find_user t h' = Some v" by (auto split: if_splits)
      then obtain j where j: "j < length (ut_handles t)" "uh_type (ut_handles t ! j) = Some ty'"
        "uh_ptr (ut_handles t ! j) = Object q" "h' = make_handle j (uh_generation (ut_handles t ! j))"
        unfolding Pair find_user_iff [OF ok] by blast
      then have "j \<noteq> i" using \<open>h' \<noteq> h\<close> i(2) by auto
      then show "find_user t' h' = Some v" unfolding Pair find_user_iff [OF ok'] using j same [of j] len by auto
    qed
  qed
  then show "find_user (free_user t h) = (find_user t)(h := None)" unfolding t' by (intro ext option_eqI) blast
qed

interpretation ut: handle_allocator user_ok find_user "alloc_user mem_ok" free_user for mem_ok
proof
  fix t v h t' assume ok: "user_ok t" and a: "alloc_user mem_ok t v = Some (h, t')"
  have h: "alloc_user_handle mem_ok t (fst v) (snd v) = (h, t')" "h \<noteq> 0"
    using a by (auto simp: alloc_user_def split: prod.splits if_splits)
  obtain i where i: "filled t t' i (fst v) (snd v)" "h = entry_to_handle t' i" "user_ok t'"
    using alloc_user_handle_fills [OF ok h] .
  show "user_ok t'" by (rule i(3))
  show "find_user t h = None" by (rule alloc_find_user(1) [OF ok i(3,1,2)])
  show "find_user t' = (find_user t)(h \<mapsto> v)" using alloc_find_user(2) [OF ok i(3,1,2)] by simp
qed (fact free_find_user)+

section \<open>Properties\<close>

definition sample_user_table :: user_table where
  "sample_user_table = \<lparr>ut_handles = [], ut_freelist = None, ut_allocated = 0\<rparr>"

lemma sample_user_table_ok: "user_ok sample_user_table"
  by (simp add: user_ok_def sample_user_table_def)



lemma alloc_user_handle_zero:
  assumes ok: "user_ok t" and alloc: "alloc_user_handle mem_ok t p ty = (0, t')"
  shows "t' = t"
proof (cases "alloc_user_entry mem_ok t")
  case None
  then show ?thesis using alloc by (simp add: alloc_user_handle_def)
next
  case (Some x)
  obtain i t1 where x: "x = (i, t1)" by (cases x)
  have len: "length (ut_handles t) \<le> ut_allocated t" "ut_allocated t \<le> MAX_USER_HANDLES"
    using ok by (simp_all add: user_ok_def)
  have "i < MAX_USER_HANDLES"
  proof (cases "ut_freelist t")
    case (Some i')
    obtain fl where "chain (ut_handles t) (Some i') fl" using ok Some unfolding user_ok_def by auto
    then have "i' < length (ut_handles t)" using chain_Some by blast
    then show ?thesis using \<open>alloc_user_entry mem_ok t = Some x\<close> x Some len by (simp add: alloc_user_entry_def)
  next
    case None
    then show ?thesis
      using \<open>alloc_user_entry mem_ok t = Some x\<close> x len
      by (auto simp: alloc_user_entry_def Let_def split: if_splits)
  qed
  then have "make_handle i g \<noteq> 0" for g using make_handle_unat [of i g] by auto
  moreover have "\<exists>g. make_handle i g = 0"
    using alloc Some x by (auto simp: alloc_user_handle_def entry_to_handle_def Let_def)
  ultimately show ?thesis by blast
qed


lemma sample_user_alloc:
  "\<exists>t. alloc_user_handle (\<lambda>_. True) sample_user_table 7 USER_WINDOW = (0x10020, t) \<and> user_ok t \<and>
     find_user t 0x10020 = Some (7, USER_WINDOW)"
proof -
  obtain h t where a: "alloc_user_handle (\<lambda>_. True) sample_user_table 7 USER_WINDOW = (h, t)" by fastforce
  then have h: "h = 0x10020"
    by (auto simp: alloc_user_handle_def alloc_user_entry_def sample_user_table_def Let_def new_entry_def
        entry_to_handle_def make_handle_def next_generation_def)
  then have "h \<noteq> 0" by simp
  obtain i where "filled sample_user_table t i 7 USER_WINDOW" "h = entry_to_handle t i" "user_ok t"
    using alloc_user_handle_fills [OF sample_user_table_ok a \<open>h \<noteq> 0\<close>] .
  then show ?thesis using alloc_find_user(2) [OF sample_user_table_ok] a h by auto
qed


lemma free_process_entries_ok:
  assumes "user_ok t" and "set is \<subseteq> {..< length (ut_handles t)}" and "distinct is"
  shows "user_ok (free_process_entries process is t) \<and>
    length (ut_handles (free_process_entries process is t)) = length (ut_handles t) \<and>
    (\<forall>i < length (ut_handles t).
       if i \<in> set is \<and> uh_type (ut_handles t ! i) = Some USER_CLIENT \<and> uh_ptr (ut_handles t ! i) = Object process
       then uh_type (ut_handles (free_process_entries process is t) ! i) = None
       else ut_handles (free_process_entries process is t) ! i = ut_handles t ! i)"
  using assms
proof (induction "is" arbitrary: t)
  case (Cons i "is")
  let ?c = "uh_type (ut_handles t ! i) = Some USER_CLIENT \<and> uh_ptr (ut_handles t ! i) = Object process"
  define t1 where "t1 = (if ?c then snd (free_user_entry t i) else t)"
  have i: "i < length (ut_handles t)" "i \<notin> set is" "set is \<subseteq> {..< length (ut_handles t)}" "distinct is"
    using Cons.prems by auto
  have ok1: "user_ok t1" using free_user_entry_ok [OF Cons.prems(1) i(1)] Cons.prems(1) by (simp add: t1_def)
  have len1: "length (ut_handles t1) = length (ut_handles t)" by (simp add: t1_def free_user_entry_def)
  have at: "uh_type (ut_handles t1 ! i) = None" if ?c using that i(1) by (simp add: t1_def free_user_entry_def)
  have same: "ut_handles t1 ! j = ut_handles t ! j" if "j \<noteq> i \<or> \<not> ?c" for j
    using that by (auto simp: t1_def free_user_entry_def)
  have IH: "user_ok (free_process_entries process is t1) \<and>
      length (ut_handles (free_process_entries process is t1)) = length (ut_handles t1) \<and>
      (\<forall>j < length (ut_handles t1).
         if j \<in> set is \<and> uh_type (ut_handles t1 ! j) = Some USER_CLIENT \<and> uh_ptr (ut_handles t1 ! j) = Object process
         then uh_type (ut_handles (free_process_entries process is t1) ! j) = None
         else ut_handles (free_process_entries process is t1) ! j = ut_handles t1 ! j)"
    using Cons.IH [OF ok1] i len1 by simp
  have step: "free_process_entries process (i # is) t = free_process_entries process is t1" by (simp add: t1_def)
  show ?case
    unfolding step
  proof (intro conjI allI impI)
    fix j assume j: "j < length (ut_handles t)"
    show "if j \<in> set (i # is) \<and> uh_type (ut_handles t ! j) = Some USER_CLIENT \<and> uh_ptr (ut_handles t ! j) = Object process
       then uh_type (ut_handles (free_process_entries process is t1) ! j) = None
       else ut_handles (free_process_entries process is t1) ! j = ut_handles t ! j"
      using IH [THEN conjunct2, THEN conjunct2, rule_format, of j] j len1 same [of j] at i(2)
      by (cases "j = i") (auto split: if_splits)
  qed (use IH len1 in simp_all)
qed simp

text \<open>
  When a process exits, exactly its client handles go: every other full handle denotes
  what it did, and the table stays well-formed although the loop links entries into the free
  list while it walks the array.
\<close>

theorem free_process_user_handles_correct:
  assumes ok: "user_ok t"
  shows "user_ok (free_process_user_handles t process) \<and>
    find_user (free_process_user_handles t process) h =
      (if find_user t h = Some (process, USER_CLIENT) then None else find_user t h)"
proof -
  let ?t' = "free_process_user_handles t process"
  have f: "user_ok ?t'" "length (ut_handles ?t') = length (ut_handles t)"
    "\<And>i. i < length (ut_handles t) \<Longrightarrow>
       if uh_type (ut_handles t ! i) = Some USER_CLIENT \<and> uh_ptr (ut_handles t ! i) = Object process
       then uh_type (ut_handles ?t' ! i) = None else ut_handles ?t' ! i = ut_handles t ! i"
    using free_process_entries_ok [OF ok, of "[0..<length (ut_handles t)]" process]
    by (auto simp: free_process_user_handles_def atLeast0LessThan)
  have small: "i < MAX_USER_HANDLES" if "i < length (ut_handles t)" for i using ok that by (simp add: user_ok_def)
  have "find_user ?t' h = Some (p, ty) \<longleftrightarrow> find_user t h = Some (p, ty) \<and> (p, ty) \<noteq> (process, USER_CLIENT)" for p ty
  proof
    assume "find_user ?t' h = Some (p, ty)"
    then obtain i where i: "i < length (ut_handles t)" "uh_type (ut_handles ?t' ! i) = Some ty"
      "uh_ptr (ut_handles ?t' ! i) = Object p" "h = make_handle i (uh_generation (ut_handles ?t' ! i))"
      unfolding find_user_iff [OF f(1)] f(2) by blast
    then show "find_user t h = Some (p, ty) \<and> (p, ty) \<noteq> (process, USER_CLIENT)"
      using f(3) [OF i(1)] unfolding find_user_iff [OF ok] by (auto split: if_splits)
  next
    assume a: "find_user t h = Some (p, ty) \<and> (p, ty) \<noteq> (process, USER_CLIENT)"
    then obtain i where i: "i < length (ut_handles t)" "uh_type (ut_handles t ! i) = Some ty"
      "uh_ptr (ut_handles t ! i) = Object p" "h = make_handle i (uh_generation (ut_handles t ! i))"
      unfolding find_user_iff [OF ok] by blast
    then show "find_user ?t' h = Some (p, ty)"
      using f(3) [OF i(1)] a unfolding find_user_iff [OF f(1)] f(2) by (auto split: if_splits)
  qed
  then have iff: "find_user ?t' h = Some v \<longleftrightarrow> find_user t h = Some v \<and> v \<noteq> (process, USER_CLIENT)" for v
    by (cases v) blast
  have "find_user ?t' h = (if find_user t h = Some (process, USER_CLIENT) then None else find_user t h)"
    by (rule option_eqI) (use iff in \<open>auto split: if_splits\<close>)
  then show ?thesis using f(1) by simp
qed

theorem free_process_user_handles_correct_witness:
  "\<exists>t. find_user t 0x10020 = Some (7, USER_WINDOW) \<and> find_user (free_process_user_handles t 7) 0x10020 = Some (7, USER_WINDOW)"
proof -
  obtain t where t: "user_ok t" "find_user t 0x10020 = Some (7, USER_WINDOW)" using sample_user_alloc by blast
  from free_process_user_handles_correct [OF t(1), of 7 "0x10020"] t(2) show ?thesis by auto
qed

end
