(* ===== verification/Atom_Table.thy ===== *)
theory Atom_Table
  imports Unicode
begin

text \<open>
  Atom tables (\<^verbatim>\<open>server/atom.c\<close>): reference-counted names with 16-bit handles, found
  through a hash table without regard to case.

  An entry is identified by its index in the handle array; the used part of the array is a
  list and its allocated size a number. A hash chain, linked in both directions in the code,
  is the list of the indices of its entries. The parameter \<open>mem\<close> says which allocations
  succeed, \<open>cm\<close> is the case table. Reference counts are unbounded here; the code's counter
  has 32 bits.
\<close>

abbreviation "HASH_SIZE \<equiv> 37 :: nat"
abbreviation "MIN_HASH_SIZE \<equiv> 4 :: nat"
abbreviation "MAX_HASH_SIZE \<equiv> 0x200 :: nat"
abbreviation "MAX_ATOM_LEN \<equiv> 255 :: nat"
abbreviation "MIN_STR_ATOM \<equiv> 0xc000 :: nat"
abbreviation "MAX_ATOMS \<equiv> 0x4000 :: nat"

type_synonym atom = nat

section \<open>Model\<close>

record atom_entry =
  ae_count :: nat
  ae_pinned :: bool
  ae_atom :: atom
  ae_hash :: nat
  ae_str :: "wchar list"

record atom_table =
  at_count :: nat
  at_handles :: "atom_entry option list"
  at_entries :: "nat list list"

definition create_table :: "(nat \<Rightarrow> bool) \<Rightarrow> nat \<Rightarrow> atom_table option" where
  "create_table mem entries_count =
     (let n = (if entries_count < MIN_HASH_SIZE \<or> entries_count > MAX_HASH_SIZE then HASH_SIZE else entries_count)
      in if \<not> mem n then None
         else if \<not> mem 64 then None
         else Some \<lparr>at_count = 64, at_handles = [], at_entries = replicate n []\<rparr>)"

definition get_atom_entry :: "atom_table option \<Rightarrow> atom \<Rightarrow> atom_entry result" where
  "get_atom_entry table atom =
     (case table of
        None \<Rightarrow> Inl STATUS_INVALID_HANDLE
      | Some t \<Rightarrow>
          if atom \<ge> MIN_STR_ATOM \<and> atom < MIN_STR_ATOM + length (at_handles t)
          then (case at_handles t ! (atom - MIN_STR_ATOM) of
                  None \<Rightarrow> Inl STATUS_INVALID_HANDLE
                | Some e \<Rightarrow> Inr e)
          else Inl STATUS_INVALID_HANDLE)"

text \<open>The index of the entry is returned; the entry is stored with its atom.\<close>

definition add_atom_entry :: "(nat \<Rightarrow> bool) \<Rightarrow> atom_table \<Rightarrow> atom_entry \<Rightarrow> (nat \<times> atom_table) result" where
  "add_atom_entry mem t entry =
     (let i = scan (\<lambda>i. at_handles t ! i = None) 0 (length (at_handles t));
          e = entry\<lparr>ae_atom := i + MIN_STR_ATOM\<rparr>
      in if i < length (at_handles t) then Inr (i, t\<lparr>at_handles := (at_handles t)[i := Some e]\<rparr>)
         else if i = at_count t then
           (let size0 = at_count t + at_count t div 2;
                new_size = (if size0 > MAX_ATOMS then MAX_ATOMS else size0)
            in if new_size > at_count t \<and> mem new_size
               then Inr (i, t\<lparr>at_count := new_size, at_handles := at_handles t @ [Some e]\<rparr>)
               else Inl STATUS_NO_MEMORY)
         else Inr (i, t\<lparr>at_handles := at_handles t @ [Some e]\<rparr>))"

definition find_atom_entry :: "casemap \<Rightarrow> atom_table \<Rightarrow> wchar list \<Rightarrow> nat \<Rightarrow> nat option" where
  "find_atom_entry cm t str hash =
     find (\<lambda>i. case at_handles t ! i of
                 None \<Rightarrow> False
               | Some e \<Rightarrow> length (ae_str e) = length str \<and> memicmp_strW cm (ae_str e) str (length str) = 0)
       (at_entries t ! hash)"

definition name_hash :: "casemap \<Rightarrow> atom_table \<Rightarrow> wchar list \<Rightarrow> nat" where
  "name_hash cm t str = unat (hash_strW cm str (of_nat (length (at_entries t))))"

definition add_atom :: "(nat \<Rightarrow> bool) \<Rightarrow> casemap \<Rightarrow> atom_table \<Rightarrow> wchar list \<Rightarrow> atom result \<times> atom_table" where
  "add_atom mem cm t str =
     (let hash = name_hash cm t str
      in if length str = 0 then (Inl STATUS_OBJECT_NAME_INVALID, t)
         else if length str > MAX_ATOM_LEN then (Inl STATUS_INVALID_PARAMETER, t)
         else case find_atom_entry cm t str hash of
                Some i \<Rightarrow>
                  (let e = the (at_handles t ! i)
                   in (Inr (ae_atom e),
                       t\<lparr>at_handles := (at_handles t)[i := Some (e\<lparr>ae_count := ae_count e + 1\<rparr>)]\<rparr>))
              | None \<Rightarrow>
                  if \<not> mem (length str) then (Inl STATUS_NO_MEMORY, t)
                  else case add_atom_entry mem t \<lparr>ae_count = 1, ae_pinned = False, ae_atom = 0,
                              ae_hash = hash, ae_str = str\<rparr> of
                         Inl err \<Rightarrow> (Inl err, t)
                       | Inr (i, t') \<Rightarrow>
                           (Inr (i + MIN_STR_ATOM),
                            t'\<lparr>at_entries := (at_entries t')[hash := i # at_entries t' ! hash]\<rparr>))"

definition delete_atom :: "atom_table \<Rightarrow> atom \<Rightarrow> bool \<Rightarrow> ntstatus \<times> atom_table" where
  "delete_atom t atom if_pinned =
     (case get_atom_entry (Some t) atom of
        Inl err \<Rightarrow> (err, t)
      | Inr e \<Rightarrow>
          let i = atom - MIN_STR_ATOM
          in if ae_pinned e \<and> \<not> if_pinned then (STATUS_WAS_LOCKED, t)
             else if ae_count e - 1 = 0
             then (STATUS_SUCCESS,
                   t\<lparr>at_handles := (at_handles t)[i := None],
                     at_entries := (at_entries t)[ae_hash e := remove1 i (at_entries t ! ae_hash e)]\<rparr>)
             else (STATUS_SUCCESS,
                   t\<lparr>at_handles := (at_handles t)[i := Some (e\<lparr>ae_count := ae_count e - 1\<rparr>)]\<rparr>))"

definition find_atom :: "casemap \<Rightarrow> atom_table option \<Rightarrow> wchar list \<Rightarrow> atom result" where
  "find_atom cm table str =
     (if length str = 0 then Inl STATUS_OBJECT_NAME_INVALID
      else if length str > MAX_ATOM_LEN then Inl STATUS_INVALID_PARAMETER
      else case table of
             None \<Rightarrow> Inl STATUS_OBJECT_NAME_NOT_FOUND
           | Some t \<Rightarrow>
               (case find_atom_entry cm t str (name_hash cm t str) of
                  None \<Rightarrow> Inl STATUS_OBJECT_NAME_NOT_FOUND
                | Some i \<Rightarrow> Inr (ae_atom (the (at_handles t ! i)))))"

text \<open>
  The tables of the window stations and the global one. When the global table cannot be
  created, the code still marks the null pointer as permanent.
\<close>

record atom_state =
  as_global :: "atom_table option"
  as_winstation :: "nat \<Rightarrow> atom_table option"

definition table_of :: "atom_state \<Rightarrow> nat option \<Rightarrow> atom_table option" where
  "table_of s ws = (case ws of None \<Rightarrow> as_global s | Some w \<Rightarrow> as_winstation s w)"

definition put_table :: "atom_state \<Rightarrow> nat option \<Rightarrow> atom_table option \<Rightarrow> atom_state" where
  "put_table s ws t = (case ws of None \<Rightarrow> s\<lparr>as_global := t\<rparr> | Some w \<Rightarrow> s\<lparr>as_winstation := (as_winstation s)(w := t)\<rparr>)"

definition get_global_table :: "(nat \<Rightarrow> bool) \<Rightarrow> atom_state \<Rightarrow> nat option \<Rightarrow> bool \<Rightarrow> atom_table outcome \<times> atom_state" where
  "get_global_table mem s ws create =
     (case table_of s ws of
        Some t \<Rightarrow> (Ok t, s)
      | None \<Rightarrow>
          if create then
            (case create_table mem HASH_SIZE of
               Some t \<Rightarrow> (Ok t, put_table s ws (Some t))
             | None \<Rightarrow> (if ws = None then Fault else Err STATUS_NO_MEMORY, s))
          else (Err STATUS_OBJECT_NAME_NOT_FOUND, s))"

definition add_global_atom :: "(nat \<Rightarrow> bool) \<Rightarrow> casemap \<Rightarrow> atom_state \<Rightarrow> nat option \<Rightarrow> wchar list
    \<Rightarrow> atom outcome \<times> atom_state" where
  "add_global_atom mem cm s ws str =
     (case get_global_table mem s ws True of
        (Ok t, s1) \<Rightarrow>
          (case add_atom mem cm t str of
             (Inl err, t') \<Rightarrow> (Err err, put_table s1 ws (Some t'))
           | (Inr a, t') \<Rightarrow> (Ok a, put_table s1 ws (Some t')))
      | (Err st, s1) \<Rightarrow> (Err st, s1)
      | (Fault, s1) \<Rightarrow> (Fault, s1))"

definition find_global_atom :: "casemap \<Rightarrow> atom_state \<Rightarrow> nat option \<Rightarrow> wchar list \<Rightarrow> atom" where
  "find_global_atom cm s ws str =
     (case table_of s ws of
        None \<Rightarrow> 0
      | Some t \<Rightarrow>
          if length str = 0 \<or> length str > MAX_ATOM_LEN then 0
          else case find_atom_entry cm t str (name_hash cm t str) of
                 None \<Rightarrow> 0
               | Some i \<Rightarrow> ae_atom (the (at_handles t ! i)))"

definition grab_global_atom :: "atom_state \<Rightarrow> nat option \<Rightarrow> atom \<Rightarrow> bool \<times> atom_state" where
  "grab_global_atom s ws atom =
     (if atom \<ge> MIN_STR_ATOM then
        (case table_of s ws of
           None \<Rightarrow> (False, s)
         | Some t \<Rightarrow>
             (case get_atom_entry (Some t) atom of
                Inl _ \<Rightarrow> (False, s)
              | Inr e \<Rightarrow>
                  (True, put_table s ws (Some (t\<lparr>at_handles :=
                     (at_handles t)[atom - MIN_STR_ATOM := Some (e\<lparr>ae_count := ae_count e + 1\<rparr>)]\<rparr>)))))
      else (True, s))"

definition release_global_atom :: "atom_state \<Rightarrow> nat option \<Rightarrow> atom \<Rightarrow> atom_state" where
  "release_global_atom s ws atom =
     (if atom \<ge> MIN_STR_ATOM then
        (case table_of s ws of
           None \<Rightarrow> s
         | Some t \<Rightarrow> put_table s ws (Some (snd (delete_atom t atom True))))
      else s)"

section \<open>Request handlers\<close>

definition add_atom_req :: "(nat \<Rightarrow> bool) \<Rightarrow> casemap \<Rightarrow> atom_state \<Rightarrow> wchar list \<Rightarrow> atom outcome \<times> atom_state" where
  "add_atom_req mem cm s name =
     (case get_global_table mem s None True of
        (Ok t, s1) \<Rightarrow>
          (case add_atom mem cm t name of
             (Inl err, t') \<Rightarrow> (Err err, put_table s1 None (Some t'))
           | (Inr a, t') \<Rightarrow> (Ok a, put_table s1 None (Some t')))
      | (Err st, s1) \<Rightarrow> (Err st, s1)
      | (Fault, s1) \<Rightarrow> (Fault, s1))"

definition delete_atom_req :: "atom_state \<Rightarrow> atom \<Rightarrow> ntstatus \<times> atom_state" where
  "delete_atom_req s atom =
     (case as_global s of
        None \<Rightarrow> (STATUS_OBJECT_NAME_NOT_FOUND, s)
      | Some t \<Rightarrow> (case delete_atom t atom False of (st, t') \<Rightarrow> (st, put_table s None (Some t'))))"

definition find_atom_req :: "casemap \<Rightarrow> atom_state \<Rightarrow> wchar list \<Rightarrow> atom result" where
  "find_atom_req cm s name =
     (case as_global s of
        None \<Rightarrow> Inl STATUS_OBJECT_NAME_NOT_FOUND
      | Some t \<Rightarrow> find_atom cm (Some t) name)"

text \<open>The name cut to the size of the reply, with the count, the pinned flag and the full length in bytes.\<close>

definition get_atom_information :: "atom_state \<Rightarrow> atom \<Rightarrow> nat \<Rightarrow> (wchar list \<times> nat \<times> bool \<times> nat) result" where
  "get_atom_information s atom reply_max =
     (case as_global s of
        None \<Rightarrow> Inl STATUS_OBJECT_NAME_NOT_FOUND
      | Some t \<Rightarrow>
          (case get_atom_entry (Some t) atom of
             Inl err \<Rightarrow> Inl err
           | Inr e \<Rightarrow>
               Inr (take (min (2 * length (ae_str e)) reply_max div 2) (ae_str e),
                    ae_count e, ae_pinned e, 2 * length (ae_str e))))"

section \<open>Invariant and abstraction\<close>

definition entry_at :: "atom_table \<Rightarrow> nat \<Rightarrow> atom_entry option" where
  "entry_at t i = (if i < length (at_handles t) then at_handles t ! i else None)"

definition entry_ok :: "casemap \<Rightarrow> atom_table \<Rightarrow> nat \<Rightarrow> atom_entry \<Rightarrow> bool" where
  "entry_ok cm t i e \<longleftrightarrow> ae_atom e = i + MIN_STR_ATOM \<and> 0 < ae_count e \<and> \<not> ae_pinned e \<and>
     ae_hash e = name_hash cm t (ae_str e)"

definition atom_ok :: "casemap \<Rightarrow> atom_table \<Rightarrow> bool" where
  "atom_ok cm t \<longleftrightarrow>
     0 < length (at_entries t) \<and> length (at_entries t) \<le> MAX_HASH_SIZE \<and>
     length (at_handles t) \<le> at_count t \<and> at_count t \<le> MAX_ATOMS \<and>
     (\<forall>i e. entry_at t i = Some e \<longrightarrow> entry_ok cm t i e) \<and>
     (\<forall>b < length (at_entries t). distinct (at_entries t ! b) \<and>
        (\<forall>i. i \<in> set (at_entries t ! b) \<longleftrightarrow> (\<exists>e. entry_at t i = Some e \<and> ae_hash e = b))) \<and>
     (\<forall>i j e e'. entry_at t i = Some e \<and> entry_at t j = Some e' \<and> folded cm (ae_str e) = folded cm (ae_str e') \<longrightarrow> i = j)"

text \<open>The table as a map from folded names to their atom and reference count.\<close>

definition atom_map :: "casemap \<Rightarrow> atom_table \<Rightarrow> wchar list \<rightharpoonup> atom \<times> nat" where
  "atom_map cm t = map_of (concat (map (\<lambda>x. case x of None \<Rightarrow> []
     | Some e \<Rightarrow> [(folded cm (ae_str e), (ae_atom e, ae_count e))]) (at_handles t)))"

lemma entry_in_handles: "Some e \<in> set (at_handles t) \<longleftrightarrow> (\<exists>i. entry_at t i = Some e)"
  by (auto simp: entry_at_def in_set_conv_nth split: if_splits)

lemma atom_map_iff:
  assumes "atom_ok cm t"
  shows "atom_map cm t n = Some v \<longleftrightarrow> (\<exists>i e. entry_at t i = Some e \<and> folded cm (ae_str e) = n \<and> v = (ae_atom e, ae_count e))"
proof -
  let ?l = "concat (map (\<lambda>x. case x of None \<Rightarrow> []
     | Some e \<Rightarrow> [(folded cm (ae_str e), (ae_atom e, ae_count e))]) (at_handles t))"
  have mem: "(n, v) \<in> set ?l \<longleftrightarrow> (\<exists>i e. entry_at t i = Some e \<and> folded cm (ae_str e) = n \<and> v = (ae_atom e, ae_count e))" for v
  proof -
    have "(n, v) \<in> set ?l \<longleftrightarrow> (\<exists>e. Some e \<in> set (at_handles t) \<and> folded cm (ae_str e) = n \<and> v = (ae_atom e, ae_count e))"
      by (force split: option.splits)
    then show ?thesis using entry_in_handles by blast
  qed
  have uniq: "v = v'" if "(n, v) \<in> set ?l" "(n, v') \<in> set ?l" for v v'
    using that assms unfolding mem atom_ok_def by (metis option.inject)
  show ?thesis
  proof
    assume "atom_map cm t n = Some v"
    then have "(n, v) \<in> set ?l" unfolding atom_map_def by (rule map_of_SomeD)
    then show "\<exists>i e. entry_at t i = Some e \<and> folded cm (ae_str e) = n \<and> v = (ae_atom e, ae_count e)"
      using mem by blast
  next
    assume "\<exists>i e. entry_at t i = Some e \<and> folded cm (ae_str e) = n \<and> v = (ae_atom e, ae_count e)"
    then have v: "(n, v) \<in> set ?l" using mem by blast
    then obtain v' where v': "map_of ?l n = Some v'" using weak_map_of_SomeI by fast
    then show "atom_map cm t n = Some v" using uniq [OF v map_of_SomeD [OF v']] by (simp add: atom_map_def)
  qed
qed

lemma name_hash_bounded: "atom_ok cm t \<Longrightarrow> name_hash cm t str < length (at_entries t)"
proof -
  assume ok: "atom_ok cm t"
  let ?n = "length (at_entries t)"
  have n: "0 < ?n" "?n \<le> MAX_HASH_SIZE" using ok by (simp_all add: atom_ok_def)
  then have u: "unat (of_nat ?n :: u32) = ?n" by (simp add: unat_of_nat)
  then have "0 < (of_nat ?n :: u32)" using n by (simp add: word_less_nat_alt)
  then have "hash_strW cm str (of_nat ?n) < of_nat ?n" by (rule hash_strW_bounded)
  then show ?thesis using u by (simp add: name_hash_def word_less_nat_alt)
qed

lemma name_hash_folded: "folded cm s = folded cm s' \<Longrightarrow> name_hash cm t s = name_hash cm t s'"
  by (simp add: name_hash_def folded_def hash_strW_lower)

text \<open>The search along the hash chain finds the entry of a name whenever there is one.\<close>

lemma find_atom_entry_Some:
  assumes ok: "atom_ok cm t" and f: "find_atom_entry cm t str (name_hash cm t str) = Some i"
  obtains e where "entry_at t i = Some e" and "folded cm (ae_str e) = folded cm str"
proof -
  have "i \<in> set (at_entries t ! name_hash cm t str)"
    and e: "case at_handles t ! i of None \<Rightarrow> False
      | Some e \<Rightarrow> length (ae_str e) = length str \<and> memicmp_strW cm (ae_str e) str (length str) = 0"
    using f by (auto simp: find_atom_entry_def find_Some_iff in_set_conv_nth)
  then obtain e where e': "entry_at t i = Some e" using ok name_hash_bounded [OF ok] unfolding atom_ok_def by blast
  then have "at_handles t ! i = Some e" by (simp add: entry_at_def split: if_splits)
  then have "length (ae_str e) = length str" "memicmp_strW cm (ae_str e) str (length (ae_str e)) = 0" using e by simp_all
  then have "folded cm (ae_str e) = folded cm str" using memicmp_strW_eq_0_iff by (simp add: folded_def)
  then show thesis using that e' by blast
qed

lemma find_atom_entry_None:
  assumes ok: "atom_ok cm t" and f: "find_atom_entry cm t str (name_hash cm t str) = None" and e: "entry_at t i = Some e"
  shows "folded cm (ae_str e) \<noteq> folded cm str"
proof
  assume eq: "folded cm (ae_str e) = folded cm str"
  have "ae_hash e = name_hash cm t str" using ok e name_hash_folded [OF eq] by (auto simp: atom_ok_def entry_ok_def)
  then have "i \<in> set (at_entries t ! name_hash cm t str)" using ok e name_hash_bounded [OF ok] unfolding atom_ok_def by blast
  moreover have "at_handles t ! i = Some e" using e by (simp add: entry_at_def split: if_splits)
  moreover have len: "length (ae_str e) = length str" using eq unfolding folded_def by (metis length_map)
  moreover have "memicmp_strW cm (ae_str e) str (length (ae_str e)) = 0"
    using memicmp_strW_eq_0_iff [OF len] eq by (simp add: folded_def)
  ultimately show False using f by (force simp: find_atom_entry_def find_None_iff)
qed

text \<open>The three ways in which an operation changes a table, seen through its entries.\<close>

lemma entry_at_update:
  "entry_at (t\<lparr>at_handles := (at_handles t)[i := x], at_entries := b\<rparr>) j =
     (if j = i \<and> i < length (at_handles t) then x else entry_at t j)"
  by (simp add: entry_at_def)

lemma entry_at_handles: "entry_at (t\<lparr>at_entries := b\<rparr>) = entry_at t" "entry_at (t\<lparr>at_count := c\<rparr>) = entry_at t"
  by (simp_all add: entry_at_def fun_eq_iff)

lemma entry_at_append:
  "entry_at (t\<lparr>at_handles := at_handles t @ [x]\<rparr>) j = (if j = length (at_handles t) then x else entry_at t j)"
  by (auto simp: entry_at_def nth_append)

lemma name_hash_cong: "length (at_entries t') = length (at_entries t) \<Longrightarrow> name_hash cm t' = name_hash cm t"
  by (simp add: name_hash_def fun_eq_iff)

lemma atom_map_upd:
  assumes ok: "atom_ok cm t" and ok': "atom_ok cm t'"
    and e: "entry_at t' = (entry_at t)(i := Some e)"
    and old: "\<And>e0. entry_at t i = Some e0 \<Longrightarrow> folded cm (ae_str e0) = folded cm (ae_str e)"
  shows "atom_map cm t' = (atom_map cm t)(folded cm (ae_str e) \<mapsto> (ae_atom e, ae_count e))"
proof
  fix n
  have uniq: "j = i" if "entry_at t' j = Some e'" "folded cm (ae_str e') = folded cm (ae_str e)" for j e'
    using ok' that e unfolding atom_ok_def by (metis fun_upd_same)
  show "atom_map cm t' n = ((atom_map cm t)(folded cm (ae_str e) \<mapsto> (ae_atom e, ae_count e))) n"
  proof (cases "n = folded cm (ae_str e)")
    case True
    have "atom_map cm t' n = Some (ae_atom e, ae_count e)"
      unfolding atom_map_iff [OF ok'] using True e by (intro exI [of _ i] exI [of _ e]) simp
    then show ?thesis using True by simp
  next
    case False
    have "atom_map cm t' n = Some v \<longleftrightarrow> atom_map cm t n = Some v" for v
    proof
      assume "atom_map cm t' n = Some v"
      then obtain j e' where j: "entry_at t' j = Some e'" "folded cm (ae_str e') = n" "v = (ae_atom e', ae_count e')"
        unfolding atom_map_iff [OF ok'] by blast
      then have "j \<noteq> i" using False e by auto
      then show "atom_map cm t n = Some v" unfolding atom_map_iff [OF ok] using j e by (metis fun_upd_other)
    next
      assume "atom_map cm t n = Some v"
      then obtain j e' where j: "entry_at t j = Some e'" "folded cm (ae_str e') = n" "v = (ae_atom e', ae_count e')"
        unfolding atom_map_iff [OF ok] by blast
      then have "j \<noteq> i" using False old by auto
      then show "atom_map cm t' n = Some v" unfolding atom_map_iff [OF ok'] using j e by (metis fun_upd_other)
    qed
    then have "atom_map cm t' n = atom_map cm t n" by (metis not_Some_eq)
    then show ?thesis using False by simp
  qed
qed

lemma atom_okI:
  assumes "0 < length (at_entries t)" "length (at_entries t) \<le> MAX_HASH_SIZE"
    and "length (at_handles t) \<le> at_count t" "at_count t \<le> MAX_ATOMS"
    and "\<And>i e. entry_at t i = Some e \<Longrightarrow> entry_ok cm t i e"
    and "\<And>b. b < length (at_entries t) \<Longrightarrow> distinct (at_entries t ! b)"
    and "\<And>b i. b < length (at_entries t) \<Longrightarrow>
      i \<in> set (at_entries t ! b) \<longleftrightarrow> (\<exists>e. entry_at t i = Some e \<and> ae_hash e = b)"
    and "\<And>i j e e'. entry_at t i = Some e \<Longrightarrow> entry_at t j = Some e' \<Longrightarrow>
      folded cm (ae_str e) = folded cm (ae_str e') \<Longrightarrow> i = j"
  shows "atom_ok cm t"
  unfolding atom_ok_def using assms by blast

lemma atom_okD:
  assumes "atom_ok cm t"
  shows "0 < length (at_entries t)" "length (at_entries t) \<le> MAX_HASH_SIZE"
    and "length (at_handles t) \<le> at_count t" "at_count t \<le> MAX_ATOMS"
    and "entry_at t i = Some e \<Longrightarrow> entry_ok cm t i e"
    and "b < length (at_entries t) \<Longrightarrow> distinct (at_entries t ! b)"
    and "b < length (at_entries t) \<Longrightarrow> i \<in> set (at_entries t ! b) \<longleftrightarrow> (\<exists>e. entry_at t i = Some e \<and> ae_hash e = b)"
    and "entry_at t i = Some e \<Longrightarrow> entry_at t j = Some e' \<Longrightarrow> folded cm (ae_str e) = folded cm (ae_str e') \<Longrightarrow> i = j"
  using assms unfolding atom_ok_def by blast+

text \<open>A change of the reference count.\<close>

lemma recount_ok:
  assumes ok: "atom_ok cm t" and e: "entry_at t i = Some e" and c: "0 < c"
  defines "t' \<equiv> t\<lparr>at_handles := (at_handles t)[i := Some (e\<lparr>ae_count := c\<rparr>)]\<rparr>"
  shows "atom_ok cm t'" and "atom_map cm t' = (atom_map cm t)(folded cm (ae_str e) \<mapsto> (ae_atom e, c))"
    and "entry_at t' = (entry_at t)(i := Some (e\<lparr>ae_count := c\<rparr>))"
proof -
  have i: "i < length (at_handles t)" using e by (simp add: entry_at_def split: if_splits)
  show e': "entry_at t' = (entry_at t)(i := Some (e\<lparr>ae_count := c\<rparr>))"
    using i by (auto simp: t'_def entry_at_def)
  have same: "at_entries t' = at_entries t" "length (at_handles t') = length (at_handles t)" "at_count t' = at_count t"
    by (simp_all add: t'_def)
  have old: "\<exists>e0. entry_at t j = Some e0 \<and> ae_str e0 = ae_str e1 \<and> ae_hash e0 = ae_hash e1" if "entry_at t' j = Some e1" for j e1
    using that e by (cases "j = i") (auto simp: e')
  show ok': "atom_ok cm t'"
  proof (rule atom_okI)
    fix j e1 assume j: "entry_at t' j = Some e1"
    show "entry_ok cm t' j e1"
      using atom_okD(5) [OF ok e] atom_okD(5) [OF ok, of j e1] j c name_hash_cong [of t' t cm]
      by (cases "j = i") (auto simp: entry_ok_def e' same)
  next
    fix b j assume b: "b < length (at_entries t')"
    have "(\<exists>e1. entry_at t' j = Some e1 \<and> ae_hash e1 = b) \<longleftrightarrow> (\<exists>e1. entry_at t j = Some e1 \<and> ae_hash e1 = b)"
      using e by (cases "j = i") (auto simp: e')
    then show "j \<in> set (at_entries t' ! b) \<longleftrightarrow> (\<exists>e. entry_at t' j = Some e \<and> ae_hash e = b)"
      using atom_okD(7) [OF ok, of b j] b same by simp
  next
    fix j k e1 e2 assume "entry_at t' j = Some e1" "entry_at t' k = Some e2" "folded cm (ae_str e1) = folded cm (ae_str e2)"
    then show "j = k" using old atom_okD(8) [OF ok] by metis
  qed (use atom_okD [OF ok] same in simp_all)
  show "atom_map cm t' = (atom_map cm t)(folded cm (ae_str e) \<mapsto> (ae_atom e, c))"
    using atom_map_upd [OF ok ok' e'] e by simp
qed

text \<open>A new entry.\<close>

lemma add_atom_entry_correct:
  assumes ok: "atom_ok cm t" and add: "add_atom_entry mem t entry = Inr (i, t')"
  shows "entry_at t i = None" and "entry_at t' = (entry_at t)(i := Some (entry\<lparr>ae_atom := i + MIN_STR_ATOM\<rparr>))"
    and "at_entries t' = at_entries t" and "length (at_handles t') \<le> at_count t'" and "at_count t' \<le> MAX_ATOMS"
    and "i < MAX_ATOMS"
proof -
  let ?n = "length (at_handles t)"
  define k where "k = scan (\<lambda>i. at_handles t ! i = None) 0 ?n"
  define e where "e = entry\<lparr>ae_atom := k + MIN_STR_ATOM\<rparr>"
  note len = atom_okD(3,4) [OF ok]
  have k: "k \<le> ?n" unfolding k_def by (rule scan_le) simp
  have "entry_at t i = None \<and> entry_at t' = (entry_at t)(i := Some (entry\<lparr>ae_atom := i + MIN_STR_ATOM\<rparr>)) \<and>
    at_entries t' = at_entries t \<and> length (at_handles t') \<le> at_count t' \<and> at_count t' \<le> MAX_ATOMS \<and> i < MAX_ATOMS"
  proof (cases "k < ?n")
    case True
    have "at_handles t ! k = None" using scan_found [of "\<lambda>i. at_handles t ! i = None" 0 ?n] True by (simp add: k_def)
    moreover have "i = k" "t' = t\<lparr>at_handles := (at_handles t)[k := Some e]\<rparr>"
      using add True by (auto simp: add_atom_entry_def Let_def k_def [symmetric] e_def)
    ultimately show ?thesis
      using True len by (auto simp: entry_at_def e_def)
  next
    case False
    then have kn: "k = ?n" using k by simp
    have t': "i = k" "at_handles t' = at_handles t @ [Some e]" "at_entries t' = at_entries t" "?n < at_count t'" "at_count t' \<le> MAX_ATOMS"
      using add False kn len
      by (auto simp: add_atom_entry_def Let_def k_def [symmetric] e_def split: if_splits)
    then show ?thesis
      using kn by (auto simp: entry_at_def e_def nth_append)
  qed
  then show "entry_at t i = None" "entry_at t' = (entry_at t)(i := Some (entry\<lparr>ae_atom := i + MIN_STR_ATOM\<rparr>))"
    "at_entries t' = at_entries t" "length (at_handles t') \<le> at_count t'" "at_count t' \<le> MAX_ATOMS" "i < MAX_ATOMS"
    by simp_all
qed

lemma insert_ok:
  assumes ok: "atom_ok cm t" and add: "add_atom_entry mem t entry = Inr (i, t1)"
    and entry: "0 < ae_count entry" "\<not> ae_pinned entry" "ae_hash entry = name_hash cm t (ae_str entry)"
    and fresh: "\<And>j e. entry_at t j = Some e \<Longrightarrow> folded cm (ae_str e) \<noteq> folded cm (ae_str entry)"
  defines "t' \<equiv> t1\<lparr>at_entries := (at_entries t1)[ae_hash entry := i # at_entries t1 ! ae_hash entry]\<rparr>"
  shows "atom_ok cm t'"
    and "atom_map cm t' = (atom_map cm t)(folded cm (ae_str entry) \<mapsto> (i + MIN_STR_ATOM, ae_count entry))"
proof -
  note a = add_atom_entry_correct [OF ok add]
  let ?e = "entry\<lparr>ae_atom := i + MIN_STR_ATOM\<rparr>" and ?h = "ae_hash entry"
  have h: "?h < length (at_entries t)" using name_hash_bounded [OF ok] entry(3) by simp
  have e': "entry_at t' = (entry_at t)(i := Some ?e)" using a(2) by (simp add: t'_def entry_at_handles)
  have b': "at_entries t' = (at_entries t)[?h := i # at_entries t ! ?h]" by (simp add: t'_def a(3))
  have same: "length (at_entries t') = length (at_entries t)" by (simp add: b')
  have i: "i \<notin> set (at_entries t ! b)" if "b < length (at_entries t)" for b using atom_okD(7) [OF ok that, of i] a(1) by simp
  show ok': "atom_ok cm t'"
  proof (rule atom_okI)
    fix j e1 assume "entry_at t' j = Some e1"
    then show "entry_ok cm t' j e1"
      using atom_okD(5) [OF ok, of j e1] entry name_hash_cong [OF same, of cm]
      by (cases "j = i") (auto simp: entry_ok_def e')
  next
    fix b assume b: "b < length (at_entries t')"
    then show "distinct (at_entries t' ! b)"
      using atom_okD(6) [OF ok, of b] i [of b] same h by (cases "b = ?h") (simp_all add: b')
    fix j
    show "j \<in> set (at_entries t' ! b) \<longleftrightarrow> (\<exists>e. entry_at t' j = Some e \<and> ae_hash e = b)"
      using atom_okD(7) [OF ok, of b j] b same h i [of b] a(1)
      by (cases "b = ?h"; cases "j = i") (auto simp: b' e')
  next
    fix j k e1 e2 assume jk: "entry_at t' j = Some e1" "entry_at t' k = Some e2" "folded cm (ae_str e1) = folded cm (ae_str e2)"
    consider "j = i" "k = i" | "j = i" "k \<noteq> i" | "j \<noteq> i" "k = i" | "j \<noteq> i" "k \<noteq> i" by blast
    then show "j = k"
    proof cases
      case 2
      then show ?thesis using jk fresh [of k e2] e' by (auto simp: fun_eq_iff)
    next
      case 3
      then show ?thesis using jk fresh [of j e1] e' by auto
    next
      case 4
      then show ?thesis using jk e' atom_okD(8) [OF ok, of j e1 k e2] by simp
    qed simp
  qed (use atom_okD(1,2) [OF ok] a(4,5) same in \<open>simp_all add: t'_def\<close>)
  show "atom_map cm t' = (atom_map cm t)(folded cm (ae_str entry) \<mapsto> (i + MIN_STR_ATOM, ae_count entry))"
    using atom_map_upd [OF ok ok' e'] a(1) by simp
qed

text \<open>The removal of an entry.\<close>

lemma remove_ok:
  assumes ok: "atom_ok cm t" and e: "entry_at t i = Some e"
  defines "t' \<equiv> t\<lparr>at_handles := (at_handles t)[i := None],
     at_entries := (at_entries t)[ae_hash e := remove1 i (at_entries t ! ae_hash e)]\<rparr>"
  shows "atom_ok cm t'" and "atom_map cm t' = (atom_map cm t)(folded cm (ae_str e) := None)"
proof -
  let ?h = "ae_hash e"
  have i: "i < length (at_handles t)" using e by (simp add: entry_at_def split: if_splits)
  have h: "?h < length (at_entries t)"
    using name_hash_bounded [OF ok] atom_okD(5) [OF ok e] by (simp add: entry_ok_def)
  have e': "entry_at t' = (entry_at t)(i := None)" using i by (auto simp: t'_def entry_at_def)
  have b': "at_entries t' = (at_entries t)[?h := remove1 i (at_entries t ! ?h)]" by (simp add: t'_def)
  have same: "length (at_entries t') = length (at_entries t)" by (simp add: b')
  show ok': "atom_ok cm t'"
  proof (rule atom_okI)
    fix j e1 assume "entry_at t' j = Some e1"
    then show "entry_ok cm t' j e1"
      using atom_okD(5) [OF ok, of j e1] name_hash_cong [OF same, of cm] by (cases "j = i") (auto simp: entry_ok_def e')
  next
    fix b assume b: "b < length (at_entries t')"
    then show "distinct (at_entries t' ! b)"
      using atom_okD(6) [OF ok, of b] same h by (cases "b = ?h") (simp_all add: b' distinct_remove1)
    fix j
    show "j \<in> set (at_entries t' ! b) \<longleftrightarrow> (\<exists>e. entry_at t' j = Some e \<and> ae_hash e = b)"
      using atom_okD(6) [OF ok, of b] atom_okD(7) [OF ok, of b j] b same h e
      by (cases "b = ?h"; cases "j = i") (auto simp: b' e' set_remove1_eq)
  next
    fix j k e1 e2 assume "entry_at t' j = Some e1" "entry_at t' k = Some e2" "folded cm (ae_str e1) = folded cm (ae_str e2)"
    then show "j = k" using e' atom_okD(8) [OF ok, of j e1 k e2] by (auto split: if_splits)
  qed (use atom_okD(1,2,3,4) [OF ok] same in \<open>simp_all add: t'_def\<close>)
  have iff: "atom_map cm t' n = Some v \<longleftrightarrow> ((atom_map cm t)(folded cm (ae_str e) := None)) n = Some v" for n v
  proof
    assume "atom_map cm t' n = Some v"
    then obtain j e1 where j: "entry_at t' j = Some e1" "folded cm (ae_str e1) = n" "v = (ae_atom e1, ae_count e1)"
      unfolding atom_map_iff [OF ok'] by blast
    then have "j \<noteq> i" "entry_at t j = Some e1" using e' by (auto split: if_splits)
    then have "n \<noteq> folded cm (ae_str e)" using j(2) e atom_okD(8) [OF ok, of j e1 i e] by auto
    moreover have "atom_map cm t n = Some v" unfolding atom_map_iff [OF ok] using j \<open>entry_at t j = Some e1\<close> by blast
    ultimately show "((atom_map cm t)(folded cm (ae_str e) := None)) n = Some v" by simp
  next
    assume a: "((atom_map cm t)(folded cm (ae_str e) := None)) n = Some v"
    then have n: "n \<noteq> folded cm (ae_str e)" "atom_map cm t n = Some v" by (auto split: if_splits)
    then obtain j e1 where j: "entry_at t j = Some e1" "folded cm (ae_str e1) = n" "v = (ae_atom e1, ae_count e1)"
      unfolding atom_map_iff [OF ok] by blast
    then have "j \<noteq> i" using n e by auto
    then show "atom_map cm t' n = Some v" unfolding atom_map_iff [OF ok'] using j e' by (metis fun_upd_other)
  qed
  show "atom_map cm t' = (atom_map cm t)(folded cm (ae_str e) := None)"
    by (rule ext) (metis iff not_Some_eq)
qed

section \<open>Properties\<close>

lemma get_atom_entry_at: "get_atom_entry (Some t) a = Inr e \<longleftrightarrow> a \<ge> MIN_STR_ATOM \<and> entry_at t (a - MIN_STR_ATOM) = Some e"
  by (auto simp: get_atom_entry_def entry_at_def split: option.splits)


definition sample_atoms :: atom_table where
  "sample_atoms = the (create_table (\<lambda>_. True) 37)"

lemma sample_atoms_ok: "atom_ok cm sample_atoms" "atom_map cm sample_atoms = Map.empty"
proof -
  have "entry_at sample_atoms i = None" for i by (simp add: sample_atoms_def create_table_def entry_at_def)
  then show "atom_ok cm sample_atoms"
    by (intro atom_okI) (simp_all add: sample_atoms_def create_table_def)
  show "atom_map cm sample_atoms = Map.empty" by (simp add: atom_map_def sample_atoms_def create_table_def)
qed

lemma sample_add: "\<exists>a t. add_atom (\<lambda>_. True) (\<lambda>_. 0) sample_atoms [65, 66] = (Inr a, t)"
proof -
  have "find_atom_entry (\<lambda>_. 0) sample_atoms [65, 66] h = None" if "h < 37" for h
    using that by (simp add: find_atom_entry_def sample_atoms_def create_table_def)
  moreover have "name_hash (\<lambda>_. 0) sample_atoms [65, 66] < 37"
    using name_hash_bounded [OF sample_atoms_ok(1)] by (simp add: sample_atoms_def create_table_def)
  moreover obtain i t where "add_atom_entry (\<lambda>_. True) sample_atoms \<lparr>ae_count = 1, ae_pinned = False, ae_atom = 0,
      ae_hash = name_hash (\<lambda>_. 0) sample_atoms [65, 66], ae_str = [65, 66]\<rparr> = Inr (i, t)"
    by (simp add: add_atom_entry_def sample_atoms_def create_table_def scan.simps)
  ultimately show ?thesis by (simp add: add_atom_def Let_def)
qed


text \<open>
  Finding an atom decides the abstract map: the result is the atom of the name when the
  map has it and the documented error otherwise, for names of every length.
\<close>

theorem find_atom_decides:
  assumes ok: "atom_ok cm t"
  shows "find_atom cm (Some t) str =
    (if str = [] then Inl STATUS_OBJECT_NAME_INVALID
     else if length str > 255 then Inl STATUS_INVALID_PARAMETER
     else case atom_map cm t (folded cm str) of
            None \<Rightarrow> Inl STATUS_OBJECT_NAME_NOT_FOUND
          | Some (a, c) \<Rightarrow> Inr a)"
proof (cases "find_atom_entry cm t str (name_hash cm t str)")
  case (Some i)
  obtain e where e: "entry_at t i = Some e" "folded cm (ae_str e) = folded cm str"
    using find_atom_entry_Some [OF ok Some] .
  then have "atom_map cm t (folded cm str) = Some (ae_atom e, ae_count e)" unfolding atom_map_iff [OF ok] by blast
  moreover have "at_handles t ! i = Some e" using e(1) by (simp add: entry_at_def split: if_splits)
  ultimately show ?thesis using Some by (simp add: find_atom_def)
next
  case None
  have "atom_map cm t (folded cm str) = None"
  proof (rule ccontr)
    assume "atom_map cm t (folded cm str) \<noteq> None"
    then show False using find_atom_entry_None [OF ok None] unfolding not_None_eq atom_map_iff [OF ok] by blast
  qed
  then show ?thesis using None by (simp add: find_atom_def)
qed

theorem find_atom_decides_witness:
  "find_atom (\<lambda>_. 0) (Some sample_atoms) [65] = Inl STATUS_OBJECT_NAME_NOT_FOUND"
  using find_atom_decides [OF sample_atoms_ok(1), of "\<lambda>_. 0" "[65]"] by (simp add: sample_atoms_ok(2))

text \<open>One deletion, on the abstract map.\<close>

lemma delete_atom_map:
  assumes ok: "atom_ok cm t" and n: "atom_map cm t n = Some (a, c)" and del: "delete_atom t a p = (st, t')"
  shows "st = STATUS_SUCCESS" and "atom_ok cm t'" and "0 < c"
    and "atom_map cm t' = (atom_map cm t)(n := (if c = 1 then None else Some (a, c - 1)))"
proof -
  obtain i e where e: "entry_at t i = Some e" "folded cm (ae_str e) = n" "a = ae_atom e" "c = ae_count e"
    using n unfolding atom_map_iff [OF ok] by blast
  have eo: "a = i + MIN_STR_ATOM" "0 < c" "\<not> ae_pinned e" using atom_okD(5) [OF ok e(1)] e by (simp_all add: entry_ok_def)
  have g: "get_atom_entry (Some t) a = Inr e" unfolding get_atom_entry_at using e(1) eo(1) by simp
  show "st = STATUS_SUCCESS" using del g eo by (auto simp: delete_atom_def Let_def split: if_splits)
  show "0 < c" by (rule eo(2))
  have "atom_ok cm t' \<and> atom_map cm t' = (atom_map cm t)(n := (if c = 1 then None else Some (a, c - 1)))"
  proof (cases "c = 1")
    case True
    then have "t' = t\<lparr>at_handles := (at_handles t)[i := None],
        at_entries := (at_entries t)[ae_hash e := remove1 i (at_entries t ! ae_hash e)]\<rparr>"
      using del g eo e(4) by (simp add: delete_atom_def Let_def)
    then show ?thesis using remove_ok [OF ok e(1)] e(2) True by simp
  next
    case False
    then have "t' = t\<lparr>at_handles := (at_handles t)[i := Some (e\<lparr>ae_count := c - 1\<rparr>)]\<rparr>"
      using del g eo e(4) by (simp add: delete_atom_def Let_def)
    then show ?thesis using recount_ok(1,2) [OF ok e(1), of "c - 1"] e(2,3) False eo(2) by simp
  qed
  then show "atom_ok cm t'" "atom_map cm t' = (atom_map cm t)(n := (if c = 1 then None else Some (a, c - 1)))" by simp_all
qed

text \<open>
  (C26) Deleting an atom takes one reference and removes the name with the last one; an atom
  that no name has is refused and changes nothing. Other names keep their atoms and counts.
\<close>

theorem delete_atom_refines:
  assumes ok: "atom_ok cm t" and del: "delete_atom t a p = (st, t')"
  shows "atom_ok cm t' \<and>
    (if \<exists>n c. atom_map cm t n = Some (a, c)
     then st = STATUS_SUCCESS \<and> (\<exists>n c. atom_map cm t n = Some (a, c) \<and> 0 < c \<and>
       atom_map cm t' = (atom_map cm t)(n := (if c = 1 then None else Some (a, c - 1))))
     else st = STATUS_INVALID_HANDLE \<and> t' = t)"
proof (cases "\<exists>n c. atom_map cm t n = Some (a, c)")
  case True
  then obtain n c where n: "atom_map cm t n = Some (a, c)" by blast
  show ?thesis using delete_atom_map [OF ok n del] n True by auto
next
  case False
  have none: "entry_at t i \<noteq> Some e \<or> a \<noteq> i + MIN_STR_ATOM" for i e
  proof (rule ccontr)
    assume "\<not> ?thesis"
    then have i: "entry_at t i = Some e" "a = i + MIN_STR_ATOM" by simp_all
    then have "ae_atom e = a" using atom_okD(5) [OF ok i(1)] by (simp add: entry_ok_def)
    then have "atom_map cm t (folded cm (ae_str e)) = Some (a, ae_count e)" unfolding atom_map_iff [OF ok] using i(1) by blast
    then show False using False by blast
  qed
  obtain x where g: "get_atom_entry (Some t) a = x" by blast
  have "x = Inl STATUS_INVALID_HANDLE"
  proof (cases x)
    case (Inl err)
    then show ?thesis using g by (auto simp: get_atom_entry_def split: if_splits option.splits)
  next
    case (Inr e)
    then have "a \<ge> MIN_STR_ATOM" "entry_at t (a - MIN_STR_ATOM) = Some e" using g get_atom_entry_at by simp_all
    then show ?thesis using none [of "a - MIN_STR_ATOM" e] by simp
  qed
  then show ?thesis using del g ok False by (simp add: delete_atom_def)
qed

theorem delete_atom_refines_witness:
  "delete_atom sample_atoms 0xc000 False = (STATUS_INVALID_HANDLE, sample_atoms)"
proof -
  obtain st t where d: "delete_atom sample_atoms 0xc000 False = (st, t)" by fastforce
  from delete_atom_refines [OF sample_atoms_ok(1) d, of "\<lambda>_. 0"] d show ?thesis by (simp add: sample_atoms_ok(2))
qed

text \<open>
  (C27) References run out: deleting an atom as often as it was added, and never less often,
  makes its name unknown again, whatever else is in the table.
\<close>

theorem atom_references_run_out:
  assumes "atom_ok cm t" and "atom_map cm t n = Some (a, c)" and "k \<le> c"
  shows "atom_map cm (((\<lambda>t. snd (delete_atom t a False)) ^^ k) t) n = (if k = c then None else Some (a, c - k)) \<and>
    atom_ok cm (((\<lambda>t. snd (delete_atom t a False)) ^^ k) t)"
  using assms(3)
proof (induction k)
  case 0
  have "0 < c" using delete_atom_map(3) [OF assms(1,2)] by (metis surj_pair)
  then show ?case using assms by simp
next
  case (Suc k)
  let ?t = "((\<lambda>t. snd (delete_atom t a False)) ^^ k) t"
  have IH: "atom_map cm ?t n = Some (a, c - k)" "atom_ok cm ?t" using Suc by simp_all
  obtain st t' where d: "delete_atom ?t a False = (st, t')" by fastforce
  show ?case using delete_atom_map(2,4) [OF IH(2,1) d] d Suc.prems by auto
qed

theorem atom_references_run_out_witness:
  "\<exists>a t. add_atom (\<lambda>_. True) (\<lambda>_. 0) sample_atoms [65, 66] = (Inr a, t) \<and>
    atom_map (\<lambda>_. 0) (snd (delete_atom t a False)) (folded (\<lambda>_. 0) [65, 66]) = None"
proof -
  obtain a t where r: "add_atom (\<lambda>_. True) (\<lambda>_. 0) sample_atoms [65, 66] = (Inr a, t)" using sample_add by blast
  have find: "find_atom_entry (\<lambda>_. 0) sample_atoms [65, 66] (name_hash (\<lambda>_. 0) sample_atoms [65, 66]) = None"
  proof (cases "find_atom_entry (\<lambda>_. 0) sample_atoms [65, 66] (name_hash (\<lambda>_. 0) sample_atoms [65, 66])")
    case (Some i)
    obtain e where "entry_at sample_atoms i = Some e" using find_atom_entry_Some [OF sample_atoms_ok(1) Some] .
    then show ?thesis by (simp add: sample_atoms_def create_table_def entry_at_def)
  qed
  let ?entry = "\<lparr>ae_count = 1, ae_pinned = False, ae_atom = 0, ae_hash = name_hash (\<lambda>_. 0) sample_atoms [65, 66], ae_str = [65, 66]\<rparr>"
  obtain i t1 where add1: "add_atom_entry (\<lambda>_. True) sample_atoms ?entry = Inr (i, t1)"
    and t: "a = i + MIN_STR_ATOM" "t = t1\<lparr>at_entries := (at_entries t1)[ae_hash ?entry := i # at_entries t1 ! ae_hash ?entry]\<rparr>"
    using r find by (auto simp: add_atom_def Let_def split: if_splits sum.splits)
  have none: "entry_at sample_atoms j = None" for j by (simp add: sample_atoms_def create_table_def entry_at_def)
  have "atom_ok (\<lambda>_. 0) t" "atom_map (\<lambda>_. 0) t (folded (\<lambda>_. 0) [65, 66]) = Some (a, 1)"
    using insert_ok [OF sample_atoms_ok(1) add1] none t by simp_all
  from atom_references_run_out [OF this, of 1] r show ?thesis by auto
qed

end
