(* ===== verification/Registry_Values.thy ===== *)
theory Registry_Values
  imports Unicode
begin

text \<open>
  The values of a registry key (\<^verbatim>\<open>server/registry.c\<close>): the array of values sorted by
  case-insensitive name and searched by bisection, setting, reading, enumerating and
  deleting a value, and what a change does to the key and its parents (modification
  time, dirty flags, notifications).

  A \<^verbatim>\<open>struct key\<close> is a record; its arrays are lists, so that \<^verbatim>\<open>last_value + 1\<close> is the
  length of \<open>k_values\<close>, and the count of allocated slots is a field of its own. The array
  of subkeys holds pointers; its model holds the number of each key and its name. The
  pointer to the parent is not a field: an operation works on a record of the key and
  the list of its parents, in the order in which \<^verbatim>\<open>get_parent\<close> yields them. The
  parameter \<open>mem\<close> says which allocations succeed, by their number of elements.
\<close>

section \<open>Bisection in a sorted array\<close>

text \<open>
  The loop that \<^verbatim>\<open>find_value\<close> and \<^verbatim>\<open>find_subkey\<close> share, over the result \<open>res i\<close> of the
  comparison with element \<open>i\<close>: the index of an equal element, if any, and the index
  where the name is or belongs.
\<close>

function bsearch :: "(nat \<Rightarrow> int) \<Rightarrow> int \<Rightarrow> int \<Rightarrow> nat option \<times> nat" where
  "bsearch res lo hi =
     (if lo \<le> hi then
        (let i = (lo + hi) div 2; r = res (nat i)
         in if r = 0 then (Some (nat i), nat i)
            else if r > 0 then bsearch res lo (i - 1)
            else bsearch res (i + 1) hi)
      else (None, nat lo))"
  by pat_completeness auto
termination
  by (relation "measure (\<lambda>(res, lo, hi). nat (hi - lo + 1))") auto

declare bsearch.simps [simp del]

text \<open>
  The comparison: the units both names have, then the lengths in bytes.
\<close>

definition name_cmp :: "casemap \<Rightarrow> wchar list \<Rightarrow> wchar list \<Rightarrow> int" where
  "name_cmp cm a b =
     (let res = memicmp_strW cm a b (min (length a) (length b))
      in if res = 0 then int (2 * length a) - int (2 * length b) else res)"

text \<open>
  What bisection needs of a comparison, and what follows for an array that is strictly
  sorted by it.
\<close>

locale comparison =
  fixes cmp :: "'k \<Rightarrow> 'k \<Rightarrow> int"
  assumes cmp_swap: "cmp b a = - cmp a b"
    and cmp_trans: "cmp a b < 0 \<Longrightarrow> cmp b c < 0 \<Longrightarrow> cmp a c < 0"
    and cmp_eq: "cmp a b = 0 \<Longrightarrow> cmp a c = cmp b c"
begin

definition ordered :: "'k list \<Rightarrow> bool" where
  "ordered ks \<longleftrightarrow> sorted_wrt (\<lambda>a b. cmp a b < 0) ks"

definition place :: "'k list \<Rightarrow> 'k \<Rightarrow> nat \<Rightarrow> bool" where
  "place ks k j \<longleftrightarrow> j \<le> length ks \<and> (\<forall>i<j. cmp (ks ! i) k < 0)
     \<and> (\<forall>i. j \<le> i \<longrightarrow> i < length ks \<longrightarrow> 0 < cmp (ks ! i) k)"

lemma cmp_refl: "cmp a a = 0"
  using cmp_swap [of a a] by simp

lemma ordered_nth: "ordered ks \<Longrightarrow> i < j \<Longrightarrow> j < length ks \<Longrightarrow> cmp (ks ! i) (ks ! j) < 0"
  by (simp add: ordered_def sorted_wrt_iff_nth_less)

lemma cmp_less_le: "cmp a b < 0 \<Longrightarrow> cmp b c \<le> 0 \<Longrightarrow> cmp a c < 0"
  using cmp_trans [of a b c] cmp_eq [of b c a] cmp_swap [of a b] cmp_swap [of a c] by linarith

lemma cmp_le_less: "cmp a b \<le> 0 \<Longrightarrow> cmp b c < 0 \<Longrightarrow> cmp a c < 0"
  using cmp_trans [of a b c] cmp_eq [of a b c] by linarith

lemma below:
  assumes "ordered ks" "i < j" "j < length ks" "cmp (ks ! j) k \<le> 0"
  shows "cmp (ks ! i) k < 0"
  using cmp_less_le [OF ordered_nth [OF assms(1-3)] assms(4)] .

lemma above:
  assumes "ordered ks" "i < j" "j < length ks" "0 \<le> cmp (ks ! i) k"
  shows "0 < cmp (ks ! j) k"
proof -
  have "cmp k (ks ! i) \<le> 0" using cmp_swap [of k "ks ! i"] assms(4) by linarith
  then have "cmp k (ks ! j) < 0" using cmp_le_less ordered_nth [OF assms(1-3)] by blast
  then show ?thesis using cmp_swap [of k "ks ! j"] by linarith
qed

lemma bsearch_range:
  assumes "ordered ks" "0 \<le> lo" "hi < int (length ks)" "lo \<le> hi + 1"
    and "\<forall>i < nat lo. cmp (ks ! i) k < 0"
    and "\<forall>i. nat (hi + 1) \<le> i \<longrightarrow> i < length ks \<longrightarrow> 0 < cmp (ks ! i) k"
    and "bsearch (\<lambda>i. cmp (ks ! i) k) lo hi = (f, j)"
  shows "case f of Some i \<Rightarrow> j = i \<and> i < length ks \<and> cmp (ks ! i) k = 0 | None \<Rightarrow> place ks k j"
  using assms
proof (induction "\<lambda>i. cmp (ks ! i) k" lo hi rule: bsearch.induct)
  case (1 lo hi)
  show ?case
  proof (cases "lo \<le> hi")
    case False
    then have "lo = hi + 1" using "1.prems" by linarith
    moreover have "f = None" "j = nat lo" using "1.prems"(7) False by (simp_all add: bsearch.simps)
    ultimately show ?thesis using "1.prems" by (simp add: place_def)
  next
    case True
    define i where "i = (lo + hi) div 2"
    have i: "lo \<le> i" "i \<le> hi" using True by (simp_all add: i_def)
    then have n: "nat i < length ks" "0 \<le> i" using "1.prems" by auto
    consider (eq) "cmp (ks ! nat i) k = 0" | (gt) "cmp (ks ! nat i) k > 0" | (lt) "cmp (ks ! nat i) k < 0"
      by linarith
    then show ?thesis
    proof cases
      case eq
      then have "bsearch (\<lambda>i. cmp (ks ! i) k) lo hi = (Some (nat i), nat i)"
        using True by (subst bsearch.simps) (simp add: i_def Let_def)
      then show ?thesis using "1.prems" eq n by auto
    next
      case gt
      have "\<forall>m. nat (i - 1 + 1) \<le> m \<longrightarrow> m < length ks \<longrightarrow> 0 < cmp (ks ! m) k"
        using gt above [OF "1.prems"(1), of "nat i"] by (simp add: order.order_iff_strict)
      moreover have "bsearch (\<lambda>i. cmp (ks ! i) k) lo (i - 1) = (f, j)"
        using True gt "1.prems"(7) by (subst (asm) bsearch.simps) (simp add: i_def)
      ultimately show ?thesis
        using "1.hyps"(1) [OF True i_def refl] gt "1.prems"(1-5) i by simp
    next
      case lt
      have "\<forall>m < nat (i + 1). cmp (ks ! m) k < 0"
      proof (intro allI impI)
        fix m assume "m < nat (i + 1)"
        then have "m < nat i \<or> m = nat i" using n by linarith
        then show "cmp (ks ! m) k < 0"
          using lt below [OF "1.prems"(1) _ n(1)] by auto
      qed
      moreover have "bsearch (\<lambda>i. cmp (ks ! i) k) (i + 1) hi = (f, j)"
        using True lt "1.prems"(7) by (subst (asm) bsearch.simps) (simp add: i_def)
      ultimately show ?thesis
        using "1.hyps"(2) [OF True i_def refl] lt "1.prems"(1-4,6) i by simp
    qed
  qed
qed

lemma bsearch_correct:
  assumes "ordered ks" and "bsearch (\<lambda>i. cmp (ks ! i) k) 0 (int (length ks) - 1) = (f, j)"
  shows "case f of Some i \<Rightarrow> j = i \<and> i < length ks \<and> cmp (ks ! i) k = 0 | None \<Rightarrow> place ks k j"
  using bsearch_range [OF assms(1) _ _ _ _ _ assms(2)] by simp

lemma place_absent: "place ks k j \<Longrightarrow> i < length ks \<Longrightarrow> cmp (ks ! i) k \<noteq> 0"
  unfolding place_def by (metis less_irrefl not_less)

lemma bsearch_none_iff:
  assumes "ordered ks" and "bsearch (\<lambda>i. cmp (ks ! i) k) 0 (int (length ks) - 1) = (f, j)"
  shows "f = None \<longleftrightarrow> (\<forall>x\<in>set ks. cmp x k \<noteq> 0)"
proof (cases f)
  case None
  then have "place ks k j" using bsearch_correct [OF assms] by simp
  then show ?thesis using None place_absent by (auto simp: in_set_conv_nth)
next
  case (Some i)
  then have "i < length ks" "cmp (ks ! i) k = 0" using bsearch_correct [OF assms] by auto
  then show ?thesis using Some nth_mem by force
qed

lemma ordered_insert:
  assumes "ordered ks" and "place ks k j"
  shows "ordered (take j ks @ k # drop j ks)"
proof -
  have "\<forall>x\<in>set (take j ks). cmp x k < 0"
    using assms(2) by (auto simp: place_def in_set_conv_nth)
  moreover have "\<forall>x\<in>set (drop j ks). cmp k x < 0"
    using assms(2) cmp_swap [of k] by (auto simp: place_def in_set_conv_nth)
  moreover have "sorted_wrt (\<lambda>a b. cmp a b < 0) (take j ks @ drop j ks)"
    using assms(1) by (simp add: ordered_def)
  ultimately show ?thesis
    unfolding ordered_def sorted_wrt_append using cmp_trans by auto
qed

lemma ordered_remove:
  assumes "ordered ks"
  shows "ordered (take j ks @ drop (Suc j) ks)"
proof -
  have "sorted_wrt (\<lambda>a b. cmp a b < 0) (take j ks @ drop j ks)"
    using assms by (simp add: ordered_def)
  then have 1: "sorted_wrt (\<lambda>a b. cmp a b < 0) (take j ks)"
    and 2: "sorted_wrt (\<lambda>a b. cmp a b < 0) (drop j ks)"
    and 3: "\<forall>x\<in>set (take j ks). \<forall>y\<in>set (drop j ks). cmp x y < 0"
    by (auto simp only: sorted_wrt_append)
  have "set (drop (Suc j) ks) \<subseteq> set (drop j ks)" by (simp add: set_drop_subset_set_drop)
  moreover have "sorted_wrt (\<lambda>a b. cmp a b < 0) (drop (Suc j) ks)"
    using sorted_wrt_drop [OF 2, of 1] by simp
  ultimately show ?thesis
    unfolding ordered_def sorted_wrt_append using 1 3 by auto
qed

lemma ordered_distinct: "ordered ks \<Longrightarrow> distinct ks"
  unfolding ordered_def
  by (induction ks) (auto simp: cmp_refl dest: bspec)

end

text \<open>The comparison of names has these laws: it is lexicographic in the folded units.\<close>

declare folded_def [simp]

lemma name_cmp_Nil [simp]:
  "name_cmp cm [] b = - int (2 * length b)" "name_cmp cm a [] = int (2 * length a)"
  by (simp_all add: name_cmp_def)

lemma name_cmp_Cons [simp]:
  "name_cmp cm (x # a) (y # b) =
     (if to_lower cm x = to_lower cm y then name_cmp cm a b
      else uint (to_lower cm x) - uint (to_lower cm y))"
  by (simp add: name_cmp_def Let_def word_uint_eq_iff)

lemma name_cmp_0_iff: "name_cmp cm a b = 0 \<longleftrightarrow> folded cm a = folded cm b"
proof (induction a arbitrary: b)
  case Nil
  then show ?case by auto
next
  case (Cons x a)
  then show ?case by (cases b) (auto simp: word_uint_eq_iff)
qed

lemma name_cmp_swap: "name_cmp cm b a = - name_cmp cm a b"
proof (induction a arbitrary: b)
  case Nil
  then show ?case by simp
next
  case (Cons x a)
  then show ?case by (cases b) auto
qed

lemma name_cmp_trans: "name_cmp cm a b < 0 \<Longrightarrow> name_cmp cm b c < 0 \<Longrightarrow> name_cmp cm a c < 0"
proof (induction a arbitrary: b c)
  case Nil
  then show ?case by (cases c; cases b) auto
next
  case (Cons x a)
  obtain y b' where b: "b = y # b'" using Cons.prems(1) by (cases b) auto
  obtain z c' where c: "c = z # c'" using Cons.prems(2) b by (cases c) auto
  show ?case using Cons.prems Cons.IH [of b' c'] by (auto simp: b c split: if_splits)
qed

lemma name_cmp_folded: "folded cm a = folded cm b \<Longrightarrow> name_cmp cm a c = name_cmp cm b c"
proof (induction a arbitrary: b c)
  case Nil
  then show ?case by simp
next
  case (Cons x a)
  then obtain y b' where b: "b = y # b'" by (cases b) auto
  show ?case using Cons by (cases c) (auto simp: b dest: map_eq_imp_length_eq)
qed

interpretation nc: comparison "name_cmp cm" for cm
proof unfold_locales
  fix a b c
  show "name_cmp cm b a = - name_cmp cm a b" by (rule name_cmp_swap)
  show "name_cmp cm a b < 0 \<Longrightarrow> name_cmp cm b c < 0 \<Longrightarrow> name_cmp cm a c < 0"
    by (rule name_cmp_trans)
  show "name_cmp cm a b = 0 \<Longrightarrow> name_cmp cm a c = name_cmp cm b c"
    by (rule name_cmp_folded) (simp add: name_cmp_0_iff)
qed

section \<open>Keys and values\<close>

record key_value =
  kv_name :: "wchar list"
  kv_type :: u32
  kv_data :: "u8 list"
  kv_order :: nat

record notify =
  nt_events :: "nat list"
  nt_subtree :: bool
  nt_filter :: u32
  nt_hkey :: u32
  nt_process :: nat

record key =
  k_id :: nat
  k_name :: "wchar list"
  k_class :: "wchar list"
  k_nb_subkeys :: nat
  k_subkeys :: "(nat \<times> wchar list) list"
  k_wow6432node :: "nat option"
  k_nb_values :: nat
  k_values :: "key_value list"
  k_flags :: u32
  k_modif :: u64
  k_notify :: "notify list"
  k_timestamp :: nat

definition KEY_VOLATILE :: u32 where "KEY_VOLATILE = 0x0001"
definition KEY_DELETED :: u32 where "KEY_DELETED = 0x0002"
definition KEY_DIRTY :: u32 where "KEY_DIRTY = 0x0004"
definition KEY_SYMLINK :: u32 where "KEY_SYMLINK = 0x0008"
definition KEY_WOWREFLECT :: u32 where "KEY_WOWREFLECT = 0x0010"
definition KEY_PREDEF :: u32 where "KEY_PREDEF = 0x0020"
definition KEY_WOWSHARE :: u32 where "KEY_WOWSHARE = 0x0040"

definition has_flag :: "key \<Rightarrow> u32 \<Rightarrow> bool" where
  "has_flag k f \<longleftrightarrow> k_flags k AND f \<noteq> 0"

definition MIN_VALUES :: nat where "MIN_VALUES = 8"
definition MAX_VALUE_LEN :: nat where "MAX_VALUE_LEN = 16383"

text \<open>The name \<^verbatim>\<open>SymbolicLinkValue\<close>, the only value a symbolic link may get.\<close>

definition symlink_str :: "wchar list" where
  "symlink_str = [83, 121, 109, 98, 111, 108, 105, 99, 76, 105, 110, 107, 86, 97, 108, 117, 101]"

definition REG_LINK :: u32 where "REG_LINK = 6"
definition REG_NOTIFY_CHANGE_NAME :: u32 where "REG_NOTIFY_CHANGE_NAME = 1"
definition REG_NOTIFY_CHANGE_LAST_SET :: u32 where "REG_NOTIFY_CHANGE_LAST_SET = 4"

section \<open>What a change does to a key and its parents\<close>

text \<open>
  The part of the registry an operation on one key can reach: the key, its parents from
  the nearest to the root, the global change counter, and the events set so far.
\<close>

record reg_state =
  rs_key :: key
  rs_parents :: "key list"
  rs_counter :: nat
  rs_events :: "nat list"

fun dirty_chain :: "nat \<Rightarrow> key list \<Rightarrow> key list" where
  "dirty_chain c [] = []"
| "dirty_chain c (k # ks) =
     (if has_flag k (KEY_DIRTY OR KEY_VOLATILE) then k # ks
      else k\<lparr>k_flags := k_flags k OR KEY_DIRTY, k_timestamp := c\<rparr> # dirty_chain c ks)"

definition make_dirty :: "reg_state \<Rightarrow> reg_state" where
  "make_dirty s =
     (let c = rs_counter s + 1; ks = dirty_chain c (rs_key s # rs_parents s)
      in s\<lparr>rs_counter := c, rs_key := hd ks, rs_parents := tl ks\<rparr>)"

definition do_notification :: "notify \<Rightarrow> nat list \<times> notify" where
  "do_notification n = (nt_events n, n\<lparr>nt_events := []\<rparr>)"

definition notified :: "u32 \<Rightarrow> bool \<Rightarrow> notify \<Rightarrow> bool" where
  "notified change not_subtree n \<longleftrightarrow> (not_subtree \<or> nt_subtree n) \<and> change AND nt_filter n \<noteq> 0"

definition check_notify :: "u32 \<Rightarrow> bool \<Rightarrow> key \<Rightarrow> nat list \<times> key" where
  "check_notify change not_subtree k =
     (concat (map (\<lambda>n. if notified change not_subtree n then fst (do_notification n) else []) (k_notify k)),
      k\<lparr>k_notify := map (\<lambda>n. if notified change not_subtree n then snd (do_notification n) else n) (k_notify k)\<rparr>)"

definition touch_key :: "u64 \<Rightarrow> u32 \<Rightarrow> reg_state \<Rightarrow> reg_state" where
  "touch_key now change s =
     (let s1 = make_dirty (s\<lparr>rs_key := (rs_key s)\<lparr>k_modif := now\<rparr>\<rparr>);
          (ev, k) = check_notify change True (rs_key s1);
          ps = map (check_notify change False) (rs_parents s1)
      in s1\<lparr>rs_key := k, rs_parents := map snd ps,
            rs_events := rs_events s1 @ ev @ concat (map fst ps)\<rparr>)"

section \<open>The array of values\<close>

definition grow_values :: "(nat \<Rightarrow> bool) \<Rightarrow> key \<Rightarrow> key option" where
  "grow_values mem k =
     (let n = (if k_nb_values k \<noteq> 0 then k_nb_values k + k_nb_values k div 2 else MIN_VALUES)
      in if mem n then Some (k\<lparr>k_nb_values := n\<rparr>) else None)"

definition find_value :: "casemap \<Rightarrow> key \<Rightarrow> wchar list \<Rightarrow> nat option \<times> nat" where
  "find_value cm k name =
     bsearch (\<lambda>i. name_cmp cm (kv_name (k_values k ! i)) name) 0 (int (length (k_values k)) - 1)"

definition insert_at :: "nat \<Rightarrow> 'a \<Rightarrow> 'a list \<Rightarrow> 'a list" where
  "insert_at i x xs = take i xs @ x # drop i xs"

definition insert_value :: "(nat \<Rightarrow> bool) \<Rightarrow> key \<Rightarrow> wchar list \<Rightarrow> nat \<Rightarrow> int \<Rightarrow> ntstatus \<times> key" where
  "insert_value mem k name index order =
     (if length name > MAX_VALUE_LEN then (STATUS_NAME_TOO_LONG, k)
      else case (if length (k_values k) = k_nb_values k then grow_values mem k else Some k) of
        None \<Rightarrow> (STATUS_NO_MEMORY, k)
      | Some k1 \<Rightarrow>
          if name \<noteq> [] \<and> \<not> mem (length name) then (STATUS_NO_MEMORY, k1)
          else (STATUS_SUCCESS,
                k1\<lparr>k_values := insert_at index
                     \<lparr>kv_name = name, kv_type = 0, kv_data = [],
                      kv_order = (if order = -1 then length (k_values k) else nat order)\<rparr> (k_values k1)\<rparr>))"

definition same_value :: "key_value \<Rightarrow> u32 \<Rightarrow> u8 list \<Rightarrow> bool" where
  "same_value v ty data \<longleftrightarrow>
     kv_type v = ty \<and> length (kv_data v) = length data \<and> kv_data v \<noteq> [] \<and> kv_data v = data"

definition set_value :: "(nat \<Rightarrow> bool) \<Rightarrow> casemap \<Rightarrow> u64 \<Rightarrow> reg_state \<Rightarrow> wchar list \<Rightarrow> u32 \<Rightarrow> u8 list
    \<Rightarrow> ntstatus \<times> reg_state" where
  "set_value mem cm now s name ty data =
     (let k = rs_key s; (value, index) = find_value cm k name
      in if has_flag k KEY_PREDEF then (STATUS_INVALID_HANDLE, s)
         else if (case value of Some i \<Rightarrow> same_value (k_values k ! i) ty data | None \<Rightarrow> False)
           then (STATUS_SUCCESS, s)
         else if has_flag k KEY_SYMLINK \<and>
             (ty \<noteq> REG_LINK \<or> length name \<noteq> length symlink_str
              \<or> memicmp_strW cm name symlink_str (length name) \<noteq> 0) then (STATUS_ACCESS_DENIED, s)
         else if data \<noteq> [] \<and> \<not> mem (length data) then (STATUS_NO_MEMORY, s)
         else case (if value = None then insert_value mem k name index (-1) else (STATUS_SUCCESS, k)) of
           (status, k1) \<Rightarrow>
             if status \<noteq> STATUS_SUCCESS then (status, s\<lparr>rs_key := k1\<rparr>)
             else (STATUS_SUCCESS,
                   touch_key now REG_NOTIFY_CHANGE_LAST_SET
                     (s\<lparr>rs_key := k1\<lparr>k_values := (k_values k1)[index :=
                          (k_values k1 ! index)\<lparr>kv_type := ty, kv_data := data\<rparr>]\<rparr>\<rparr>)))"

text \<open>
  Reading a value gives its type, its full length, and as much of the data as the caller
  has room for.
\<close>

definition get_value :: "casemap \<Rightarrow> key \<Rightarrow> wchar list \<Rightarrow> nat \<Rightarrow> (u32 \<times> nat \<times> u8 list) result" where
  "get_value cm k name reply_max =
     (if has_flag k KEY_PREDEF then Inl STATUS_INVALID_HANDLE
      else case find_value cm k name of
        (Some i, _) \<Rightarrow>
          (let v = k_values k ! i
           in Inr (kv_type v, length (kv_data v), take (min (length (kv_data v)) reply_max) (kv_data v)))
      | (None, _) \<Rightarrow> Inl STATUS_OBJECT_NAME_NOT_FOUND)"

datatype value_class =
    KeyValueBasicInformation
  | KeyValueFullInformation
  | KeyValuePartialInformation
  | OtherClass

definition wchar_bytes :: "wchar list \<Rightarrow> u8 list" where
  "wchar_bytes s = concat (map (\<lambda>c. [ucast c, ucast (drop_bit 8 c)]) s)"

record enum_reply =
  er_type :: u32
  er_total :: nat
  er_namelen :: nat
  er_data :: "u8 list"

definition enum_value :: "key \<Rightarrow> int \<Rightarrow> value_class \<Rightarrow> nat \<Rightarrow> enum_reply result" where
  "enum_value k i info_class reply_max =
     (if has_flag k KEY_PREDEF then Inl STATUS_INVALID_HANDLE
      else if i < 0 \<or> i > int (length (k_values k)) - 1 then Inl STATUS_NO_MORE_ENTRIES
      else case find (\<lambda>v. int (kv_order v) = i) (k_values k) of
        None \<Rightarrow> Inl STATUS_OBJECT_NAME_NOT_FOUND
      | Some v \<Rightarrow>
          if info_class = OtherClass then Inl STATUS_INVALID_PARAMETER
          else
            (let name = wchar_bytes (kv_name v);
                 tot = (case info_class of KeyValueBasicInformation \<Rightarrow> length name
                        | KeyValueFullInformation \<Rightarrow> length name + length (kv_data v)
                        | _ \<Rightarrow> length (kv_data v));
                 namelen = (if info_class = KeyValuePartialInformation then 0 else length name);
                 maxlen = min tot reply_max
             in Inr (if maxlen = 0 then \<lparr>er_type = kv_type v, er_total = tot, er_namelen = 0, er_data = []\<rparr>
                     else if maxlen > namelen then
                       \<lparr>er_type = kv_type v, er_total = tot, er_namelen = namelen,
                        er_data = take namelen name @ take (maxlen - namelen) (kv_data v)\<rparr>
                     else \<lparr>er_type = kv_type v, er_total = tot, er_namelen = maxlen,
                           er_data = take maxlen name\<rparr>)))"

text \<open>
  Deleting a value: the loop that moves the later values down, the loop that adjusts the
  enumeration order, then the shrinking of the array.
\<close>

definition lower_order :: "nat \<Rightarrow> key_value \<Rightarrow> key_value" where
  "lower_order order v = (if kv_order v > order then v\<lparr>kv_order := kv_order v - 1\<rparr> else v)"

definition move_down :: "nat \<Rightarrow> nat \<Rightarrow> key_value list \<Rightarrow> key_value list" where
  "move_down order i vs =
     (let vs1 = vs[i := lower_order order (vs ! i)] in vs1[i := vs1 ! (i + 1)])"

definition remove_value :: "nat \<Rightarrow> key_value list \<Rightarrow> key_value list" where
  "remove_value index vs =
     (let order = kv_order (vs ! index); n = length vs - 1;
          vs1 = fold (move_down order) [index..<n] vs;
          vs2 = fold (\<lambda>j vs. vs[j := lower_order order (vs ! j)]) [0..<Suc index] vs1
      in take n vs2)"

definition shrink_values :: "(nat \<Rightarrow> bool) \<Rightarrow> key \<Rightarrow> key" where
  "shrink_values mem k =
     (let nb = k_nb_values k
      in if nb > MIN_VALUES \<and> int (length (k_values k)) - 1 < int (nb div 2) then
           (let n = max (nb - nb div 3) MIN_VALUES
            in if mem n then k\<lparr>k_nb_values := n\<rparr> else k)
         else k)"

definition delete_value :: "(nat \<Rightarrow> bool) \<Rightarrow> casemap \<Rightarrow> u64 \<Rightarrow> reg_state \<Rightarrow> wchar list
    \<Rightarrow> ntstatus \<times> reg_state" where
  "delete_value mem cm now s name =
     (let k = rs_key s
      in if has_flag k KEY_PREDEF then (STATUS_INVALID_HANDLE, s)
         else case find_value cm k name of
           (None, _) \<Rightarrow> (STATUS_OBJECT_NAME_NOT_FOUND, s)
         | (Some _, index) \<Rightarrow>
             (let s1 = touch_key now REG_NOTIFY_CHANGE_LAST_SET
                         (s\<lparr>rs_key := k\<lparr>k_values := remove_value index (k_values k)\<rparr>\<rparr>)
              in (STATUS_SUCCESS, s1\<lparr>rs_key := shrink_values mem (rs_key s1)\<rparr>)))"

section \<open>The abstract map and the invariant\<close>

definition value_entry :: "casemap \<Rightarrow> key_value \<Rightarrow> wchar list \<times> u32 \<times> u8 list" where
  "value_entry cm v = (folded cm (kv_name v), kv_type v, kv_data v)"

definition value_map :: "casemap \<Rightarrow> key \<Rightarrow> wchar list \<rightharpoonup> u32 \<times> u8 list" where
  "value_map cm k = map_of (map (value_entry cm) (k_values k))"

definition key_ok :: "casemap \<Rightarrow> key \<Rightarrow> bool" where
  "key_ok cm k \<longleftrightarrow>
     sorted_wrt (\<lambda>a b. name_cmp cm a b < 0) (map kv_name (k_values k)) \<and>
     length (k_values k) \<le> k_nb_values k \<and> (k_nb_values k = 0 \<or> MIN_VALUES \<le> k_nb_values k)"

lemma key_okI:
  assumes "nc.ordered cm (map kv_name (k_values k))" and "length (k_values k) \<le> k_nb_values k"
    and "k_nb_values k = 0 \<or> MIN_VALUES \<le> k_nb_values k"
  shows "key_ok cm k"
  using assms by (simp add: key_ok_def nc.ordered_def)

lemma key_ok_ordered: "key_ok cm k \<Longrightarrow> nc.ordered cm (map kv_name (k_values k))"
  by (simp add: key_ok_def nc.ordered_def)

lemma key_ok_cong:
  "k_values k' = k_values k \<Longrightarrow> k_nb_values k' = k_nb_values k \<Longrightarrow> key_ok cm k' = key_ok cm k"
  by (simp add: key_ok_def)

lemma value_map_cong: "k_values k' = k_values k \<Longrightarrow> value_map cm k' = value_map cm k"
  by (simp add: value_map_def)

lemma ordered_folded_distinct:
  assumes "nc.ordered cm (map kv_name vs)"
  shows "distinct (map fst (map (value_entry cm) vs))"
proof -
  have "fst (value_entry cm (vs ! i)) \<noteq> fst (value_entry cm (vs ! j))" if "i < j" "j < length vs" for i j
    using nc.ordered_nth [OF assms, of i j] that name_cmp_0_iff [of cm "kv_name (vs ! i)" "kv_name (vs ! j)"]
    by (simp add: value_entry_def)
  then have "fst (value_entry cm (vs ! i)) \<noteq> fst (value_entry cm (vs ! j))"
    if "i \<noteq> j" "i < length vs" "j < length vs" for i j
    using that by (cases "i < j") (auto dest: linorder_cases, metis linorder_neqE_nat)
  then show ?thesis by (simp add: distinct_conv_nth)
qed

lemma map_of_update_nth:
  assumes "distinct (map fst xs)" and "i < length xs" and "fst y = fst (xs ! i)"
  shows "map_of (xs[i := y]) = (map_of xs)(fst y \<mapsto> snd y)"
  using assms
proof (induction xs arbitrary: i)
  case (Cons a xs)
  show ?case
  proof (cases i)
    case 0
    then show ?thesis using Cons.prems by (cases y; cases a) auto
  next
    case (Suc m)
    then have "fst a \<noteq> fst y" using Cons.prems by (metis list.set_map distinct.simps(2) imageI list.simps(9) length_Cons nth_Cons_Suc nth_mem Suc_less_eq)
    then show ?thesis using Suc Cons by (auto simp: fun_eq_iff)
  qed
qed simp

lemma map_of_insert_at:
  assumes "fst y \<notin> fst ` set xs"
  shows "map_of (insert_at i y xs) = (map_of xs)(fst y \<mapsto> snd y)"
proof -
  have "map_of (take i xs) (fst y) = None"
    using assms set_take_subset [of i xs] by (auto simp: map_of_eq_None_iff)
  then have "map_of (insert_at i y xs) = (map_of (take i xs @ drop i xs))(fst y \<mapsto> snd y)"
    by (auto simp: insert_at_def map_add_def fun_eq_iff simp del: append_take_drop_id split: option.splits)
  then show ?thesis by simp
qed

lemma map_of_remove_nth:
  assumes "distinct (map fst xs)" and "i < length xs"
  shows "map_of (take i xs @ drop (Suc i) xs) = (map_of xs)(fst (xs ! i) := None)"
proof -
  have x: "xs = take i xs @ xs ! i # drop (Suc i) xs" by (rule id_take_nth_drop [OF assms(2)])
  have d: "distinct (map fst (take i xs @ xs ! i # drop (Suc i) xs))" using assms(1) x by simp
  then have "fst (xs ! i) \<notin> fst ` set (take i xs @ drop (Suc i) xs)" by auto
  then have "map_of (take i xs @ drop (Suc i) xs) (fst (xs ! i)) = None"
    by (simp only: map_of_eq_None_iff not_False_eq_True)
  moreover have "map_of (take i xs @ xs ! i # drop (Suc i) xs) n = map_of (take i xs @ drop (Suc i) xs) n"
    if "n \<noteq> fst (xs ! i)" for n
    using that by (cases "xs ! i") (simp add: map_add_def fun_upd_def split: option.split)
  ultimately show ?thesis
    using x by (auto simp: fun_eq_iff simp del: map_of_append)
qed

section \<open>A change keeps everything but times, flags and waiting events\<close>

definition frame :: "key \<Rightarrow> key \<Rightarrow> bool" where
  "frame k k' \<longleftrightarrow> k_id k' = k_id k \<and> k_name k' = k_name k \<and> k_class k' = k_class k
     \<and> k_nb_subkeys k' = k_nb_subkeys k \<and> k_subkeys k' = k_subkeys k \<and> k_wow6432node k' = k_wow6432node k
     \<and> k_nb_values k' = k_nb_values k \<and> k_values k' = k_values k
     \<and> k_flags k' OR KEY_DIRTY = k_flags k OR KEY_DIRTY"

lemma frame_refl [simp]: "frame k k"
  by (simp add: frame_def)

lemma frame_trans: "frame a b \<Longrightarrow> frame b c \<Longrightarrow> frame a c"
  by (simp add: frame_def)

lemma dirty_chain_frame: "list_all2 frame ks (dirty_chain c ks)"
  by (induction ks) (auto simp: frame_def or.assoc list_all2_refl)

lemma check_notify_frame: "frame k (snd (check_notify change b k))"
  by (simp add: check_notify_def frame_def)

lemma touch_key_frame:
  "frame (rs_key s) (rs_key (touch_key now change s))"
  "list_all2 frame (rs_parents s) (rs_parents (touch_key now change s))"
proof -
  let ?k = "(rs_key s)\<lparr>k_modif := now\<rparr>"
  obtain k1 ps1 where d: "dirty_chain (rs_counter s + 1) (?k # rs_parents s) = k1 # ps1"
    and f: "frame ?k k1" "list_all2 frame (rs_parents s) ps1"
    using dirty_chain_frame [of "?k # rs_parents s" "rs_counter s + 1"]
    unfolding list_all2_Cons1 by blast
  have "frame (rs_key s) ?k" by (simp add: frame_def)
  then have "frame (rs_key s) (snd (check_notify change True k1))"
    using frame_trans [OF frame_trans [OF _ f(1)] check_notify_frame] by simp
  then show "frame (rs_key s) (rs_key (touch_key now change s))"
    using d by (simp add: touch_key_def make_dirty_def Let_def split_beta del: dirty_chain.simps)
  have "frame (rs_parents s ! i) (snd (check_notify change False (ps1 ! i)))" if "i < length ps1" for i
    using frame_trans [OF list_all2_nthD2 [OF f(2) that] check_notify_frame] .
  then have "list_all2 frame (rs_parents s) (map (snd \<circ> check_notify change False) ps1)"
    using list_all2_lengthD [OF f(2)] by (simp add: list_all2_conv_all_nth)
  then show "list_all2 frame (rs_parents s) (rs_parents (touch_key now change s))"
    using d by (simp add: touch_key_def make_dirty_def Let_def split_beta del: dirty_chain.simps)
qed

lemma touch_key_values [simp]:
  "k_values (rs_key (touch_key now change s)) = k_values (rs_key s)"
  "k_nb_values (rs_key (touch_key now change s)) = k_nb_values (rs_key s)"
  using touch_key_frame(1) [of s now change] by (simp_all add: frame_def)

section \<open>Finding, setting and deleting against the map\<close>

lemma bsearch_cong:
  "(\<And>i. 0 \<le> lo \<Longrightarrow> int i \<le> hi \<Longrightarrow> r1 i = r2 i) \<Longrightarrow> 0 \<le> lo \<Longrightarrow> bsearch r1 lo hi = bsearch r2 lo hi"
proof (induction r1 lo hi rule: bsearch.induct)
  case (1 r1 lo hi)
  show ?case
  proof (cases "lo \<le> hi")
    case True
    let ?i = "(lo + hi) div 2"
    have i: "lo \<le> ?i" "?i \<le> hi" using True by auto
    then have "r1 (nat ?i) = r2 (nat ?i)" using "1.prems" by simp
    moreover have "bsearch r1 lo (?i - 1) = bsearch r2 lo (?i - 1)" if "r1 (nat ?i) > 0"
      using "1.IH"(1) [OF True refl refl] that "1.prems" i by simp
    moreover have "bsearch r1 (?i + 1) hi = bsearch r2 (?i + 1) hi" if "r1 (nat ?i) < 0"
      using "1.IH"(2) [OF True refl refl] that "1.prems" i by simp
    ultimately show ?thesis
      using True by (subst (1 2) bsearch.simps) (auto simp: Let_def)
  next
    case False
    then show ?thesis by (subst (1 2) bsearch.simps) simp
  qed
qed

lemma find_value_cases:
  assumes "key_ok cm k"
  obtains (found) i where "find_value cm k name = (Some i, i)" and "i < length (k_values k)"
      and "folded cm (kv_name (k_values k ! i)) = folded cm name"
    | (absent) j where "find_value cm k name = (None, j)"
      and "nc.place cm (map kv_name (k_values k)) name j"
      and "folded cm name \<notin> fst ` set (map (value_entry cm) (k_values k))"
proof -
  let ?ks = "map kv_name (k_values k)"
  obtain f j where fj: "find_value cm k name = (f, j)" by fastforce
  have b: "bsearch (\<lambda>i. name_cmp cm (?ks ! i) name) 0 (int (length ?ks) - 1) = (f, j)"
    using fj bsearch_cong [of 0 "int (length ?ks) - 1" "\<lambda>i. name_cmp cm (?ks ! i) name"
      "\<lambda>i. name_cmp cm (kv_name (k_values k ! i)) name"]
    by (simp add: find_value_def)
  note c = nc.bsearch_correct [OF key_ok_ordered [OF assms] b]
    and n = nc.bsearch_none_iff [OF key_ok_ordered [OF assms] b]
  show ?thesis
  proof (cases f)
    case None
    then have "folded cm name \<notin> fst ` set (map (value_entry cm) (k_values k))"
      using n name_cmp_0_iff [of cm _ name] by (fastforce simp: value_entry_def)
    then show ?thesis using absent None fj c by simp
  next
    case (Some i)
    then show ?thesis using found fj c by (auto simp: name_cmp_0_iff)
  qed
qed

lemma value_map_found:
  assumes "key_ok cm k" and "i < length (k_values k)" and "folded cm (kv_name (k_values k ! i)) = n"
  shows "value_map cm k n = Some (kv_type (k_values k ! i), kv_data (k_values k ! i))"
proof -
  have "(n, kv_type (k_values k ! i), kv_data (k_values k ! i)) \<in> set (map (value_entry cm) (k_values k))"
    using imageI [OF nth_mem [OF assms(2)], of "value_entry cm"] assms(3) by (simp add: value_entry_def)
  then show ?thesis
    unfolding value_map_def
    by (rule map_of_is_SomeI [OF ordered_folded_distinct [OF key_ok_ordered [OF assms(1)]]])
qed

lemma value_map_absent:
  "folded cm name \<notin> fst ` set (map (value_entry cm) (k_values k)) \<Longrightarrow> value_map cm k (folded cm name) = None"
  by (simp only: value_map_def map_of_eq_None_iff not_False_eq_True)

lemma insert_at_map: "map f (insert_at i x xs) = insert_at i (f x) (map f xs)"
  by (simp add: insert_at_def take_map drop_map)

lemma insert_at_nth: "i \<le> length xs \<Longrightarrow> insert_at i x xs ! i = x"
  by (simp add: insert_at_def nth_append)

lemma insert_at_update: "i \<le> length xs \<Longrightarrow> (insert_at i x xs)[i := y] = insert_at i y xs"
  by (simp add: insert_at_def list_update_append)

lemma set_insert_at: "set (insert_at i x xs) = insert x (set xs)"
proof -
  have "set xs = set (take i xs) \<union> set (drop i xs)" by (metis append_take_drop_id set_append)
  then show ?thesis by (simp add: insert_at_def)
qed

lemma length_insert_at [simp]: "length (insert_at i x xs) = Suc (length xs)"
  by (simp add: insert_at_def)

lemma grow_values_props:
  assumes "grow_values mem k = Some k'" and "key_ok cm k"
  shows "k_values k' = k_values k" and "k_nb_values k < k_nb_values k'" and "MIN_VALUES \<le> k_nb_values k'"
    and "k_flags k' = k_flags k"
  using assms by (auto simp: grow_values_def key_ok_def MIN_VALUES_def Let_def split: if_splits)

text \<open>The record insertion leaves in the array, once the caller has filled it.\<close>

lemma insert_value_props:
  assumes "insert_value mem k name j (-1) = (status, k')" and "key_ok cm k"
    and "nc.place cm (map kv_name (k_values k)) name j"
  shows "status \<noteq> STATUS_SUCCESS \<Longrightarrow>
      k_values k' = k_values k \<and> key_ok cm k' \<and> (length name > MAX_VALUE_LEN \<and> status = STATUS_NAME_TOO_LONG
        \<or> \<not> (\<forall>n. mem n) \<and> status = STATUS_NO_MEMORY)"
    and "status = STATUS_SUCCESS \<Longrightarrow>
      k_values k' = insert_at j \<lparr>kv_name = name, kv_type = 0, kv_data = [], kv_order = length (k_values k)\<rparr>
        (k_values k) \<and> key_ok cm k' \<and> length name \<le> MAX_VALUE_LEN"
    and "k_flags k' = k_flags k"
proof -
  have o: "nc.ordered cm (map kv_name (insert_at j \<lparr>kv_name = name, kv_type = 0, kv_data = [],
      kv_order = length (k_values k)\<rparr> (k_values k)))"
    using nc.ordered_insert [OF key_ok_ordered [OF assms(2)] assms(3)]
    by (simp add: insert_at_map) (simp add: insert_at_def)
  let ?room = "if length (k_values k) = k_nb_values k then grow_values mem k else Some k"
  have room: "k_values k1 = k_values k" "length (k_values k) < k_nb_values k1" "MIN_VALUES \<le> k_nb_values k1"
    "k_flags k1 = k_flags k" if "?room = Some k1" for k1
  proof -
    have "k_values k1 = k_values k \<and> length (k_values k) < k_nb_values k1 \<and> MIN_VALUES \<le> k_nb_values k1
      \<and> k_flags k1 = k_flags k"
    proof (cases "length (k_values k) = k_nb_values k")
      case True
      then have "grow_values mem k = Some k1" using that by simp
      from grow_values_props [OF this assms(2)] True show ?thesis by simp
    next
      case False
      then have "k1 = k" using that by simp
      moreover have "length (k_values k) < k_nb_values k" "MIN_VALUES \<le> k_nb_values k"
        using False assms(2) by (auto simp: key_ok_def)
      ultimately show ?thesis by simp
    qed
    then show "k_values k1 = k_values k" "length (k_values k) < k_nb_values k1" "MIN_VALUES \<le> k_nb_values k1"
      "k_flags k1 = k_flags k" by auto
  qed
  consider (long) "length name > MAX_VALUE_LEN" | (full) "length name \<le> MAX_VALUE_LEN" "?room = None"
    | (some) k1 where "length name \<le> MAX_VALUE_LEN" "?room = Some k1"
    by fastforce
  then have "(status \<noteq> STATUS_SUCCESS \<longrightarrow>
      k_values k' = k_values k \<and> key_ok cm k' \<and> (length name > MAX_VALUE_LEN \<and> status = STATUS_NAME_TOO_LONG
        \<or> \<not> (\<forall>n. mem n) \<and> status = STATUS_NO_MEMORY)) \<and>
    (status = STATUS_SUCCESS \<longrightarrow>
      k_values k' = insert_at j \<lparr>kv_name = name, kv_type = 0, kv_data = [], kv_order = length (k_values k)\<rparr>
        (k_values k) \<and> key_ok cm k' \<and> length name \<le> MAX_VALUE_LEN) \<and> k_flags k' = k_flags k"
  proof cases
    case long
    then have "status = STATUS_NAME_TOO_LONG" "k' = k" using assms(1) by (simp_all add: insert_value_def)
    then show ?thesis using assms(2) long by simp
  next
    case full
    then have "status = STATUS_NO_MEMORY" "k' = k"
      using assms(1) unfolding insert_value_def full(2) by simp_all
    moreover have "\<not> (\<forall>n. mem n)"
      using full(2) by (auto simp: grow_values_def Let_def split: if_splits)
    ultimately show ?thesis using assms(2) by simp
  next
    case (some k1)
    note g = room [OF some(2)]
    note r = assms(1) [unfolded insert_value_def some(2)]
    show ?thesis
    proof (cases "name \<noteq> [] \<and> \<not> mem (length name)")
      case True
      then have "status = STATUS_NO_MEMORY" "k' = k1" using r some(1) by auto
      moreover have "key_ok cm k1" using assms(2) g by (simp add: key_ok_def)
      ultimately show ?thesis using g True by auto
    next
      case False
      then have "status = STATUS_SUCCESS" "k' = k1\<lparr>k_values := insert_at j \<lparr>kv_name = name, kv_type = 0,
          kv_data = [], kv_order = length (k_values k)\<rparr> (k_values k)\<rparr>"
        using r some(1) g(1) by (simp_all split: if_splits)
      then show ?thesis using some(1) g o by (simp add: key_okI)
    qed
  qed
  then show "status \<noteq> STATUS_SUCCESS \<Longrightarrow>
      k_values k' = k_values k \<and> key_ok cm k' \<and> (length name > MAX_VALUE_LEN \<and> status = STATUS_NAME_TOO_LONG
        \<or> \<not> (\<forall>n. mem n) \<and> status = STATUS_NO_MEMORY)"
    and "status = STATUS_SUCCESS \<Longrightarrow>
      k_values k' = insert_at j \<lparr>kv_name = name, kv_type = 0, kv_data = [], kv_order = length (k_values k)\<rparr>
        (k_values k) \<and> key_ok cm k' \<and> length name \<le> MAX_VALUE_LEN"
    and "k_flags k' = k_flags k"
    by blast+
qed

text \<open>
  Values are enumerated by the number they got when they were created. These numbers have
  to be those below the count of values.
\<close>

definition orders_ok :: "key \<Rightarrow> bool" where
  "orders_ok k \<longleftrightarrow> kv_order ` set (k_values k) = {..<length (k_values k)}"

lemma orders_distinct: "orders_ok k \<Longrightarrow> distinct (map kv_order (k_values k))"
  by (rule card_distinct) (simp add: orders_ok_def)

lemma orders_cong: "map kv_order (k_values k') = map kv_order (k_values k) \<Longrightarrow> orders_ok k' = orders_ok k"
  unfolding orders_ok_def by (metis length_map set_map)

lemma find_order:
  assumes "orders_ok k" and "v \<in> set (k_values k)"
  shows "find (\<lambda>w. int (kv_order w) = int (kv_order v)) (k_values k) = Some v"
proof (cases "find (\<lambda>w. int (kv_order w) = int (kv_order v)) (k_values k)")
  case None
  then show ?thesis using assms(2) by (auto simp: find_None_iff)
next
  case (Some w)
  then have "w \<in> set (k_values k)" "kv_order w = kv_order v" by (auto simp: find_Some_iff)
  then have "w = v" using orders_distinct [OF assms(1)] assms(2) by (auto simp: distinct_map inj_on_def)
  then show ?thesis using Some by simp
qed

lemma fill_existing:
  fixes ty :: u32 and data :: "u8 list"
  assumes "key_ok cm k" and "i < length (k_values k)" and "folded cm (kv_name (k_values k ! i)) = n"
  defines "k' \<equiv> k\<lparr>k_values := (k_values k)[i := (k_values k ! i)\<lparr>kv_type := ty, kv_data := data\<rparr>]\<rparr>"
  shows "key_ok cm k'" and "value_map cm k' = (value_map cm k)(n \<mapsto> (ty, data))"
    and "orders_ok k \<Longrightarrow> orders_ok k'"
proof -
  have "map kv_order (k_values k') = map kv_order (k_values k)"
    using assms(2) by (simp add: k'_def map_update list_update_same_conv)
  then show "orders_ok k \<Longrightarrow> orders_ok k'" using orders_cong [of k' k] by simp
  have "map kv_name (k_values k') = map kv_name (k_values k)"
    using assms(2) by (simp add: k'_def map_update list_update_same_conv)
  then show "key_ok cm k'"
    using assms(1) by (simp add: key_ok_def k'_def)
  have "map (value_entry cm) (k_values k') = (map (value_entry cm) (k_values k))[i := (n, ty, data)]"
    using assms(3) by (simp add: k'_def map_update value_entry_def)
  moreover have "map_of ((map (value_entry cm) (k_values k))[i := (n, ty, data)])
      = (map_of (map (value_entry cm) (k_values k)))(n \<mapsto> (ty, data))"
    using map_of_update_nth [OF ordered_folded_distinct [OF key_ok_ordered [OF assms(1)]], of i "(n, ty, data)"]
      assms(2,3) by (simp add: value_entry_def)
  ultimately show "value_map cm k' = (value_map cm k)(n \<mapsto> (ty, data))"
    by (simp add: value_map_def)
qed

lemma fill_inserted:
  fixes ty :: u32 and data :: "u8 list"
  assumes "insert_value mem k name j (-1) = (STATUS_SUCCESS, k1)" and "key_ok cm k"
    and "nc.place cm (map kv_name (k_values k)) name j"
    and "folded cm name \<notin> fst ` set (map (value_entry cm) (k_values k))"
  defines "k' \<equiv> k1\<lparr>k_values := (k_values k1)[j := (k_values k1 ! j)\<lparr>kv_type := ty, kv_data := data\<rparr>]\<rparr>"
  shows "key_ok cm k'" and "value_map cm k' = (value_map cm k)(folded cm name \<mapsto> (ty, data))"
    and "k_values k' = insert_at j \<lparr>kv_name = name, kv_type = ty, kv_data = data, kv_order = length (k_values k)\<rparr>
      (k_values k)"
    and "orders_ok k \<Longrightarrow> orders_ok k'"
proof -
  note p = insert_value_props(2) [OF assms(1-3) refl]
  have j: "j \<le> length (k_values k)" using assms(3) by (simp add: nc.place_def)
  show v: "k_values k' = insert_at j \<lparr>kv_name = name, kv_type = ty, kv_data = data, kv_order = length (k_values k)\<rparr>
      (k_values k)"
    using p j by (simp add: k'_def insert_at_nth insert_at_update)
  have "set (k_values k') = insert \<lparr>kv_name = name, kv_type = ty, kv_data = data, kv_order = length (k_values k)\<rparr>
      (set (k_values k))"
    unfolding v by (simp add: set_insert_at)
  then show "orders_ok k \<Longrightarrow> orders_ok k'" by (simp add: orders_ok_def v lessThan_Suc)
  have "map kv_name (k_values k') = map kv_name (k_values k1)"
    using p unfolding v by (simp add: insert_at_map)
  moreover have "length (k_values k') = length (k_values k1)" "k_nb_values k' = k_nb_values k1"
    by (simp_all add: k'_def)
  moreover have "key_ok cm k1" using p by blast
  ultimately show "key_ok cm k'" by (simp only: key_ok_def)
  show "value_map cm k' = (value_map cm k)(folded cm name \<mapsto> (ty, data))"
    using map_of_insert_at [of "(folded cm name, ty, data)" "map (value_entry cm) (k_values k)" j] assms(4)
    unfolding value_map_def v by (simp add: insert_at_map value_entry_def)
qed

lemma frame_flag:
  assumes "frame k k'" and "f AND KEY_DIRTY = 0"
  shows "has_flag k' f = has_flag k f"
proof -
  have "(x OR KEY_DIRTY) AND f = x AND f" for x
    using assms(2) and.commute [of f KEY_DIRTY] by (simp add: bit.conj_disj_distrib2)
  then have "k_flags k' AND f = k_flags k AND f"
    using assms(1) unfolding frame_def by metis
  then show ?thesis by (simp add: has_flag_def)
qed

lemma get_value_map:
  assumes "key_ok cm k"
  shows "get_value cm k name reply_max =
    (if has_flag k KEY_PREDEF then Inl STATUS_INVALID_HANDLE
     else case value_map cm k (folded cm name) of
       None \<Rightarrow> Inl STATUS_OBJECT_NAME_NOT_FOUND
     | Some (ty, data) \<Rightarrow> Inr (ty, length data, take reply_max data))"
  using assms
proof (cases rule: find_value_cases [where name = name])
  case (found i)
  then show ?thesis
    using value_map_found [OF assms found(2,3)] by (simp add: get_value_def Let_def min_def)
next
  case (absent j)
  then show ?thesis using value_map_absent [OF absent(3)] by (simp add: get_value_def)
qed

text \<open>The ways in which setting a value can end, and the key it leaves.\<close>

lemma set_value_cases:
  assumes "key_ok cm (rs_key s)" and "set_value mem cm now s name ty data = (status, s')"
  shows "(status = STATUS_SUCCESS \<and> \<not> has_flag (rs_key s) KEY_PREDEF \<and>
       (s' = s \<and> value_map cm (rs_key s) (folded cm name) = Some (ty, data)
        \<or> (\<exists>k. s' = touch_key now REG_NOTIFY_CHANGE_LAST_SET (s\<lparr>rs_key := k\<rparr>) \<and> key_ok cm k \<and> k_flags k = k_flags (rs_key s)
              \<and> (orders_ok (rs_key s) \<longrightarrow> orders_ok k)
              \<and> value_map cm k = (value_map cm (rs_key s))(folded cm name \<mapsto> (ty, data)))))
    \<or> status \<noteq> STATUS_SUCCESS \<and>
       (\<exists>k. s' = s\<lparr>rs_key := k\<rparr> \<and> key_ok cm k \<and> k_flags k = k_flags (rs_key s) \<and> k_values k = k_values (rs_key s))
       \<and> (has_flag (rs_key s) KEY_PREDEF \<and> status = STATUS_INVALID_HANDLE
          \<or> has_flag (rs_key s) KEY_SYMLINK \<and> status = STATUS_ACCESS_DENIED
          \<or> length name > MAX_VALUE_LEN \<and> status = STATUS_NAME_TOO_LONG
          \<or> \<not> (\<forall>n. mem n) \<and> status = STATUS_NO_MEMORY)"
proof -
  let ?k = "rs_key s"
  obtain vl j where f: "find_value cm ?k name = (vl, j)" by fastforce
  note d = assms(2) [unfolded set_value_def Let_def f prod.case]
  have self: "\<exists>k. s = s\<lparr>rs_key := k\<rparr> \<and> key_ok cm k \<and> k_flags k = k_flags ?k \<and> k_values k = k_values ?k"
    using assms(1) by (intro exI [of _ ?k]) simp
  show ?thesis
  proof (cases "has_flag ?k KEY_PREDEF")
    case True
    then have e: "status = STATUS_INVALID_HANDLE" "s' = s" using d by simp_all
    show ?thesis unfolding e by (rule disjI2, intro conjI self) (use True in auto)
  next
    case predef: False
    show ?thesis
    proof (cases "case vl of Some i \<Rightarrow> same_value (k_values ?k ! i) ty data | None \<Rightarrow> False")
      case True
      then obtain i where i: "vl = Some i" "same_value (k_values ?k ! i) ty data" by (auto split: option.splits)
      have "value_map cm ?k (folded cm name) = Some (ty, data)"
        using assms(1)
      proof (cases rule: find_value_cases [where name = name])
        case (found m)
        then show ?thesis using value_map_found [OF assms(1) found(2,3)] f i by (simp add: same_value_def)
      qed (use f i in simp)
      then show ?thesis using d predef True by simp
    next
      case differs: False
      show ?thesis
      proof (cases "has_flag ?k KEY_SYMLINK \<and>
             (ty \<noteq> REG_LINK \<or> length name \<noteq> length symlink_str
              \<or> memicmp_strW cm name symlink_str (length name) \<noteq> 0)")
        case True
        then have e: "status = STATUS_ACCESS_DENIED" "s' = s" using d predef differs by simp_all
        show ?thesis unfolding e by (rule disjI2, intro conjI self) (use True in auto)
      next
        case link: False
        note d1 = d [unfolded if_not_P [OF predef] if_not_P [OF differs] if_not_P [OF link]]
        show ?thesis
        proof (cases "data \<noteq> [] \<and> \<not> mem (length data)")
          case True
          then have e: "status = STATUS_NO_MEMORY" "s' = s" using d1 by simp_all
          show ?thesis unfolding e by (rule disjI2, intro conjI self) (use True in auto)
        next
          case room: False
          note d2 = d1 [unfolded if_not_P [OF room]]
          show ?thesis
            using assms(1)
          proof (cases rule: find_value_cases [where name = name])
            case (found i)
            then have e: "status = STATUS_SUCCESS" "s' = touch_key now REG_NOTIFY_CHANGE_LAST_SET
               (s\<lparr>rs_key := ?k\<lparr>k_values := (k_values ?k)[i := (k_values ?k ! i)\<lparr>kv_type := ty, kv_data := data\<rparr>]\<rparr>\<rparr>)"
              using d2 f by simp_all
            note fe = fill_existing [OF assms(1) found(2,3)]
            show ?thesis unfolding e
              by (rule disjI1, intro conjI, rule refl, rule predef, rule disjI2, rule exI, intro conjI,
                  rule refl, rule fe(1), simp, rule impI, erule fe(3), rule fe(2))
          next
            case (absent m)
            obtain st k1 where i: "insert_value mem ?k name j (-1) = (st, k1)" by fastforce
            have m: "m = j" "vl = None" using absent(1) f by simp_all
            show ?thesis
            proof (cases "st = STATUS_SUCCESS")
              case True
              then have e: "status = STATUS_SUCCESS" "s' = touch_key now REG_NOTIFY_CHANGE_LAST_SET
                 (s\<lparr>rs_key := k1\<lparr>k_values := (k_values k1)[j := (k_values k1 ! j)\<lparr>kv_type := ty, kv_data := data\<rparr>]\<rparr>\<rparr>)"
                using d2 i m by simp_all
              note fi = fill_inserted [OF i [unfolded True] assms(1) absent(2,3) [unfolded m]]
                insert_value_props(3) [OF i assms(1) absent(2) [unfolded m]]
              show ?thesis unfolding e
                by (rule disjI1, intro conjI, rule refl, rule predef, rule disjI2, rule exI, intro conjI,
                    rule refl, rule fi(1), simp add: fi(5), rule impI, erule fi(4), rule fi(2))
            next
              case False
              then have "status = st" "s' = s\<lparr>rs_key := k1\<rparr>" using d2 i m by simp_all
              then show ?thesis
                using insert_value_props(1,3) [OF i assms(1) absent(2) [unfolded m]] False by auto
            qed
          qed
        qed
      qed
    qed
  qed
qed

section \<open>What deleting does to the array\<close>

text \<open>The adjustment of the order inside the first loop changes a slot that is overwritten at once.\<close>

lemma move_down_eq: "move_down order i vs = vs[i := vs ! Suc i]"
  by (simp add: move_down_def Let_def)

lemma fold_move_down:
  assumes "i \<le> m" and "m < length vs"
  shows "length (fold (move_down order) [i..<m] vs) = length vs \<and>
    (\<forall>j < length vs. fold (move_down order) [i..<m] vs ! j = (if i \<le> j \<and> j < m then vs ! Suc j else vs ! j))"
  using assms
proof (induction m)
  case (Suc m)
  show ?case
  proof (cases "i \<le> m")
    case True
    define ws where "ws = fold (move_down order) [i..<m] vs"
    have "length ws = length vs" "\<forall>j < length vs. ws ! j = (if i \<le> j \<and> j < m then vs ! Suc j else vs ! j)"
      using Suc True by (simp_all add: ws_def)
    moreover have "fold (move_down order) [i..<Suc m] vs = ws[m := ws ! Suc m]"
      using True by (simp add: ws_def move_down_eq)
    ultimately show ?thesis
      using True Suc.prems by (auto simp: nth_list_update less_Suc_eq)
  next
    case False
    then show ?thesis using Suc.prems by auto
  qed
qed auto

lemma fold_update:
  "m \<le> length xs \<Longrightarrow> length (fold (\<lambda>j ys. ys[j := f (ys ! j)]) [0..<m] xs) = length xs \<and>
    (\<forall>j < length xs. fold (\<lambda>j ys. ys[j := f (ys ! j)]) [0..<m] xs ! j = (if j < m then f (xs ! j) else xs ! j))"
  by (induction m) (auto simp: nth_list_update less_Suc_eq)

lemma remove_value_nth:
  assumes "i < length vs"
  shows "length (remove_value i vs) = length vs - 1" (is ?len)
    and "j < length vs - 1 \<Longrightarrow> remove_value i vs ! j =
      (if j < i then lower_order (kv_order (vs ! i)) (vs ! j)
       else if j = i then lower_order (kv_order (vs ! i)) (vs ! Suc j) else vs ! Suc j)"
proof -
  let ?o = "kv_order (vs ! i)"
  define ws where "ws = fold (move_down ?o) [i..<length vs - 1] vs"
  have w: "length ws = length vs"
    "\<And>j. j < length vs \<Longrightarrow> ws ! j = (if i \<le> j \<and> j < length vs - 1 then vs ! Suc j else vs ! j)"
    using fold_move_down [of i "length vs - 1" vs ?o] assms by (auto simp: ws_def)
  have u: "length (fold (\<lambda>j ys. ys[j := lower_order ?o (ys ! j)]) [0..<Suc i] ws) = length vs"
    "\<And>j. j < length vs \<Longrightarrow> fold (\<lambda>j ys. ys[j := lower_order ?o (ys ! j)]) [0..<Suc i] ws ! j
       = (if j < Suc i then lower_order ?o (ws ! j) else ws ! j)"
    using fold_update [of "Suc i" ws "lower_order ?o"] assms w(1) by (auto simp del: upt_Suc)
  have r: "remove_value i vs = take (length vs - 1) (fold (\<lambda>j ys. ys[j := lower_order ?o (ys ! j)]) [0..<Suc i] ws)"
    by (simp only: remove_value_def Let_def ws_def)
  show ?len using u(1) by (simp add: r del: upt_Suc)
  show "remove_value i vs ! j =
      (if j < i then lower_order (kv_order (vs ! i)) (vs ! j)
       else if j = i then lower_order (kv_order (vs ! i)) (vs ! Suc j) else vs ! Suc j)" if "j < length vs - 1"
    using that u(2) [of j] w(2) [of j] unfolding r by (auto simp del: upt_Suc simp: less_Suc_eq)
qed

lemma lower_order_fields [simp]:
  "kv_name (lower_order n v) = kv_name v" "value_entry cm (lower_order n v) = value_entry cm v"
  by (simp_all add: lower_order_def value_entry_def)

lemma remove_value_map:
  assumes "i < length vs" and "\<And>n v. f (lower_order n v) = f v"
  shows "map f (remove_value i vs) = take i (map f vs) @ drop (Suc i) (map f vs)"
proof (rule nth_equalityI)
  show "length (map f (remove_value i vs)) = length (take i (map f vs) @ drop (Suc i) (map f vs))"
    using assms(1) remove_value_nth(1) [OF assms(1)] by simp
  fix j assume "j < length (map f (remove_value i vs))"
  then have j: "j < length vs - 1" using remove_value_nth(1) [OF assms(1)] by simp
  then show "map f (remove_value i vs) ! j = (take i (map f vs) @ drop (Suc i) (map f vs)) ! j"
    using remove_value_nth [OF assms(1)] assms by (auto simp: nth_append)
qed

lemma shrink_values_props:
  "k_values (shrink_values mem k) = k_values k" "k_flags (shrink_values mem k) = k_flags k"
  "key_ok cm k \<Longrightarrow> key_ok cm (shrink_values mem k)"
  by (auto simp: shrink_values_def key_ok_def MIN_VALUES_def Let_def)

lemma remove_value_ok:
  assumes "key_ok cm k" and "i < length (k_values k)"
  shows "key_ok cm (k\<lparr>k_values := remove_value i (k_values k)\<rparr>)"
    and "value_map cm (k\<lparr>k_values := remove_value i (k_values k)\<rparr>)
      = (value_map cm k)(folded cm (kv_name (k_values k ! i)) := None)"
proof -
  show "key_ok cm (k\<lparr>k_values := remove_value i (k_values k)\<rparr>)"
  proof (rule key_okI)
    show "nc.ordered cm (map kv_name (k_values (k\<lparr>k_values := remove_value i (k_values k)\<rparr>)))"
      using nc.ordered_remove [OF key_ok_ordered [OF assms(1)]] remove_value_map [OF assms(2), of kv_name] by simp
  qed (use assms remove_value_nth(1) [OF assms(2)] in \<open>auto simp: key_ok_def\<close>)
  have "fst (map (value_entry cm) (k_values k) ! i) = folded cm (kv_name (k_values k ! i))"
    using assms(2) by (simp add: value_entry_def)
  then show "value_map cm (k\<lparr>k_values := remove_value i (k_values k)\<rparr>)
      = (value_map cm k)(folded cm (kv_name (k_values k ! i)) := None)"
    using map_of_remove_nth [OF ordered_folded_distinct [OF key_ok_ordered [OF assms(1)]], of i] assms(2)
      remove_value_map [OF assms(2), of "value_entry cm"]
    by (simp add: value_map_def)
qed

section \<open>Properties\<close>

text \<open>Concrete keys for the examples: without values, and after setting the values a, b and c.\<close>

definition empty_key :: key where
  "empty_key = \<lparr>k_id = 0, k_name = [], k_class = [], k_nb_subkeys = 0, k_subkeys = [], k_wow6432node = None, k_nb_values = 0,
     k_values = [], k_flags = KEY_DIRTY, k_modif = 0, k_notify = [], k_timestamp = 0\<rparr>"

definition empty_state :: reg_state where
  "empty_state = \<lparr>rs_key = empty_key, rs_parents = [], rs_counter = 0, rs_events = []\<rparr>"

definition three_values :: reg_state where
  "three_values =
     snd (set_value (\<lambda>_. True) (\<lambda>_. 0) 0
       (snd (set_value (\<lambda>_. True) (\<lambda>_. 0) 0
         (snd (set_value (\<lambda>_. True) (\<lambda>_. 0) 0 empty_state [97] 1 [10])) [98] 1 [11])) [99] 1 [12])"

lemma empty_key_ok: "key_ok cm empty_key" "orders_ok empty_key"
  by (simp_all add: key_ok_def orders_ok_def empty_key_def)

lemma three_values_eq:
  "three_values =
     \<lparr>rs_key = empty_key\<lparr>k_nb_values := 8, k_values :=
        [\<lparr>kv_name = [97], kv_type = 1, kv_data = [10], kv_order = 0\<rparr>,
         \<lparr>kv_name = [98], kv_type = 1, kv_data = [11], kv_order = 1\<rparr>,
         \<lparr>kv_name = [99], kv_type = 1, kv_data = [12], kv_order = 2\<rparr>]\<rparr>,
      rs_parents = [], rs_counter = 3, rs_events = []\<rparr>"
  by code_simp

lemma three_values_ok: "key_ok (\<lambda>_. 0) (rs_key three_values)" "orders_ok (rs_key three_values)"
  unfolding three_values_eq by code_simp+

text \<open>
  (C10) Setting a value: on success the key maps the folded name to the new type and data and
  every other name as before; on an error no value changes and the status names its reason;
  without one of these reasons the call succeeds. Reading the name back gives what was set.
  The values of the parents and everything else but flags, times and waiting events stays.
\<close>

theorem set_value_refines:
  assumes "key_ok cm (rs_key s)" and "set_value mem cm now s name ty data = (status, s')"
  shows "key_ok cm (rs_key s')
    \<and> value_map cm (rs_key s') =
      (if status = STATUS_SUCCESS then (value_map cm (rs_key s))(folded cm name \<mapsto> (ty, data))
       else value_map cm (rs_key s))
    \<and> (status = STATUS_SUCCESS \<longrightarrow>
        get_value cm (rs_key s') name reply_max = Inr (ty, length data, take reply_max data))
    \<and> (status = STATUS_SUCCESS
      \<or> has_flag (rs_key s) KEY_PREDEF \<and> status = STATUS_INVALID_HANDLE
      \<or> has_flag (rs_key s) KEY_SYMLINK \<and> status = STATUS_ACCESS_DENIED
      \<or> length name > MAX_VALUE_LEN \<and> status = STATUS_NAME_TOO_LONG
      \<or> \<not> (\<forall>n. mem n) \<and> status = STATUS_NO_MEMORY)
    \<and> list_all2 frame (rs_parents s) (rs_parents s')"
proof -
  have P: "KEY_PREDEF AND KEY_DIRTY = 0" by (simp add: KEY_PREDEF_def KEY_DIRTY_def)
  consider (same) "status = STATUS_SUCCESS" "\<not> has_flag (rs_key s) KEY_PREDEF" "s' = s"
      "value_map cm (rs_key s) (folded cm name) = Some (ty, data)"
    | (changed) k where "status = STATUS_SUCCESS" "\<not> has_flag (rs_key s) KEY_PREDEF"
      "s' = touch_key now REG_NOTIFY_CHANGE_LAST_SET (s\<lparr>rs_key := k\<rparr>)" "key_ok cm k"
      "k_flags k = k_flags (rs_key s)" "value_map cm k = (value_map cm (rs_key s))(folded cm name \<mapsto> (ty, data))"
    | (refused) k where "status \<noteq> STATUS_SUCCESS" "s' = s\<lparr>rs_key := k\<rparr>" "key_ok cm k" "k_values k = k_values (rs_key s)"
      "has_flag (rs_key s) KEY_PREDEF \<and> status = STATUS_INVALID_HANDLE
      \<or> has_flag (rs_key s) KEY_SYMLINK \<and> status = STATUS_ACCESS_DENIED
      \<or> length name > MAX_VALUE_LEN \<and> status = STATUS_NAME_TOO_LONG
      \<or> \<not> (\<forall>n. mem n) \<and> status = STATUS_NO_MEMORY"
    using set_value_cases [OF assms] by blast
  then show ?thesis
  proof cases
    case same
    then show ?thesis using assms(1) by (simp add: get_value_map list_all2_refl fun_upd_idem)
  next
    case changed
    let ?t = "touch_key now REG_NOTIFY_CHANGE_LAST_SET (s\<lparr>rs_key := k\<rparr>)"
    have f: "frame k (rs_key ?t)" "list_all2 frame (rs_parents s) (rs_parents ?t)"
      using touch_key_frame [of "s\<lparr>rs_key := k\<rparr>" now REG_NOTIFY_CHANGE_LAST_SET] by simp_all
    have "key_ok cm (rs_key ?t)" "value_map cm (rs_key ?t) = value_map cm k"
      using f(1) changed(4) by (simp_all add: frame_def key_ok_def value_map_def)
    moreover have "\<not> has_flag (rs_key ?t) KEY_PREDEF"
      using frame_flag [OF f(1) P] changed(2,5) by (simp add: has_flag_def)
    ultimately show ?thesis using changed f(2) by (simp add: get_value_map)
  next
    case refused
    then show ?thesis by (simp add: value_map_def list_all2_refl)
  qed
qed

theorem set_value_refines_witness:
  "key_ok (\<lambda>_. 0) (rs_key empty_state)
   \<and> fst (set_value (\<lambda>_. True) (\<lambda>_. 0) 5 empty_state [97] 1 [10]) = STATUS_SUCCESS
   \<and> get_value (\<lambda>_. 0) (rs_key (snd (set_value (\<lambda>_. True) (\<lambda>_. 0) 5 empty_state [97] 1 [10]))) [97] 9
      = Inr (1, 1, [10])"
proof -
  have k: "key_ok (\<lambda>_. 0) (rs_key empty_state)" by (simp add: empty_state_def empty_key_ok)
  have "fst (set_value (\<lambda>_. True) (\<lambda>_. 0) 5 empty_state [97] 1 [10]) = STATUS_SUCCESS" by code_simp
  then show ?thesis
    using k set_value_refines [OF k surjective_pairing, of "\<lambda>_. True" 5 "[97]" 1 "[10]" 9] by simp
qed

text \<open>
  (C11) Deleting a value removes exactly its name from the map, keeps the array sorted and
  within its allocation, and refuses unknown names.
\<close>

theorem delete_value_refines:
  assumes "key_ok cm (rs_key s)"
  shows "\<exists>status s'. delete_value mem cm now s name = (status, s') \<and> key_ok cm (rs_key s')
    \<and> list_all2 frame (rs_parents s) (rs_parents s')
    \<and> (if has_flag (rs_key s) KEY_PREDEF then status = STATUS_INVALID_HANDLE \<and> s' = s
       else if value_map cm (rs_key s) (folded cm name) = None then status = STATUS_OBJECT_NAME_NOT_FOUND \<and> s' = s
       else status = STATUS_SUCCESS \<and> value_map cm (rs_key s') = (value_map cm (rs_key s))(folded cm name := None))"
proof (cases "has_flag (rs_key s) KEY_PREDEF")
  case True
  then show ?thesis using assms by (simp add: delete_value_def list_all2_refl)
next
  case predef: False
  let ?k = "rs_key s"
  show ?thesis
    using assms
  proof (cases rule: find_value_cases [where name = name])
    case (found i)
    let ?k1 = "?k\<lparr>k_values := remove_value i (k_values ?k)\<rparr>"
    let ?t = "touch_key now REG_NOTIFY_CHANGE_LAST_SET (s\<lparr>rs_key := ?k1\<rparr>)"
    have f: "frame ?k1 (rs_key ?t)" "list_all2 frame (rs_parents s) (rs_parents ?t)"
      using touch_key_frame [of "s\<lparr>rs_key := ?k1\<rparr>" now REG_NOTIFY_CHANGE_LAST_SET] by simp_all
    have "key_ok cm (rs_key ?t)" "value_map cm (rs_key ?t) = value_map cm ?k1"
      using f(1) remove_value_ok(1) [OF assms found(2)] by (simp_all add: frame_def key_ok_def value_map_def)
    then have "key_ok cm (shrink_values mem (rs_key ?t))"
      "value_map cm (shrink_values mem (rs_key ?t)) = (value_map cm ?k)(folded cm name := None)"
      using shrink_values_props remove_value_ok(2) [OF assms found(2)] found(3)
      by (simp_all add: value_map_def)
    moreover have "delete_value mem cm now s name = (STATUS_SUCCESS, ?t\<lparr>rs_key := shrink_values mem (rs_key ?t)\<rparr>)"
      using predef found(1) by (simp add: delete_value_def Let_def)
    ultimately show ?thesis
      using predef f(2) value_map_found [OF assms found(2,3)] by simp
  next
    case (absent j)
    then show ?thesis
      using predef assms value_map_absent [OF absent(3)] by (simp add: delete_value_def list_all2_refl)
  qed
qed

theorem delete_value_refines_witness:
  "key_ok (\<lambda>_. 0) (rs_key three_values)
   \<and> value_map (\<lambda>_. 0) (rs_key (snd (delete_value (\<lambda>_. True) (\<lambda>_. 0) 5 three_values [98]))) (folded (\<lambda>_. 0) [98]) = None"
proof -
  have "has_flag (rs_key three_values) KEY_PREDEF = False"
    "value_map (\<lambda>_. 0) (rs_key three_values) (folded (\<lambda>_. 0) [98]) = Some (1, [11])"
    unfolding three_values_eq by code_simp+
  then show ?thesis
    using three_values_ok(1) delete_value_refines [OF three_values_ok(1), of "\<lambda>_. True" 5 "[98]"]
    by (elim exE) (simp only: snd_conv if_False option.distinct fun_upd_same simp_thms)
qed

text \<open>
  (C30) As long as values are only set, enumerating a key by index yields each value once,
  with its type, name and data, and the end of the values after the last.
\<close>

theorem enum_value_complete:
  assumes "key_ok cm (rs_key s)" and "orders_ok (rs_key s)"
    and "set_value mem cm now s name ty data = (status, s')" and "\<not> has_flag (rs_key s') KEY_PREDEF"
  shows "orders_ok (rs_key s')
    \<and> (\<forall>i \<ge> length (k_values (rs_key s')). \<forall>cl. enum_value (rs_key s') (int i) cl reply_max = Inl STATUS_NO_MORE_ENTRIES)
    \<and> (\<forall>i < length (k_values (rs_key s')). \<exists>!v. v \<in> set (k_values (rs_key s')) \<and> kv_order v = i)
    \<and> (\<forall>v\<in>set (k_values (rs_key s')). length (wchar_bytes (kv_name v)) + length (kv_data v) \<le> reply_max \<longrightarrow>
        enum_value (rs_key s') (int (kv_order v)) KeyValueFullInformation reply_max =
          Inr \<lparr>er_type = kv_type v, er_total = length (wchar_bytes (kv_name v)) + length (kv_data v),
               er_namelen = length (wchar_bytes (kv_name v)), er_data = wchar_bytes (kv_name v) @ kv_data v\<rparr>)"
proof -
  let ?k = "rs_key s'"
  have o: "orders_ok ?k"
    using set_value_cases [OF assms(1,3)] assms(2) by (auto simp: orders_ok_def)
  have "\<exists>!v. v \<in> set (k_values ?k) \<and> kv_order v = i" if "i < length (k_values ?k)" for i
  proof -
    have "i \<in> kv_order ` set (k_values ?k)" using o that by (simp add: orders_ok_def)
    then show ?thesis using orders_distinct [OF o] by (auto simp: distinct_map inj_on_def)
  qed
  moreover have "enum_value ?k (int (kv_order v)) KeyValueFullInformation reply_max =
          Inr \<lparr>er_type = kv_type v, er_total = length (wchar_bytes (kv_name v)) + length (kv_data v),
               er_namelen = length (wchar_bytes (kv_name v)), er_data = wchar_bytes (kv_name v) @ kv_data v\<rparr>"
    if v: "v \<in> set (k_values ?k)" "length (wchar_bytes (kv_name v)) + length (kv_data v) \<le> reply_max" for v
  proof -
    have "kv_order v < length (k_values ?k)" using o v(1) by (auto simp: orders_ok_def)
    then show ?thesis
      using v assms(4) find_order [OF o v(1)] by (auto simp: enum_value_def Let_def min_def)
  qed
  ultimately show ?thesis using o assms(4) by (simp add: enum_value_def)
qed

theorem enum_value_complete_witness:
  "key_ok (\<lambda>_. 0) (rs_key empty_state) \<and> orders_ok (rs_key empty_state)
   \<and> (\<exists>!v. v \<in> set (k_values (rs_key (snd (set_value (\<lambda>_. True) (\<lambda>_. 0) 5 empty_state [97] 1 [10])))) \<and> kv_order v = 0)"
proof -
  have k: "key_ok (\<lambda>_. 0) (rs_key empty_state)" "orders_ok (rs_key empty_state)"
    by (simp_all add: empty_state_def empty_key_ok)
  let ?k = "rs_key (snd (set_value (\<lambda>_. True) (\<lambda>_. 0) 5 empty_state [97] 1 [10]))"
  have f: "\<not> has_flag ?k KEY_PREDEF" and n: "0 < length (k_values ?k)" by code_simp+
  note c = enum_value_complete [OF k surjective_pairing f, of 0, THEN conjunct2, THEN conjunct2, THEN conjunct1,
      rule_format, OF n]
  show ?thesis by (intro conjI k c)
qed


end
