(* ===== verification/Registry_Keys.thy ===== *)
theory Registry_Keys
  imports Registry_Values
begin

text \<open>
  The array of subkeys of a registry key (\<^verbatim>\<open>server/registry.c\<close>): finding a subkey by
  bisection, linking and unlinking a key, and the two requests that rearrange the array,
  deleting a key without subkeys and renaming a key. The parent of the key an operation
  works on is the first of the list of parents.
\<close>

section \<open>Names\<close>

definition MIN_SUBKEYS :: nat where "MIN_SUBKEYS = 8"
definition MAX_NAME_LEN :: nat where "MAX_NAME_LEN = 256"

definition get_path_element :: "wchar list \<Rightarrow> nat" where
  "get_path_element name = length (takeWhile (\<lambda>c. c \<noteq> 92) name)"

definition wow6432node :: "wchar list" where
  "wow6432node = [87, 111, 119, 54, 52, 51, 50, 78, 111, 100, 101]"

definition is_wow6432node :: "casemap \<Rightarrow> wchar list \<Rightarrow> bool" where
  "is_wow6432node cm name \<longleftrightarrow>
     get_path_element name = length wow6432node \<and> memicmp_strW cm name wow6432node (length wow6432node) = 0"

section \<open>The array of subkeys\<close>

definition find_subkey :: "casemap \<Rightarrow> key \<Rightarrow> wchar list \<Rightarrow> nat option \<times> nat" where
  "find_subkey cm k name =
     bsearch (\<lambda>i. name_cmp cm (snd (k_subkeys k ! i)) name) 0 (int (length (k_subkeys k)) - 1)"

definition grow_subkeys :: "(nat \<Rightarrow> bool) \<Rightarrow> key \<Rightarrow> key option" where
  "grow_subkeys mem k =
     (let n = (if k_nb_subkeys k \<noteq> 0 then k_nb_subkeys k + k_nb_subkeys k div 2 else MIN_SUBKEYS)
      in if mem n then Some (k\<lparr>k_nb_subkeys := n\<rparr>) else None)"

text \<open>Linking a key below a parent that is a key; \<open>None\<close> is the failed allocation.\<close>

definition key_link_name :: "(nat \<Rightarrow> bool) \<Rightarrow> casemap \<Rightarrow> key \<Rightarrow> nat \<Rightarrow> wchar list \<Rightarrow> key option" where
  "key_link_name mem cm parent key_id name =
     (case (if length (k_subkeys parent) = k_nb_subkeys parent then grow_subkeys mem parent else Some parent) of
        None \<Rightarrow> None
      | Some p \<Rightarrow>
          (let index = snd (find_subkey cm p name);
               p1 = p\<lparr>k_subkeys := insert_at index (key_id, name) (k_subkeys p)\<rparr>
           in Some (if \<not> has_flag p KEY_WOWSHARE \<and> is_wow6432node cm name \<and> \<not> is_wow6432node cm (k_name p)
                    then p1\<lparr>k_wow6432node := Some key_id\<rparr> else p1)))"

definition index_of :: "nat \<Rightarrow> key \<Rightarrow> nat" where
  "index_of key_id parent = scan (\<lambda>i. fst (k_subkeys parent ! i) = key_id) 0 (length (k_subkeys parent))"

definition remove_at :: "nat \<Rightarrow> 'a list \<Rightarrow> 'a list" where
  "remove_at i xs = take i xs @ drop (Suc i) xs"

definition shrink_subkeys :: "(nat \<Rightarrow> bool) \<Rightarrow> key \<Rightarrow> key" where
  "shrink_subkeys mem k =
     (let nb = k_nb_subkeys k
      in if nb > MIN_SUBKEYS \<and> int (length (k_subkeys k)) - 1 < int (nb div 2) then
           (let n = max (nb - nb div 3) MIN_SUBKEYS
            in if mem n then k\<lparr>k_nb_subkeys := n\<rparr> else k)
         else k)"

text \<open>The assertion that the parent has the key fails as \<open>None\<close>.\<close>

definition key_unlink_name :: "(nat \<Rightarrow> bool) \<Rightarrow> key \<Rightarrow> nat \<Rightarrow> key option" where
  "key_unlink_name mem parent key_id =
     (let i = index_of key_id parent
      in if i \<ge> length (k_subkeys parent) then None
         else
           (let p = parent\<lparr>k_subkeys := remove_at i (k_subkeys parent)\<rparr>;
                p1 = (if k_wow6432node p = Some key_id then p\<lparr>k_wow6432node := None\<rparr> else p)
            in Some (shrink_subkeys mem p1)))"

section \<open>Deleting and renaming a key\<close>

text \<open>
  \<^verbatim>\<open>delete_key( key, 0 )\<close>, as the request calls it. The parents stay in the state for
  the notification; the key itself is marked deleted and no longer in its parent's array.
\<close>

definition delete_key :: "(nat \<Rightarrow> bool) \<Rightarrow> u64 \<Rightarrow> reg_state \<Rightarrow> reg_state outcome" where
  "delete_key mem now s =
     (let k = rs_key s
      in if has_flag k KEY_DELETED then Ok s
         else case rs_parents s of
           [] \<Rightarrow> Err STATUS_ACCESS_DENIED
         | parent # ps \<Rightarrow>
             if has_flag k KEY_PREDEF then Err STATUS_INVALID_HANDLE
             else if k_subkeys k \<noteq> [] then Err STATUS_ACCESS_DENIED
             else
               (case key_unlink_name mem parent (k_id k) of
                  None \<Rightarrow> Fault
                | Some parent1 \<Rightarrow>
                    (let s1 = touch_key now REG_NOTIFY_CHANGE_NAME (s\<lparr>rs_key := parent1, rs_parents := ps\<rparr>)
                     in Ok (s1\<lparr>rs_key := k\<lparr>k_flags := k_flags k OR KEY_DELETED\<rparr>,
                               rs_parents := rs_key s1 # rs_parents s1\<rparr>))))"

text \<open>
  The move of a key within the array: \<open>index\<close> is where the new name belongs, \<open>cur_index\<close>
  where the key is. The last assignment writes past the values in use when \<open>index\<close> is
  their count, which is outside the array when all \<open>nb\<close> slots are in use.
\<close>

definition move_subkey :: "nat \<Rightarrow> 'a list \<Rightarrow> nat \<Rightarrow> nat \<Rightarrow> 'a \<Rightarrow> 'a list option" where
  "move_subkey nb xs cur_index index x =
     (if cur_index < index \<and> index - cur_index > 1 then Some (insert_at (index - 1) x (remove_at cur_index xs))
      else if cur_index > index then Some (insert_at index x (remove_at cur_index xs))
      else if index < nb then Some (xs[index := x])
      else None)"

definition rename_key :: "(nat \<Rightarrow> bool) \<Rightarrow> casemap \<Rightarrow> u64 \<Rightarrow> reg_state \<Rightarrow> wchar list \<Rightarrow> reg_state outcome" where
  "rename_key mem cm now s new_name =
     (let k = rs_key s; len = get_path_element new_name
      in if len = 0 \<or> len \<noteq> length new_name \<or> len > MAX_NAME_LEN then Err STATUS_INVALID_PARAMETER
         else case rs_parents s of
           [] \<Rightarrow> Err STATUS_CANNOT_DELETE
         | parent # ps \<Rightarrow>
             (case find_subkey cm parent new_name of
                (Some _, _) \<Rightarrow> Err STATUS_CANNOT_DELETE
              | (None, index) \<Rightarrow>
                  if k_wow6432node parent = Some (k_id k) \<or> is_wow6432node cm new_name
                    then Err STATUS_INVALID_PARAMETER
                  else if \<not> mem (length new_name) then Err STATUS_NO_MEMORY
                  else
                    (case move_subkey (k_nb_subkeys parent) (k_subkeys parent) (index_of (k_id k) parent)
                            index (k_id k, k_name k) of
                       None \<Rightarrow> Fault
                     | Some xs \<Rightarrow>
                         Ok (touch_key now REG_NOTIFY_CHANGE_NAME
                              (s\<lparr>rs_key := k\<lparr>k_name := new_name\<rparr>,
                                 rs_parents := parent\<lparr>k_subkeys :=
                                   map (\<lambda>(i, n). (i, if i = k_id k then new_name else n)) xs\<rparr> # ps\<rparr>)))))"

section \<open>Invariant and abstract map\<close>

definition subkeys_ok :: "casemap \<Rightarrow> key \<Rightarrow> bool" where
  "subkeys_ok cm k \<longleftrightarrow>
     sorted_wrt (\<lambda>a b. name_cmp cm a b < 0) (map snd (k_subkeys k)) \<and> distinct (map fst (k_subkeys k)) \<and>
     length (k_subkeys k) \<le> k_nb_subkeys k \<and> (k_nb_subkeys k = 0 \<or> MIN_SUBKEYS \<le> k_nb_subkeys k)"

definition subkey_map :: "casemap \<Rightarrow> key \<Rightarrow> wchar list \<rightharpoonup> nat" where
  "subkey_map cm k = map_of (map (\<lambda>(i, n). (folded cm n, i)) (k_subkeys k))"

lemma subkeys_ok_ordered: "subkeys_ok cm k \<Longrightarrow> nc.ordered cm (map snd (k_subkeys k))"
  by (simp add: subkeys_ok_def nc.ordered_def)

lemma subkeys_folded_distinct:
  assumes "nc.ordered cm (map snd xs)"
  shows "distinct (map fst (map (\<lambda>(i, n). (folded cm n, i)) xs))"
proof -
  have "folded cm (snd (xs ! i)) \<noteq> folded cm (snd (xs ! j))" if "i < j" "j < length xs" for i j
    using nc.ordered_nth [OF assms, of i j] that name_cmp_0_iff [of cm "snd (xs ! i)" "snd (xs ! j)"] by simp
  then have "distinct (map (\<lambda>x. folded cm (snd x)) xs)"
    unfolding distinct_conv_nth by (simp del: folded_def) (metis linorder_neqE_nat)
  then show ?thesis by (simp add: comp_def case_prod_beta)
qed

lemma find_subkey_cases:
  assumes "subkeys_ok cm k"
  obtains (found) i where "find_subkey cm k name = (Some i, i)" and "i < length (k_subkeys k)"
      and "folded cm (snd (k_subkeys k ! i)) = folded cm name"
    | (absent) j where "find_subkey cm k name = (None, j)"
      and "nc.place cm (map snd (k_subkeys k)) name j"
      and "subkey_map cm k (folded cm name) = None"
proof -
  let ?ks = "map snd (k_subkeys k)"
  obtain f j where fj: "find_subkey cm k name = (f, j)" by fastforce
  have b: "bsearch (\<lambda>i. name_cmp cm (?ks ! i) name) 0 (int (length ?ks) - 1) = (f, j)"
    using fj bsearch_cong [of 0 "int (length ?ks) - 1" "\<lambda>i. name_cmp cm (?ks ! i) name"
      "\<lambda>i. name_cmp cm (snd (k_subkeys k ! i)) name"]
    by (simp add: find_subkey_def)
  note c = nc.bsearch_correct [OF subkeys_ok_ordered [OF assms] b]
    and n = nc.bsearch_none_iff [OF subkeys_ok_ordered [OF assms] b]
  show ?thesis
  proof (cases f)
    case None
    then have "\<forall>x\<in>set (k_subkeys k). folded cm (snd x) \<noteq> folded cm name"
      using n name_cmp_0_iff [of cm _ name] by simp
    then have "subkey_map cm k (folded cm name) = None"
      by (auto simp: subkey_map_def map_of_eq_None_iff)
    then show ?thesis using absent None fj c by simp
  next
    case (Some i)
    then show ?thesis using found fj c by (auto simp: name_cmp_0_iff)
  qed
qed

lemma subkeys_okI:
  assumes "nc.ordered cm (map snd (k_subkeys k))" and "distinct (map fst (k_subkeys k))"
    and "length (k_subkeys k) \<le> k_nb_subkeys k" and "k_nb_subkeys k = 0 \<or> MIN_SUBKEYS \<le> k_nb_subkeys k"
  shows "subkeys_ok cm k"
  using assms by (simp add: subkeys_ok_def nc.ordered_def)

lemma remove_at_map: "map f (remove_at i xs) = remove_at i (map f xs)"
  by (simp add: remove_at_def take_map drop_map)

lemma length_remove_at: "i < length xs \<Longrightarrow> length (remove_at i xs) = length xs - 1"
  by (simp add: remove_at_def)

lemma set_remove_at: "set (remove_at i xs) \<subseteq> set xs"
  using set_take_subset [of i xs] set_drop_subset [of "Suc i" xs] by (auto simp: remove_at_def)

lemma distinct_remove_at:
  assumes "distinct xs"
  shows "distinct (remove_at i xs)" and "i < length xs \<Longrightarrow> xs ! i \<notin> set (remove_at i xs)"
proof -
  show "distinct (remove_at i xs)"
    using assms set_take_disj_set_drop_if_distinct [OF assms, of i "Suc i"] by (simp add: remove_at_def)
  show "xs ! i \<notin> set (remove_at i xs)" if "i < length xs"
  proof -
    have "distinct (take i xs @ xs ! i # drop (Suc i) xs)" using assms id_take_nth_drop [OF that] by simp
    then show ?thesis by (auto simp: remove_at_def)
  qed
qed

lemma distinct_insert_at: "distinct (insert_at i x xs) \<longleftrightarrow> x \<notin> set xs \<and> distinct xs"
proof -
  have "distinct (ys @ x # zs) \<longleftrightarrow> x \<notin> set (ys @ zs) \<and> distinct (ys @ zs)" for ys zs :: "'a list"
    by auto
  from this [of "take i xs" "drop i xs"] show ?thesis by (simp only: insert_at_def append_take_drop_id)
qed

lemma remove_insert_at: "i \<le> length xs \<Longrightarrow> remove_at i (insert_at i x xs) = xs"
  by (simp add: remove_at_def insert_at_def)

lemma index_of_found:
  assumes "key_id \<in> fst ` set (k_subkeys k)"
  shows "index_of key_id k < length (k_subkeys k)" and "fst (k_subkeys k ! index_of key_id k) = key_id"
proof -
  obtain i where i: "i < length (k_subkeys k)" "fst (k_subkeys k ! i) = key_id"
    using assms by (auto simp: in_set_conv_nth)
  have "\<not> i < index_of key_id k"
    using scan_before [of 0 i "\<lambda>i. fst (k_subkeys k ! i) = key_id" "length (k_subkeys k)"] i(2)
    by (auto simp: index_of_def)
  then show l: "index_of key_id k < length (k_subkeys k)" using i(1) by linarith
  then show "fst (k_subkeys k ! index_of key_id k) = key_id"
    unfolding index_of_def by (rule scan_found)
qed

abbreviation subkey_entry :: "casemap \<Rightarrow> nat \<times> wchar list \<Rightarrow> wchar list \<times> nat" where
  "subkey_entry cm \<equiv> \<lambda>(i, n). (folded cm n, i)"

lemma subkey_map_insert:
  assumes "subkey_map cm k (folded cm n) = None"
  shows "map_of (map (subkey_entry cm) (insert_at j (i, n) (k_subkeys k))) = (subkey_map cm k)(folded cm n \<mapsto> i)"
  using map_of_insert_at [of "(folded cm n, i)" "map (subkey_entry cm) (k_subkeys k)" j] assms
  unfolding subkey_map_def by (simp add: insert_at_map map_of_eq_None_iff del: folded_def)

lemma subkey_map_remove:
  assumes "subkeys_ok cm k" and "j < length (k_subkeys k)"
  shows "map_of (map (subkey_entry cm) (remove_at j (k_subkeys k)))
    = (subkey_map cm k)(folded cm (snd (k_subkeys k ! j)) := None)"
  using map_of_remove_nth [OF subkeys_folded_distinct [OF subkeys_ok_ordered [OF assms(1)]], of j] assms(2)
  unfolding subkey_map_def remove_at_map by (simp add: remove_at_def case_prod_beta del: folded_def)

lemma subkey_map_at:
  assumes "subkeys_ok cm k" and "j < length (k_subkeys k)"
  shows "subkey_map cm k (folded cm (snd (k_subkeys k ! j))) = Some (fst (k_subkeys k ! j))"
  unfolding subkey_map_def
proof (rule map_of_is_SomeI [OF subkeys_folded_distinct [OF subkeys_ok_ordered [OF assms(1)]]])
  show "(folded cm (snd (k_subkeys k ! j)), fst (k_subkeys k ! j)) \<in> set (map (subkey_entry cm) (k_subkeys k))"
    using imageI [OF nth_mem [OF assms(2)], of "subkey_entry cm"] by (simp add: case_prod_beta)
qed

lemma index_of_distinct:
  assumes "distinct (map fst (k_subkeys k))" and "j < length (k_subkeys k)" and "fst (k_subkeys k ! j) = key_id"
  shows "index_of key_id k = j"
proof -
  have "key_id \<in> fst ` set (k_subkeys k)" using assms(2,3) nth_mem by blast
  from index_of_found [OF this] show ?thesis
    using assms by (auto simp: distinct_conv_nth)
qed

lemma shrink_subkeys_props:
  "k_subkeys (shrink_subkeys mem k) = k_subkeys k" "k_flags (shrink_subkeys mem k) = k_flags k"
  "subkeys_ok cm k \<Longrightarrow> subkeys_ok cm (shrink_subkeys mem k)"
  by (auto simp: shrink_subkeys_def subkeys_ok_def MIN_SUBKEYS_def Let_def)

lemma link_room:
  assumes "(if length (k_subkeys k) = k_nb_subkeys k then grow_subkeys mem k else Some k) = Some p"
    and "subkeys_ok cm k"
  shows "k_subkeys p = k_subkeys k" and "length (k_subkeys k) < k_nb_subkeys p" and "MIN_SUBKEYS \<le> k_nb_subkeys p"
proof -
  have "k_subkeys p = k_subkeys k \<and> length (k_subkeys k) < k_nb_subkeys p \<and> MIN_SUBKEYS \<le> k_nb_subkeys p"
  proof (cases "length (k_subkeys k) = k_nb_subkeys k")
    case True
    then show ?thesis
      using assms by (auto simp: grow_subkeys_def subkeys_ok_def MIN_SUBKEYS_def Let_def split: if_splits)
  next
    case False
    then show ?thesis using assms by (auto simp: subkeys_ok_def)
  qed
  then show "k_subkeys p = k_subkeys k" and "length (k_subkeys k) < k_nb_subkeys p" and "MIN_SUBKEYS \<le> k_nb_subkeys p"
    by simp_all
qed

lemma key_link_name_Some:
  assumes "key_link_name mem cm k key_id name = Some p" and "subkeys_ok cm k"
    and "subkey_map cm k (folded cm name) = None" and "key_id \<notin> fst ` set (k_subkeys k)"
  obtains j where "j \<le> length (k_subkeys k)" and "k_subkeys p = insert_at j (key_id, name) (k_subkeys k)"
    and "subkeys_ok cm p"
proof -
  obtain p0 where p0: "(if length (k_subkeys k) = k_nb_subkeys k then grow_subkeys mem k else Some k) = Some p0"
    using assms(1) by (cases "if length (k_subkeys k) = k_nb_subkeys k then grow_subkeys mem k else Some k")
      (simp_all add: key_link_name_def)
  note r = link_room [OF p0 assms(2)]
  have ok: "subkeys_ok cm p0" using assms(2) r by (simp add: subkeys_ok_def)
  have m: "subkey_map cm p0 (folded cm name) = None" using assms(3) r(1) by (simp add: subkey_map_def)
  from ok obtain j where j: "find_subkey cm p0 name = (None, j)" "nc.place cm (map snd (k_subkeys k)) name j"
  proof (cases rule: find_subkey_cases [where name = name])
    case (found i)
    then show ?thesis using subkey_map_at [OF ok found(2)] m by simp
  qed (use r(1) in auto)
  have sub: "k_subkeys p = insert_at j (key_id, name) (k_subkeys k)" and nb: "k_nb_subkeys p = k_nb_subkeys p0"
    using assms(1) unfolding key_link_name_def p0 by (auto simp: Let_def j(1) r(1))
  have "subkeys_ok cm p"
  proof (rule subkeys_okI)
    show "nc.ordered cm (map snd (k_subkeys p))"
      using nc.ordered_insert [OF subkeys_ok_ordered [OF assms(2)] j(2)]
      unfolding sub insert_at_map by (simp add: insert_at_def)
    show "distinct (map fst (k_subkeys p))"
      using assms(2,4) by (simp add: sub insert_at_map distinct_insert_at subkeys_ok_def)
  qed (use nb sub r in auto)
  moreover have "j \<le> length (k_subkeys k)" using j(2) by (simp add: nc.place_def)
  ultimately show thesis using that sub by blast
qed

lemma key_unlink_name_at:
  assumes "subkeys_ok cm p" and "j < length (k_subkeys p)" and "fst (k_subkeys p ! j) = key_id"
  obtains q where "key_unlink_name mem p key_id = Some q" and "k_subkeys q = remove_at j (k_subkeys p)"
    and "subkeys_ok cm q"
proof -
  let ?p = "p\<lparr>k_subkeys := remove_at j (k_subkeys p)\<rparr>"
  let ?q = "if k_wow6432node ?p = Some key_id then ?p\<lparr>k_wow6432node := None\<rparr> else ?p"
  have i: "index_of key_id p = j"
    using index_of_distinct [OF _ assms(2,3)] assms(1) by (simp add: subkeys_ok_def)
  have "nc.ordered cm (map snd (remove_at j (k_subkeys p)))"
    using nc.ordered_remove [OF subkeys_ok_ordered [OF assms(1)]] by (simp add: remove_at_map) (simp add: remove_at_def)
  moreover have "distinct (map fst (remove_at j (k_subkeys p)))"
    using assms(1) distinct_remove_at(1) [of "map fst (k_subkeys p)" j] by (simp add: remove_at_map subkeys_ok_def)
  ultimately have "subkeys_ok cm ?q"
    using assms(1,2) length_remove_at [OF assms(2)]
    by (auto simp: subkeys_ok_def nc.ordered_def)
  then show thesis
    using that [of "shrink_subkeys mem ?q"] shrink_subkeys_props assms(2) i
    by (simp add: key_unlink_name_def Let_def split: if_splits)
qed

text \<open>For the examples: the key a beside the key c.\<close>

definition two_subkeys :: reg_state where
  "two_subkeys =
     \<lparr>rs_key = empty_key\<lparr>k_id := 1, k_name := [97]\<rparr>,
      rs_parents = [empty_key\<lparr>k_nb_subkeys := 8, k_subkeys := [(1, [97]), (2, [99])]\<rparr>],
      rs_counter = 0, rs_events = []\<rparr>"

section \<open>Finding, linking, unlinking\<close>

text \<open>
  Bisection finds a subkey exactly when the key has one of that name up to case, and
  it is the subkey the abstract map has for the name.
\<close>

theorem find_subkey_decides:
  assumes "subkeys_ok cm k"
  shows "map_option (\<lambda>i. fst (k_subkeys k ! i)) (fst (find_subkey cm k name)) = subkey_map cm k (folded cm name)"
  using assms
proof (cases rule: find_subkey_cases [where name = name])
  case (found i)
  then show ?thesis using subkey_map_at [OF assms found(2)] by simp
qed simp

text \<open>
  Linking a key adds its name to the parent's map and unlinking it takes the name out
  again, each keeping the array sorted, without duplicates and within its allocation; after
  both the parent has the subkeys it had.
\<close>

theorem link_unlink_subkey:
  assumes "subkeys_ok cm parent" and "key_id \<notin> fst ` set (k_subkeys parent)"
    and "subkey_map cm parent (folded cm name) = None"
    and "key_link_name mem cm parent key_id name = Some p"
  shows "subkeys_ok cm p \<and> subkey_map cm p = (subkey_map cm parent)(folded cm name \<mapsto> key_id)
    \<and> (\<exists>q. key_unlink_name mem' p key_id = Some q \<and> subkeys_ok cm q \<and> k_subkeys q = k_subkeys parent)"
proof -
  obtain j where j: "j \<le> length (k_subkeys parent)" "k_subkeys p = insert_at j (key_id, name) (k_subkeys parent)"
    and ok: "subkeys_ok cm p"
    using key_link_name_Some [OF assms(4,1,3,2)] by blast
  have "subkey_map cm p = (subkey_map cm parent)(folded cm name \<mapsto> key_id)"
    using subkey_map_insert [OF assms(3), of j key_id] by (simp only: subkey_map_def j(2))
  moreover obtain q where "key_unlink_name mem' p key_id = Some q" "k_subkeys q = remove_at j (k_subkeys p)"
    and "subkeys_ok cm q"
    using key_unlink_name_at [OF ok, of j key_id mem'] j by (auto simp: insert_at_nth)
  ultimately show ?thesis using ok j remove_insert_at [OF j(1)] by auto
qed

text \<open>
  (C29) Deleting a key without subkeys takes its name, and no other, out of the parent's map
  and marks the key deleted; a key with subkeys, a predefined key and the root are refused.
\<close>

theorem delete_key_refines:
  assumes "rs_parents s = parent # ps" and "subkeys_ok cm parent"
    and "(k_id (rs_key s), name) \<in> set (k_subkeys parent)"
    and "\<not> has_flag (rs_key s) KEY_DELETED"
  shows "if has_flag (rs_key s) KEY_PREDEF then delete_key mem now s = Err STATUS_INVALID_HANDLE
    else if k_subkeys (rs_key s) \<noteq> [] then delete_key mem now s = Err STATUS_ACCESS_DENIED
    else \<exists>s' p' ps'. delete_key mem now s = Ok s' \<and> rs_parents s' = p' # ps' \<and> has_flag (rs_key s') KEY_DELETED
      \<and> subkeys_ok cm p' \<and> subkey_map cm p' = (subkey_map cm parent)(folded cm name := None)"
proof -
  obtain j where j: "j < length (k_subkeys parent)" "k_subkeys parent ! j = (k_id (rs_key s), name)"
    using assms(3) by (auto simp: in_set_conv_nth)
  obtain q where q: "key_unlink_name mem parent (k_id (rs_key s)) = Some q" "k_subkeys q = remove_at j (k_subkeys parent)"
    and ok: "subkeys_ok cm q"
    using key_unlink_name_at [OF assms(2) j(1), of "k_id (rs_key s)" mem] j(2) by auto
  let ?t = "touch_key now REG_NOTIFY_CHANGE_NAME (s\<lparr>rs_key := q, rs_parents := ps\<rparr>)"
  have f: "frame q (rs_key ?t)" using touch_key_frame(1) [of "s\<lparr>rs_key := q, rs_parents := ps\<rparr>"] by simp
  have "subkey_map cm q = (subkey_map cm parent)(folded cm name := None)"
    using subkey_map_remove [OF assms(2) j(1)] by (simp only: subkey_map_def q(2) j(2) snd_conv)
  then have "subkey_map cm (rs_key ?t) = (subkey_map cm parent)(folded cm name := None)" "subkeys_ok cm (rs_key ?t)"
    using f ok by (simp_all add: frame_def subkey_map_def subkeys_ok_def)
  moreover have "has_flag (k\<lparr>k_flags := k_flags k OR KEY_DELETED\<rparr>) KEY_DELETED" for k
    by (simp add: has_flag_def KEY_DELETED_def bit.conj_disj_distrib2 or_eq_0_iff)
  ultimately show ?thesis
    using assms(1,4) q(1) by (simp add: delete_key_def Let_def)
qed

section \<open>Renaming\<close>

lemma remove_at_nth: "c < length xs \<Longrightarrow> i < length xs - 1 \<Longrightarrow> remove_at c xs ! i = (if i < c then xs ! i else xs ! Suc i)"
  by (auto simp: remove_at_def nth_append)

lemma place_remove:
  assumes "nc.place cm ks n j" and "c < length ks"
  shows "nc.place cm (remove_at c ks) n (if c < j then j - 1 else j)"
  unfolding nc.place_def
proof (intro conjI allI impI)
  have le: "j \<le> length ks" using assms(1) by (simp add: nc.place_def)
  then show "(if c < j then j - 1 else j) \<le> length (remove_at c ks)"
    using assms(2) by (simp add: length_remove_at) linarith
  fix i
  have lt: "\<And>i. i < j \<Longrightarrow> name_cmp cm (ks ! i) n < 0"
    and gt: "\<And>i. j \<le> i \<Longrightarrow> i < length ks \<Longrightarrow> 0 < name_cmp cm (ks ! i) n"
    using assms(1) by (auto simp: nc.place_def)
  show "name_cmp cm (remove_at c ks ! i) n < 0" if "i < (if c < j then j - 1 else j)"
    using that assms(2) le lt [of i] lt [of "Suc i"] by (subst remove_at_nth) (auto split: if_splits)
  show "0 < name_cmp cm (remove_at c ks ! i) n" if "(if c < j then j - 1 else j) \<le> i" "i < length (remove_at c ks)"
    using that assms(2) gt [of i] gt [of "Suc i"] length_remove_at [OF assms(2)]
    by (subst remove_at_nth) (auto split: if_splits)
qed

lemma update_as_insert: "i < length xs \<Longrightarrow> xs[i := x] = insert_at i x (remove_at i xs)"
  by (simp add: insert_at_def remove_at_def upd_conv_take_nth_drop)

text \<open>The move puts the key where its new name belongs, unless that is right after where it is.\<close>

lemma move_subkey_place:
  assumes "cur_index < length xs" and "index \<noteq> Suc cur_index" and "index \<le> length xs" and "length xs \<le> nb"
  shows "move_subkey nb xs cur_index index x =
    Some (insert_at (if cur_index < index then index - 1 else index) x (remove_at cur_index xs))"
  using assms by (auto simp: move_subkey_def update_as_insert)

lemma moved_subkeys:
  assumes "subkeys_ok cm parent" and "c < length (k_subkeys parent)" and "k_subkeys parent ! c = (key_id, old_name)"
    and "nc.place cm (map snd (k_subkeys parent)) new_name j" and "subkey_map cm parent (folded cm new_name) = None"
  defines "p1 \<equiv> parent\<lparr>k_subkeys :=
      insert_at (if c < j then j - 1 else j) (key_id, new_name) (remove_at c (k_subkeys parent))\<rparr>"
  shows "subkeys_ok cm p1"
    and "subkey_map cm p1 = ((subkey_map cm parent)(folded cm old_name := None))(folded cm new_name \<mapsto> key_id)"
proof -
  let ?j = "if c < j then j - 1 else j" and ?xs = "k_subkeys parent"
  have d: "distinct (map fst ?xs)" using assms(1) by (simp add: subkeys_ok_def)
  have k: "k_subkeys p1 = insert_at ?j (key_id, new_name) (remove_at c ?xs)" "k_nb_subkeys p1 = k_nb_subkeys parent"
    by (simp_all add: p1_def)
  show "subkeys_ok cm p1"
  proof (rule subkeys_okI)
    have "map snd (k_subkeys p1) = insert_at ?j new_name (remove_at c (map snd ?xs))"
      by (simp only: k insert_at_map remove_at_map snd_conv)
    then show "nc.ordered cm (map snd (k_subkeys p1))"
      using nc.ordered_insert [OF nc.ordered_remove [OF subkeys_ok_ordered [OF assms(1)], of c, folded remove_at_def]
          place_remove [OF assms(4), of c]] assms(2)
      by (simp only: insert_at_def length_map)
    have "map fst (k_subkeys p1) = insert_at ?j key_id (remove_at c (map fst ?xs))"
      by (simp only: k insert_at_map remove_at_map fst_conv)
    then show "distinct (map fst (k_subkeys p1))"
      using distinct_remove_at [OF d, of c] assms(2,3) by (simp only: distinct_insert_at) simp
  qed (use assms(1,2) length_remove_at [OF assms(2)] in \<open>auto simp: k subkeys_ok_def\<close>)
  let ?p0 = "parent\<lparr>k_subkeys := remove_at c ?xs\<rparr>"
  have m0: "subkey_map cm ?p0 = (subkey_map cm parent)(folded cm old_name := None)"
    using subkey_map_remove [OF assms(1,2)] assms(3) by (simp add: subkey_map_def del: folded_def)
  then have "subkey_map cm ?p0 (folded cm new_name) = None" using assms(5) by (simp del: folded_def)
  have "k_subkeys ?p0 = remove_at c ?xs" by simp
  with subkey_map_insert [OF \<open>subkey_map cm ?p0 (folded cm new_name) = None\<close>, of ?j key_id]
  show "subkey_map cm p1 = ((subkey_map cm parent)(folded cm old_name := None))(folded cm new_name \<mapsto> key_id)"
    by (simp only: subkey_map_def [of cm p1] k m0)
qed

text \<open>
  (C28) Renaming a key to a free name, unless the new name belongs right after the key itself,
  moves its entry in the parent's map from the old name to the new one and keeps the array
  sorted.
\<close>

theorem rename_key_refines:
  assumes "rs_parents s = parent # ps" and "subkeys_ok cm parent"
    and "(k_id (rs_key s), k_name (rs_key s)) \<in> set (k_subkeys parent)"
    and "get_path_element new_name = length new_name" and "new_name \<noteq> []" and "length new_name \<le> MAX_NAME_LEN"
    and "subkey_map cm parent (folded cm new_name) = None"
    and "k_wow6432node parent \<noteq> Some (k_id (rs_key s))" and "\<not> is_wow6432node cm new_name"
    and "mem (length new_name)"
    and "snd (find_subkey cm parent new_name) \<noteq> Suc (index_of (k_id (rs_key s)) parent)"
  shows "\<exists>s' p' ps'. rename_key mem cm now s new_name = Ok s' \<and> rs_parents s' = p' # ps' \<and> k_name (rs_key s') = new_name
    \<and> subkeys_ok cm p'
    \<and> subkey_map cm p' =
        ((subkey_map cm parent)(folded cm (k_name (rs_key s)) := None))(folded cm new_name \<mapsto> k_id (rs_key s))"
proof -
  let ?id = "k_id (rs_key s)" and ?xs = "k_subkeys parent"
  let ?upd = "map (\<lambda>(i, n). (i, if i = ?id then new_name else n))"
  obtain c where c: "c < length ?xs" "?xs ! c = (?id, k_name (rs_key s))"
    using assms(3) by (auto simp: in_set_conv_nth)
  have cur: "index_of ?id parent = c"
    using index_of_distinct [OF _ c(1), of ?id] assms(2) c(2) by (simp add: subkeys_ok_def)
  from assms(2) obtain j where j: "find_subkey cm parent new_name = (None, j)" "nc.place cm (map snd ?xs) new_name j"
  proof (cases rule: find_subkey_cases [where name = new_name])
    case (found i)
    then show ?thesis using subkey_map_at [OF assms(2) found(2)] assms(7) by simp
  qed auto
  let ?j = "if c < j then j - 1 else j"
  have jl: "j \<le> length ?xs" using j(2) by (simp add: nc.place_def)
  have mv: "move_subkey (k_nb_subkeys parent) ?xs c j (?id, k_name (rs_key s))
      = Some (insert_at ?j (?id, k_name (rs_key s)) (remove_at c ?xs))"
    using move_subkey_place [OF c(1) _ jl, of "k_nb_subkeys parent"] assms(2,11) j(1) cur by (simp add: subkeys_ok_def)
  have id: "?id \<notin> fst ` set (remove_at c ?xs)"
    using distinct_remove_at(2) [of "map fst ?xs" c] assms(2) c by (simp add: subkeys_ok_def remove_at_map [symmetric])
  define ys where "ys = insert_at ?j (?id, new_name) (remove_at c ?xs)"
  have upd: "?upd (insert_at ?j (?id, k_name (rs_key s)) (remove_at c ?xs)) = ys"
  proof -
    have "?upd (remove_at c ?xs) = remove_at c ?xs"
      using id by (intro map_idI) force
    then show ?thesis by (simp add: insert_at_map ys_def)
  qed
  let ?p1 = "parent\<lparr>k_subkeys := ys\<rparr>"
  note m = moved_subkeys [OF assms(2) c j(2) assms(7), folded ys_def]
  let ?s1 = "s\<lparr>rs_key := (rs_key s)\<lparr>k_name := new_name\<rparr>, rs_parents := ?p1 # ps\<rparr>"
  let ?t = "touch_key now REG_NOTIFY_CHANGE_NAME ?s1"
  have "rename_key mem cm now s new_name = Ok ?t"
    using assms(1,4-6,8-10) j(1) mv upd cur by (simp add: rename_key_def Let_def)
  moreover obtain p' ps' where p': "rs_parents ?t = p' # ps'" "frame ?p1 p'"
    using touch_key_frame(2) [of ?s1 now REG_NOTIFY_CHANGE_NAME] by (auto simp: list_all2_Cons1)
  moreover have "k_name (rs_key ?t) = new_name"
    using touch_key_frame(1) [of ?s1 now REG_NOTIFY_CHANGE_NAME] by (simp add: frame_def)
  moreover have "subkeys_ok cm p'" "subkey_map cm p' = subkey_map cm ?p1"
    using p'(2) m(1) by (simp_all add: frame_def subkeys_ok_def subkey_map_def)
  ultimately show ?thesis using m(2) by simp
qed

theorem rename_key_refines_witness:
  "\<exists>s' p' ps'. rename_key (\<lambda>_. True) (\<lambda>_. 0) 0 two_subkeys [100] = Ok s' \<and> rs_parents s' = p' # ps'
     \<and> k_name (rs_key s') = [100] \<and> subkeys_ok (\<lambda>_. 0) p'
     \<and> subkey_map (\<lambda>_. 0) p' = ((subkey_map (\<lambda>_. 0) (hd (rs_parents two_subkeys)))
         (folded (\<lambda>_. 0) [97] := None))(folded (\<lambda>_. 0) [100] \<mapsto> 1)"
proof -
  have "snd (find_subkey (\<lambda>_. 0) (hd (rs_parents two_subkeys)) [100])
      \<noteq> Suc (index_of (k_id (rs_key two_subkeys)) (hd (rs_parents two_subkeys)))"
    "subkeys_ok (\<lambda>_. 0) (hd (rs_parents two_subkeys))" "\<not> is_wow6432node (\<lambda>_. 0) [100]"
    "subkey_map (\<lambda>_. 0) (hd (rs_parents two_subkeys)) (folded (\<lambda>_. 0) [100]) = None"
    "get_path_element [100] = length [100::wchar]" "length [100::wchar] \<le> MAX_NAME_LEN"
    by code_simp+
  then show ?thesis
    using rename_key_refines [of two_subkeys "hd (rs_parents two_subkeys)" "[]" "\<lambda>_. 0" "[100]" "\<lambda>_. True" 0]
    by (simp add: two_subkeys_def empty_key_def del: folded_def)
qed

theorem delete_key_refines_witness:
  "\<exists>s' p' ps'. delete_key (\<lambda>_. True) 0 two_subkeys = Ok s' \<and> rs_parents s' = p' # ps' \<and> has_flag (rs_key s') KEY_DELETED
     \<and> subkeys_ok (\<lambda>_. 0) p'
     \<and> subkey_map (\<lambda>_. 0) p' = (subkey_map (\<lambda>_. 0) (hd (rs_parents two_subkeys)))(folded (\<lambda>_. 0) [97] := None)"
proof -
  have "subkeys_ok (\<lambda>_. 0) (hd (rs_parents two_subkeys))" "\<not> has_flag (rs_key two_subkeys) KEY_DELETED"
    "\<not> has_flag (rs_key two_subkeys) KEY_PREDEF"
    by code_simp+
  then show ?thesis
    using delete_key_refines [of two_subkeys "hd (rs_parents two_subkeys)" "[]" "\<lambda>_. 0" "[97]" "\<lambda>_. True" 0]
    by (simp add: two_subkeys_def empty_key_def del: folded_def)
qed

theorem link_unlink_subkey_witness:
  "\<exists>p q. key_link_name (\<lambda>_. True) (\<lambda>_. 0) (hd (rs_parents two_subkeys)) 3 [98] = Some p
     \<and> key_unlink_name (\<lambda>_. True) p 3 = Some q \<and> k_subkeys q = k_subkeys (hd (rs_parents two_subkeys))"
proof -
  let ?k = "hd (rs_parents two_subkeys)"
  have "subkeys_ok (\<lambda>_. 0) ?k" "3 \<notin> fst ` set (k_subkeys ?k)" "subkey_map (\<lambda>_. 0) ?k (folded (\<lambda>_. 0) [98]) = None"
    by code_simp+
  moreover have "key_link_name (\<lambda>_. True) (\<lambda>_. 0) ?k 3 [98] \<noteq> None" by code_simp
  ultimately show ?thesis
    using link_unlink_subkey [of "\<lambda>_. 0" ?k 3 "[98]" "\<lambda>_. True" _ "\<lambda>_. True"] by blast
qed

theorem find_subkey_decides_witness:
  "subkeys_ok (\<lambda>_. 0) (hd (rs_parents two_subkeys))
   \<and> map_option (\<lambda>i. fst (k_subkeys (hd (rs_parents two_subkeys)) ! i))
        (fst (find_subkey (\<lambda>_. 0) (hd (rs_parents two_subkeys)) [99]))
      = subkey_map (\<lambda>_. 0) (hd (rs_parents two_subkeys)) (folded (\<lambda>_. 0) [99])"
proof -
  have "subkeys_ok (\<lambda>_. 0) (hd (rs_parents two_subkeys))" by code_simp
  then show ?thesis by (intro conjI find_subkey_decides)
qed


end
