(* ===== verification/Registry_Branch.thy ===== *)
theory Registry_Branch
  imports Registry_Values
begin

text \<open>
  Saving a branch of the registry. The server serialises a key and its subkeys
  (\<^verbatim>\<open>serialize_key\<close>, \<^verbatim>\<open>save_registry\<close> in \<^verbatim>\<open>server/registry.c\<close>), the client that asked for
  the flush reads the bytes back (\<^verbatim>\<open>fill_saved_key\<close>, \<^verbatim>\<open>dump_value\<close>, \<^verbatim>\<open>save_subkeys\<close> in
  \<^verbatim>\<open>dlls/ntdll/unix/registry.c\<close>) and writes the file, and the server then marks the branch
  clean (\<^verbatim>\<open>make_clean\<close>).

  A branch is a tree of keys: the subtrees are the keys the array of subkeys points to.
  The reader is modelled up to the text it prints: its result is what it has read.
\<close>

datatype key_tree = Key_Tree (kt_key: key) (kt_subkeys: "key_tree list")

section \<open>Marking a branch clean\<close>

fun make_clean :: "nat \<Rightarrow> key_tree \<Rightarrow> key_tree" where
  "make_clean ts (Key_Tree k cs) =
     (if has_flag k KEY_VOLATILE then Key_Tree k cs
      else if \<not> has_flag k KEY_DIRTY then Key_Tree k cs
      else Key_Tree (if k_timestamp k \<le> ts then k\<lparr>k_flags := k_flags k AND NOT KEY_DIRTY\<rparr> else k)
             (map (make_clean ts) cs))"

definition flush_key_done :: "nat \<Rightarrow> nat \<Rightarrow> key_tree list \<Rightarrow> key_tree list result" where
  "flush_key_done branch ts branches =
     (if branch < length branches then Inr (branches[branch := make_clean ts (branches ! branch)])
      else Inl STATUS_INVALID_PARAMETER)"

section \<open>Serialising\<close>

text \<open>\<open>le n v\<close> are the \<open>n\<close> bytes of a little-endian integer.\<close>

primrec le :: "nat \<Rightarrow> nat \<Rightarrow> u8 list" where
  "le 0 v = []"
| "le (Suc n) v = of_nat v # le n (v div 256)"

definition serialize_value :: "key_value \<Rightarrow> u8 list" where
  "serialize_value v =
     le 4 (2 * length (kv_name v)) @ wchar_bytes (kv_name v) @ le 4 (unat (kv_type v))
       @ le 4 (length (kv_data v)) @ kv_data v"

definition serialize_value_size :: "key_value \<Rightarrow> nat" where
  "serialize_value_size v = 4 + 2 * length (kv_name v) + 4 + 4 + length (kv_data v)"

definition is_volatile :: "key_tree \<Rightarrow> bool" where
  "is_volatile t \<longleftrightarrow> has_flag (kt_key t) KEY_VOLATILE"

definition key_header :: "key \<Rightarrow> nat \<Rightarrow> u8 list" where
  "key_header k subkey_count =
     le 4 (2 * length (k_name k)) @ wchar_bytes (k_name k)
       @ le 4 (2 * length (k_class k)) @ wchar_bytes (k_class k)
       @ le 4 (length (k_values k)) @ le 4 subkey_count @ le 4 (unat (k_flags k AND KEY_SYMLINK))
       @ le 8 (unat (k_modif k))"

text \<open>
  One function in the source does two passes: with a null buffer it returns the size, with a
  buffer it also stores the bytes.
\<close>

fun serialize_key :: "key_tree \<Rightarrow> u8 list" where
  "serialize_key (Key_Tree k cs) =
     (if has_flag k KEY_VOLATILE then []
      else key_header k (length (filter (\<lambda>c. \<not> is_volatile c) cs))
             @ concat (map serialize_value (k_values k))
             @ concat (map (\<lambda>c. if is_volatile c then [] else serialize_key c) cs))"

fun serialize_key_size :: "key_tree \<Rightarrow> nat" where
  "serialize_key_size (Key_Tree k cs) =
     (if has_flag k KEY_VOLATILE then 0
      else 4 + 2 * length (k_name k) + 4 + 2 * length (k_class k) + 4 + 4 + 4 + 8
             + sum_list (map serialize_value_size (k_values k))
             + sum_list (map (\<lambda>c. if is_volatile c then 0 else serialize_key_size c) cs))"

definition save_registry :: "nat \<Rightarrow> key_tree \<Rightarrow> wchar list list \<Rightarrow> u8 list" where
  "save_registry prefix_type t parents =
     le 4 prefix_type @ le 4 (length (k_name (kt_key t) # parents))
       @ concat (map (\<lambda>n. le 4 (2 * length n) @ wchar_bytes n) (k_name (kt_key t) # parents))
       @ serialize_key t"

definition save_registry_size :: "key_tree \<Rightarrow> wchar list list \<Rightarrow> nat" where
  "save_registry_size t parents =
     4 + 4 + sum_list (map (\<lambda>n. 4 + 2 * length n) (k_name (kt_key t) # parents)) + serialize_key_size t"

section \<open>Reading back\<close>

text \<open>The client's reads; reading past the end of the data is \<open>None\<close>.\<close>

fun un_le :: "u8 list \<Rightarrow> nat" where
  "un_le [] = 0"
| "un_le (b # bs) = unat b + 256 * un_le bs"

fun bytes_wchars :: "u8 list \<Rightarrow> wchar list" where
  "bytes_wchars (a # b # r) = (ucast a OR push_bit 8 (ucast b)) # bytes_wchars r"
| "bytes_wchars _ = []"

definition get_bytes :: "nat \<Rightarrow> u8 list \<Rightarrow> (u8 list \<times> u8 list) option" where
  "get_bytes n d = (if length d < n then None else Some (take n d, drop n d))"

definition get_int :: "nat \<Rightarrow> u8 list \<Rightarrow> (nat \<times> u8 list) option" where
  "get_int n d = map_option (\<lambda>(b, r). (un_le b, r)) (get_bytes n d)"

definition get_name :: "u8 list \<Rightarrow> (wchar list \<times> u8 list) option" where
  "get_name d =
     Option.bind (get_int 4 d) (\<lambda>(len, d1).
       map_option (\<lambda>(b, r). (bytes_wchars b, r)) (get_bytes len d1))"

record saved_key =
  sk_name :: "wchar list"
  sk_class :: "wchar list"
  sk_value_count :: nat
  sk_subkey_count :: nat
  sk_is_symlink :: nat
  sk_modif :: nat

definition fill_saved_key :: "u8 list \<Rightarrow> (saved_key \<times> u8 list) option" where
  "fill_saved_key d =
     Option.bind (get_name d) (\<lambda>(name, d1).
     Option.bind (get_name d1) (\<lambda>(cls, d2).
     Option.bind (get_int 4 d2) (\<lambda>(value_count, d3).
     Option.bind (get_int 4 d3) (\<lambda>(subkey_count, d4).
     Option.bind (get_int 4 d4) (\<lambda>(is_symlink, d5).
     map_option (\<lambda>(modif, d6).
       (\<lparr>sk_name = name, sk_class = cls, sk_value_count = value_count, sk_subkey_count = subkey_count,
         sk_is_symlink = is_symlink, sk_modif = modif\<rparr>, d6)) (get_int 8 d5))))))"

definition read_value :: "u8 list \<Rightarrow> ((wchar list \<times> nat \<times> u8 list) \<times> u8 list) option" where
  "read_value d =
     Option.bind (get_name d) (\<lambda>(name, d1).
     Option.bind (get_int 4 d1) (\<lambda>(type, d2).
     Option.bind (get_int 4 d2) (\<lambda>(valuelen, d3).
     map_option (\<lambda>(data, d4). ((name, type, data), d4)) (get_bytes valuelen d3))))"

primrec read_list :: "('s \<Rightarrow> ('a \<times> 's) option) \<Rightarrow> nat \<Rightarrow> 's \<Rightarrow> ('a list \<times> 's) option" where
  "read_list rd 0 d = Some ([], d)"
| "read_list rd (Suc n) d =
     Option.bind (rd d) (\<lambda>(x, d1). map_option (\<lambda>(xs, d2). (x # xs, d2)) (read_list rd n d1))"

datatype saved_tree = Saved_Tree saved_key "(wchar list \<times> nat \<times> u8 list) list" "saved_tree list"

text \<open>
  The values of a key are read only under the condition under which the key is printed. The
  depth of the recursion is bounded by the fuel; each level reads a header, so the length of
  the data is enough.
\<close>

primrec read_key :: "nat \<Rightarrow> u8 list \<Rightarrow> (saved_tree \<times> u8 list) option" where
  "read_key 0 d = None"
| "read_key (Suc n) d =
     Option.bind (fill_saved_key d) (\<lambda>(key, d1).
     Option.bind (if sk_value_count key > 0 \<or> sk_subkey_count key = 0 \<or> sk_class key \<noteq> [] \<or> sk_is_symlink key \<noteq> 0
                  then read_list read_value (sk_value_count key) d1 else Some ([], d1)) (\<lambda>(vals, d2).
     map_option (\<lambda>(subs, d3). (Saved_Tree key vals subs, d3)) (read_list (read_key n) (sk_subkey_count key) d2)))"

definition save_subkeys :: "u8 list \<Rightarrow> (saved_tree \<times> u8 list) option" where
  "save_subkeys d = read_key (length d) d"

definition save_all_subkeys :: "u8 list \<Rightarrow> ((nat \<times> wchar list list \<times> saved_tree) \<times> u8 list) option" where
  "save_all_subkeys d =
     Option.bind (get_int 4 d) (\<lambda>(prefix_type, d1).
     Option.bind (get_int 4 d1) (\<lambda>(parent_count, d2).
     Option.bind (read_list get_name parent_count d2) (\<lambda>(names, d3).
     map_option (\<lambda>(t, d4). ((prefix_type, names, t), d4)) (save_subkeys d3))))"

section \<open>Lemmas\<close>

lemma length_le [simp]: "length (le n v) = n"
  by (induction n arbitrary: v) auto

lemma un_le_le: "un_le (le n v) = v mod 256 ^ n"
proof (induction n arbitrary: v)
  case (Suc n)
  have "unat (of_nat v :: u8) = v mod 256" by (simp add: unat_of_nat take_bit_eq_mod)
  then show ?case using Suc by (simp add: mod_mult2_eq)
qed simp

lemma wchar_bytes_Nil [simp]: "wchar_bytes [] = []"
  by (simp add: wchar_bytes_def)

lemma wchar_bytes_Cons [simp]: "wchar_bytes (c # s) = ucast c # ucast (drop_bit 8 c) # wchar_bytes s"
  by (simp add: wchar_bytes_def)

lemma length_wchar_bytes [simp]: "length (wchar_bytes s) = 2 * length s"
  by (induction s) auto

lemma wchar_join: "ucast (ucast c :: u8) OR push_bit 8 (ucast (ucast (drop_bit 8 c) :: u8)) = (c :: wchar)"
  by (rule bit_word_eqI) (auto simp: bit_simps)

lemma bytes_wchars_bytes [simp]: "bytes_wchars (wchar_bytes s) = s"
  by (induction s) (auto simp: wchar_join)

lemma get_bytes_append [simp]: "length b = n \<Longrightarrow> get_bytes n (b @ r) = Some (b, r)"
  by (auto simp: get_bytes_def)

lemma get_int_le [simp]: "v < 256 ^ n \<Longrightarrow> get_int n (le n v @ r) = Some (v, r)"
  by (simp add: get_int_def un_le_le)

lemma get_name_append [simp]:
  "2 * length s < 256 ^ 4 \<Longrightarrow> get_name (le 4 (2 * length s) @ wchar_bytes s @ r) = Some (s, r)"
  by (simp add: get_name_def)

lemma read_list_map:
  assumes "\<And>x r. x \<in> set xs \<Longrightarrow> rd (enc x @ r) = Some (f x, r)"
  shows "read_list rd (length xs) (concat (map enc xs) @ r) = Some (map f xs, r)"
  using assms by (induction xs arbitrary: r) auto

lemma unat_u32: "unat (w :: u32) < 256 ^ 4"
  using unsigned_less [where w = w and 'a = nat] by simp

lemma unat_u64: "unat (w :: u64) < 256 ^ 8"
  using unsigned_less [where w = w and 'a = nat] by simp

lemma read_value_serialize:
  assumes "2 * length (kv_name v) < 256 ^ 4" and "length (kv_data v) < 256 ^ 4"
  shows "read_value (serialize_value v @ r) = Some ((kv_name v, unat (kv_type v), kv_data v), r)"
proof -
  have "unat (kv_type v) < 256 ^ 4" by (rule unat_u32)
  then show ?thesis using assms by (simp add: read_value_def serialize_value_def)
qed

text \<open>All lengths and counts of a branch fit into the 32 bits of their fields.\<close>

fun branch_fits :: "key_tree \<Rightarrow> bool" where
  "branch_fits (Key_Tree k cs) \<longleftrightarrow>
     2 * length (k_name k) < 256 ^ 4 \<and> 2 * length (k_class k) < 256 ^ 4 \<and> length (k_values k) < 256 ^ 4
     \<and> length cs < 256 ^ 4
     \<and> list_all (\<lambda>v. 2 * length (kv_name v) < 256 ^ 4 \<and> length (kv_data v) < 256 ^ 4) (k_values k)
     \<and> list_all branch_fits cs"

text \<open>What has to be read back: the branch without its volatile keys.\<close>

fun saved :: "key_tree \<Rightarrow> saved_tree" where
  "saved (Key_Tree k cs) =
     Saved_Tree \<lparr>sk_name = k_name k, sk_class = k_class k, sk_value_count = length (k_values k),
        sk_subkey_count = length (filter (\<lambda>c. \<not> is_volatile c) cs),
        sk_is_symlink = unat (k_flags k AND KEY_SYMLINK), sk_modif = unat (k_modif k)\<rparr>
       (map (\<lambda>v. (kv_name v, unat (kv_type v), kv_data v)) (k_values k))
       (map saved (filter (\<lambda>c. \<not> is_volatile c) cs))"

lemma concat_live:
  "concat (map (\<lambda>c. if is_volatile c then [] else f c) cs) = concat (map f (filter (\<lambda>c. \<not> is_volatile c) cs))"
  by (induction cs) auto

lemma length_concat_member: "x \<in> set xs \<Longrightarrow> length (f x) \<le> length (concat (map f xs))"
  by (induction xs) auto

lemma fill_saved_key_header:
  assumes "2 * length (k_name k) < 256 ^ 4" and "2 * length (k_class k) < 256 ^ 4"
    and "length (k_values k) < 256 ^ 4" and "n < 256 ^ 4"
  shows "fill_saved_key (key_header k n @ r) =
    Some (\<lparr>sk_name = k_name k, sk_class = k_class k, sk_value_count = length (k_values k), sk_subkey_count = n,
        sk_is_symlink = unat (k_flags k AND KEY_SYMLINK), sk_modif = unat (k_modif k)\<rparr>, r)"
  using assms unat_u32 [of "k_flags k AND KEY_SYMLINK"] unat_u64 [of "k_modif k"]
  by (simp add: fill_saved_key_def key_header_def del: power_numeral)

lemma read_key_serialize:
  assumes "branch_fits t" and "\<not> is_volatile t" and "length (serialize_key t) \<le> n"
  shows "read_key n (serialize_key t @ r) = Some (saved t, r)"
  using assms
proof (induction t arbitrary: n r rule: serialize_key.induct)
  case (1 k cs)
  let ?live = "filter (\<lambda>c. \<not> is_volatile c) cs"
  have nv: "\<not> has_flag k KEY_VOLATILE" using "1.prems"(2) by (simp add: is_volatile_def)
  have ser: "serialize_key (Key_Tree k cs) = key_header k (length ?live)
      @ concat (map serialize_value (k_values k)) @ concat (map serialize_key ?live)"
    using nv by (simp add: concat_live)
  have hd: "0 < length (key_header k (length ?live))" by (simp add: key_header_def)
  then obtain m where m: "n = Suc m" using "1.prems"(3) unfolding ser by (cases n) auto
  have fits: "2 * length (k_name k) < 256 ^ 4" "2 * length (k_class k) < 256 ^ 4" "length (k_values k) < 256 ^ 4"
    "length ?live < 256 ^ 4"
    using "1.prems"(1) le_less_trans [OF length_filter_le [of "\<lambda>c. \<not> is_volatile c" cs]]
    by (auto simp del: power_numeral)
  have subs: "read_list (read_key m) (length ?live) (concat (map serialize_key ?live) @ r) = Some (map saved ?live, r)" for r
  proof (rule read_list_map)
    fix c r assume c: "c \<in> set ?live"
    have "length (serialize_key c) \<le> m"
      using length_concat_member [OF c, of serialize_key] "1.prems"(3) hd unfolding ser m length_append by linarith
    moreover have "branch_fits c" using c "1.prems"(1) by (auto simp: list_all_iff)
    ultimately show "read_key m (serialize_key c @ r) = Some (saved c, r)"
      using "1.IH" [OF nv] c by auto
  qed
  have vals: "read_list read_value (length (k_values k)) (concat (map serialize_value (k_values k)) @ r)
      = Some (map (\<lambda>v. (kv_name v, unat (kv_type v), kv_data v)) (k_values k), r)" for r
    using "1.prems"(1) by (intro read_list_map read_value_serialize) (auto simp: list_all_iff)
  show ?case
    unfolding ser m
    using fill_saved_key_header [OF fits] vals subs by (auto simp del: power_numeral)
qed

lemma length_serialize_key: "length (serialize_key t) = serialize_key_size t"
proof (induction t rule: serialize_key.induct)
  case (1 k cs)
  have "length (concat (map serialize_value vs)) = sum_list (map serialize_value_size vs)" for vs
    by (induction vs) (auto simp: serialize_value_def serialize_value_size_def)
  moreover have "length (concat (map (\<lambda>c. if is_volatile c then [] else serialize_key c) cs))
      = sum_list (map (\<lambda>c. if is_volatile c then 0 else serialize_key_size c) cs)" if "\<not> has_flag k KEY_VOLATILE"
    unfolding length_concat map_map
    by (intro arg_cong [where f = sum_list] map_cong refl) (use "1.IH" that in auto)
  ultimately show ?case by (simp add: key_header_def)
qed

section \<open>Properties\<close>


definition sample_branch :: key_tree where
  "sample_branch = Key_Tree (empty_key\<lparr>k_name := [65], k_values := [\<lparr>kv_name = [97], kv_type = 1, kv_data = [10, 11], kv_order = 0\<rparr>]\<rparr>)
     [Key_Tree (empty_key\<lparr>k_name := [66], k_flags := KEY_VOLATILE\<rparr>) [], Key_Tree (empty_key\<lparr>k_name := [67]\<rparr>) []]"


section \<open>Changes during a flush\<close>

lemma touch_key_stamp:
  "k_timestamp (rs_key (touch_key now change s)) =
     (if has_flag (rs_key s) (KEY_DIRTY OR KEY_VOLATILE) then k_timestamp (rs_key s) else rs_counter s + 1)"
  "k_flags (rs_key (touch_key now change s)) =
     (if has_flag (rs_key s) (KEY_DIRTY OR KEY_VOLATILE) then k_flags (rs_key s) else k_flags (rs_key s) OR KEY_DIRTY)"
  by (simp_all add: touch_key_def make_dirty_def check_notify_def Let_def has_flag_def)

lemma has_flag_or: "has_flag k (f OR g) \<longleftrightarrow> has_flag k f \<or> has_flag k g"
  by (auto simp: has_flag_def bit.conj_disj_distrib or_eq_0_iff)

lemma touch_key_dirty:
  assumes "has_flag (rs_key s) KEY_DIRTY"
  shows "k_timestamp (rs_key (touch_key now change s)) = k_timestamp (rs_key s)"
    and "k_flags (rs_key (touch_key now change s)) = k_flags (rs_key s)"
  using assms by (simp_all add: touch_key_stamp has_flag_or)

lemma has_flag_cong: "k_flags k' = k_flags k \<Longrightarrow> has_flag k' f = has_flag k f"
  by (simp add: has_flag_def)

lemma has_flag_values [simp]: "has_flag (k\<lparr>k_values := vs\<rparr>) f = has_flag k f"
  by (simp add: has_flag_def)

lemma insert_value_frame:
  "k_flags (snd (insert_value mem k name j order)) = k_flags k"
  "k_timestamp (snd (insert_value mem k name j order)) = k_timestamp k"
  by (auto simp: insert_value_def grow_values_def Let_def split: option.splits)

lemma set_value_stamp:
  assumes "has_flag (rs_key s) KEY_DIRTY"
  shows "k_timestamp (rs_key (snd (set_value mem cm now s name ty data))) = k_timestamp (rs_key s)"
    and "k_flags (rs_key (snd (set_value mem cm now s name ty data))) = k_flags (rs_key s)"
proof -
  obtain vl j where f: "find_value cm (rs_key s) name = (vl, j)" by fastforce
  obtain st k1 where i: "(if vl = None then insert_value mem (rs_key s) name j (-1) else (STATUS_SUCCESS, rs_key s)) = (st, k1)"
    by fastforce
  have k1: "k_flags k1 = k_flags (rs_key s)" "k_timestamp k1 = k_timestamp (rs_key s)"
    using i insert_value_frame [of mem "rs_key s" name j "-1"] by (auto split: if_splits)
  have "has_flag k1 KEY_DIRTY" using assms has_flag_cong [OF k1(1)] by simp
  then show "k_timestamp (rs_key (snd (set_value mem cm now s name ty data))) = k_timestamp (rs_key s)"
    and "k_flags (rs_key (snd (set_value mem cm now s name ty data))) = k_flags (rs_key s)"
    using k1 unfolding set_value_def Let_def f prod.case i by (simp_all add: touch_key_dirty)
qed

lemma make_clean_root:
  "has_flag (kt_key (make_clean ts (Key_Tree k cs))) KEY_DIRTY \<longleftrightarrow>
     has_flag k KEY_DIRTY \<and> (has_flag k KEY_VOLATILE \<or> ts < k_timestamp k)"
  by (auto simp: has_flag_def and.assoc)

definition is_clean :: "key \<Rightarrow> bool" where
  "is_clean k \<longleftrightarrow> \<not> has_flag k KEY_DIRTY \<and> \<not> has_flag k KEY_VOLATILE"

lemma dirty_chain_clean:
  "list_all is_clean ks \<Longrightarrow>
    dirty_chain c ks = map (\<lambda>k. k\<lparr>k_flags := k_flags k OR KEY_DIRTY, k_timestamp := c\<rparr>) ks"
  by (induction ks) (auto simp: is_clean_def has_flag_or)

lemma touch_key_clean:
  assumes "is_clean (rs_key s)" and "list_all is_clean (rs_parents s)"
    and "k = rs_key (touch_key now change s) \<or> k \<in> set (rs_parents (touch_key now change s))"
  shows "k_timestamp k = rs_counter s + 1" and "has_flag k KEY_DIRTY"
proof -
  have d: "(x OR KEY_DIRTY) AND KEY_DIRTY \<noteq> 0" for x
    by (simp add: KEY_DIRTY_def bit.conj_disj_distrib2 or_eq_0_iff)
  have "is_clean ((rs_key s)\<lparr>k_modif := now\<rparr>)" using assms(1) by (simp add: is_clean_def has_flag_def)
  then have c: "dirty_chain (Suc (rs_counter s)) ((rs_key s)\<lparr>k_modif := now\<rparr> # rs_parents s) =
      map (\<lambda>k. k\<lparr>k_flags := k_flags k OR KEY_DIRTY, k_timestamp := Suc (rs_counter s)\<rparr>)
        ((rs_key s)\<lparr>k_modif := now\<rparr> # rs_parents s)"
    using dirty_chain_clean [of "(rs_key s)\<lparr>k_modif := now\<rparr> # rs_parents s"] assms(2) by simp
  have "k_timestamp k = rs_counter s + 1 \<and> has_flag k KEY_DIRTY"
    using assms(3) d unfolding has_flag_def
    by (auto simp: touch_key_def make_dirty_def Let_def c check_notify_def simp del: dirty_chain.simps)
  then show "k_timestamp k = rs_counter s + 1" and "has_flag k KEY_DIRTY" by simp_all
qed

text \<open>
  A change of a clean key after the data for a flush were taken survives the flush: the
  key and its clean parents stay dirty when the branch is marked clean with the counter of
  the time of the snapshot.
\<close>

theorem flush_keeps_first_change:
  assumes "is_clean (rs_key s)" and "list_all is_clean (rs_parents s)" and "ts \<le> rs_counter s"
    and "k = rs_key (touch_key now change s) \<or> k \<in> set (rs_parents (touch_key now change s))"
  shows "has_flag (kt_key (make_clean ts (Key_Tree k cs))) KEY_DIRTY"
  using touch_key_clean [OF assms(1,2,4)] assms(3) by (simp add: make_clean_root del: make_clean.simps)

theorem flush_keeps_first_change_witness:
  "has_flag (kt_key (make_clean 7 (Key_Tree
     (rs_key (touch_key 0 4 \<lparr>rs_key = empty_key\<lparr>k_flags := 0\<rparr>, rs_parents = [empty_key\<lparr>k_flags := 0\<rparr>],
        rs_counter = 7, rs_events = []\<rparr>)) []))) KEY_DIRTY"
  by (rule flush_keeps_first_change [OF _ _ _ disjI1 [OF refl]]) (simp_all add: is_clean_def has_flag_def)

text \<open>
  (C37) A change of a key that is already dirty is lost by a flush in progress: the change
  does not renew the time stamp of the key, so that marking the branch clean with the counter
  of the snapshot clears the dirty flag although the saved data do not have the change.
\<close>

theorem flush_loses_later_change:
  assumes "key_ok cm (rs_key s)" and "has_flag (rs_key s) KEY_DIRTY" and "\<not> has_flag (rs_key s) KEY_VOLATILE"
    and "k_timestamp (rs_key s) \<le> rs_counter s"
    and "set_value mem cm now s name ty data = (STATUS_SUCCESS, s')"
    and "value_map cm (rs_key s) (folded cm name) \<noteq> Some (ty, data)"
  shows "value_map cm (rs_key s') (folded cm name) = Some (ty, data)
    \<and> \<not> has_flag (kt_key (make_clean (rs_counter s) (Key_Tree (rs_key s') cs))) KEY_DIRTY"
proof -
  have "value_map cm (rs_key s') (folded cm name) = Some (ty, data)"
    using set_value_cases [OF assms(1,5)] by (auto simp: value_map_cong [OF touch_key_values(1)])
  moreover have st: "k_timestamp (rs_key s') = k_timestamp (rs_key s)" "k_flags (rs_key s') = k_flags (rs_key s)"
    using set_value_stamp [OF assms(2), of mem cm now name ty data] assms(5) by simp_all
  ultimately show ?thesis
    using assms(3,4) has_flag_cong [OF st(2)] by (simp add: make_clean_root del: make_clean.simps)
qed

theorem flush_loses_later_change_witness:
  "key_ok (\<lambda>_. 0) (rs_key empty_state) \<and> has_flag (rs_key empty_state) KEY_DIRTY
   \<and> value_map (\<lambda>_. 0) (rs_key (snd (set_value (\<lambda>_. True) (\<lambda>_. 0) 5 empty_state [97] 1 [10]))) (folded (\<lambda>_. 0) [97]) = Some (1, [10])
   \<and> \<not> has_flag (kt_key (make_clean (rs_counter empty_state)
        (Key_Tree (rs_key (snd (set_value (\<lambda>_. True) (\<lambda>_. 0) 5 empty_state [97] 1 [10]))) []))) KEY_DIRTY"
proof -
  have k: "key_ok (\<lambda>_. 0) (rs_key empty_state)" by (simp add: empty_state_def empty_key_ok)
  have d: "has_flag (rs_key empty_state) KEY_DIRTY" and v: "\<not> has_flag (rs_key empty_state) KEY_VOLATILE"
    and t: "k_timestamp (rs_key empty_state) \<le> rs_counter empty_state"
    and n: "value_map (\<lambda>_. 0) (rs_key empty_state) (folded (\<lambda>_. 0) [97]) \<noteq> Some (1, [10])"
    by code_simp+
  have "fst (set_value (\<lambda>_. True) (\<lambda>_. 0) 5 empty_state [97] 1 [10]) = STATUS_SUCCESS" by code_simp
  then have "set_value (\<lambda>_. True) (\<lambda>_. 0) 5 empty_state [97] 1 [10]
      = (STATUS_SUCCESS, snd (set_value (\<lambda>_. True) (\<lambda>_. 0) 5 empty_state [97] 1 [10]))"
    by (simp add: prod_eq_iff)
  from flush_loses_later_change [OF k d v t this n, of "[]"] show ?thesis
    by (intro conjI k d) (elim conjE, assumption)+
qed

end
