(* ===== verification/Spec2Isabelle.thy ===== *)
theory Spec2Isabelle
  imports Unicode Descriptor_Bytes Handle_Requests Region_Ops User_Handles Atom_Table
    Registry_Keys Registry_Branch
begin

text \<open>
  Verification of the object server of a customised Wine tree. The server
  (\<^verbatim>\<open>src/wine-red-rose-custom/server\<close>, the program \<^verbatim>\<open>wineserver\<close>) is the kernel that all
  Windows processes of a Wine prefix share: it runs one thread, receives requests from its
  clients, and keeps the objects, handles, tokens, atoms, regions, windows and the registry.
  A request is handled to its end before the next one is read, so that an operation of the
  server is a function of its state, and a run of the server is a sequence of operations.

  \<^bold>\<open>Conventions.\<close> A C function is a HOL function with the name of the source. A struct is a
  record, an enumeration a datatype, an array with its counters a list with the allocated
  count beside it. A function that calls \<^verbatim>\<open>set_error\<close> and returns nothing has the type
  \<open>ntstatus + 'a\<close>, or returns the status beside the state it may have changed. Where the
  code can fail an assertion, use a null pointer or leave an array, the outcome \<^const>\<open>Fault\<close>
  is a value of the model and not an assumption. Failing allocations are the parameter
  \<open>mem\<close>. 32-bit and 16-bit integers are words where they can wrap; where they are only
  compared or counted below a bound they are numbers. Data from files (the case table) and
  what other parts of the server provide (object operations, tokens of threads) are
  arguments of the definitions.

  \<^bold>\<open>Theories.\<close>

  \<^item> \<open>Prelude\<close>: words, status codes, the forward scan for a free slot, and the locale
    \<open>handle_allocator\<close>, the contract of a table that hands out handles: what a lookup returns
    after an allocation and after a release. Inside it, any sequence of operations of the
    table is shown to behave like the same operations on a partial function.

  \<^item> \<open>Unicode\<close> (\<^verbatim>\<open>unicode.c\<close>): case folding, case-insensitive comparison and hash, and the
    escaped text form of registry names. Shown: parsing inverts printing for every string,
    names that compare equal have equal hashes.

  \<^item> \<open>Security\<close> (\<^verbatim>\<open>token.c\<close>, \<^verbatim>\<open>security.h\<close>, the descriptor code of \<^verbatim>\<open>object.c\<close>): tokens, groups,
    privileges, access control lists, the access check, duplication and restriction of
    tokens, the construction of descriptors and the replacement of security labels. Shown:
    the access check grants a request exactly when it is justified and not denied first, the
    maximum-allowed request gets the allowed rights minus the denied ones, restricted
    tokens never gain rights, labels are read back as written.

  \<^item> \<open>Descriptor_Bytes\<close> (\<^verbatim>\<open>token.c\<close>): the validation of security data on the bytes of a
    request, with untrusted lengths and wrapping 32-bit sizes. Shown: what an accepted list
    or descriptor guarantees about the offsets in it, and an accepted list whose last entry
    reaches beyond its end.

  \<^item> \<open>Handle_Array\<close>, \<open>Handle_Table\<close>, \<open>Handle_Requests\<close> (\<^verbatim>\<open>handle.c\<close>): the array of a handle table
    with its free hint, growth and shrinking, an interpretation of \<open>handle_allocator\<close>; the
    operations on handles of processes and on global handles with the reference and handle
    counts of the objects; the requests as steps of the server. Shown: new handles are the
    lowest free ones, closing affects one handle only, and after any sequence of requests
    and process starts and exits every handle denotes a live object whose handle count is
    the number of its handles.

  \<^item> \<open>Region\<close>, \<open>Region_Bands\<close>, \<open>Region_Ops\<close> (\<^verbatim>\<open>region.c\<close>, \<^verbatim>\<open>user.h\<close>): sets of pixels as banded lists of
    rectangles. The sweep \<^verbatim>\<open>region_op\<close> receives the functions for one band as arguments; the
    contract between them is the locale \<open>band_operation\<close>, interpreted for intersection,
    difference and union. Shown: each operation computes its set of pixels, for destinations
    that are also sources and for failing allocations, keeps the representation canonical,
    and equality and hit tests decide what they promise.

  \<^item> \<open>User_Handles\<close> (\<^verbatim>\<open>user.c\<close>): the table of window handles with its free list and generation
    counters, a second interpretation of \<open>handle_allocator\<close>. Shown: the table implements a
    partial function, and a stale handle is never accepted.

  \<^item> \<open>Atom_Table\<close> (\<^verbatim>\<open>atom.c\<close>): reference-counted atoms, the global table and the tables of
    window stations, the requests. Shown: adding, finding and deleting refine a map from
    folded names to atoms and counts, and an atom is gone after as many deletions as
    references.

  \<^item> \<open>Registry_Values\<close> (\<^verbatim>\<open>registry.c\<close>): bisection in a sorted array, with the laws it needs of
    the comparison as the locale \<open>comparison\<close>, interpreted for the comparison of names; the
    values of a key, and what a change does to the key and its parents. Shown: setting and
    deleting refine a map from folded names to typed data, and enumeration is complete as long
    as nothing has been deleted.

  \<^item> \<open>Registry_Keys\<close> (\<^verbatim>\<open>registry.c\<close>): the sorted array of subkeys, linking, unlinking, deleting
    and renaming. Shown: bisection decides which subkey a name denotes, and the operations
    refine updates of a map from folded names to keys, renaming except in one case.

  \<^item> \<open>Registry_Branch\<close> (\<^verbatim>\<open>registry.c\<close> and \<^verbatim>\<open>dlls/ntdll/unix/registry.c\<close>): the serialised form of a
    branch, as written by the server and read by the client that saves it, and the dirty
    flags during a flush. Shown: the client reads back what the server wrote, and which
    changes during a flush are kept and which are lost.

  \<^bold>\<open>Defects.\<close> Some theorems state what the code does where it does not do what it means to:
  the values of a key that enumeration misses after a deletion, the subkey that a renaming
  overwrites, the change that a flush loses, the rectangle that mirroring loses, the groups
  for denying only that never deny, the null pointers and assertions that a request can
  reach, the validation that accepts an entry shorter than its header.

  \<^bold>\<open>Recursion and fuel.\<close> Loops are structural recursion or functions with a termination proof
  (the forward scan, bisection, the sweep over bands, parsing). The only fuel is that of the
  reader of a serialised branch, \<open>read_key\<close>: it bounds the depth of the recursion, and the
  number of bytes is enough because every level reads a header; the round trip is proved
  with this fuel.

  \<^bold>\<open>Not modelled.\<close> The name space of objects and the lookup of paths, with the redirection of
  32-bit clients in the registry; the text files of the registry beyond the escaped strings;
  destructors beyond their effect on counts; debug output. The window manager, the
  synchronisation objects, files, sockets, pipes and mappings, processes and threads, the
  request loop and the decoding of requests are other parts of the server: they are state of
  the host system or closely tied to it. The Windows libraries and programs, the bundled
  third-party libraries and the build scripts are other programs.
\<close>

end
